(* ===== verification/Prelude.thy ===== *)
theory Prelude
  imports Main "HOL-Library.Sublist" "HOL-Library.Word" "HOL-Library.AList"
begin

text \<open>
  What every component shares: the names of the Go types, the error values, the time type with
  its order, 64-bit signed arithmetic, the few functions of Go's \<open>strings\<close> package the program
  calls, and the collections of simplification rules.

  A Go string is a sequence of bytes, and so is \<^typ>\<open>string\<close> (a list of 8-bit characters).
  An \<open>int64\<close> is an \<^typ>\<open>int\<close> whose additions are reduced by \<open>i64\<close> below.
\<close>

named_theorems go_simps \<open>unfolding the modelled library calls\<close>
named_theorems fs_simps \<open>lookups after file-system operations\<close>

type_synonym bytes = string

subsection \<open>Error values\<close>

text \<open>One constructor for each error the source creates, with the values its message prints.\<close>

datatype error =
    IoError | NotExist | AlreadyExists | NotDir | BufferFull
  | EndOfFile | UnexpectedEof
  | UnsupportedVersion int | UnknownOp string | UnknownMode string
  | InvalidOriginLabel string | PathNotAbsolute | PathTooLong | PathControlChar
  | InvalidApp string | DeclaredSize int int
  | HeaderTooLarge | HeaderExceedsLimit | BadHeader | LineExceedsLimit | BadEvent
  | ReadingChunkHeader error | ChunkExceedsLimit nat | PayloadTooLarge
  | BudgetExceeded | RejectedEntry string error | Unpacking error
  | EmptyName | NulInName | BackslashInName | AbsoluteName | EscapesRoot
  | MirrorsRoot | LocallyModifiedCopy
  | UnknownOrigin string | OriginMismatch string string | AuthFailed string | InlineDisabled
  | InvalidHostLabel string | DuplicateLabel string | InvalidDest string | InvalidPort string int
  | UnsupportedArch string | CommandFailed | ConfigError
  | OpenFailed string | RevealFailed string | AppOnlyOnMac | NoOpener | NotInPath string
  | ProvisionFailed error | InstanceRunning string | SocketInUse string | HostFailed string error
  | NotEnrolled string | IncompleteAgent | InvalidAgentPort int | InvalidAgentLabel string
  | CannotResolve error | TooLargeToSend int int | CannotReach string error | DaemonError error
  | Packing error | ConnectionLost error | Reported "error option"
  | NoAssets | SshFailed error | MissingBinary string error | ScpFailed string error | ChmodFailed error
  | BootstrapFailed error

type_synonym 'a result = "error + 'a"

text \<open>The negation of \<open>err != nil\<close>.\<close>

definition succeeds :: "'a result \<Rightarrow> bool" where
  "succeeds r = (case r of Inl _ \<Rightarrow> False | Inr _ \<Rightarrow> True)"

lemma succeeds_simps [simp]: "succeeds (Inr x)" "\<not> succeeds (Inl e)"
  by (simp_all add: succeeds_def)

subsection \<open>64-bit signed arithmetic\<close>

definition i64 :: "int \<Rightarrow> int" where
  "i64 x = signed_take_bit 63 x"

definition max_i64 :: int where
  "max_i64 = 9223372036854775807"

definition min_i64 :: int where
  "min_i64 = - 9223372036854775808"

definition in_i64 :: "int \<Rightarrow> bool" where
  "in_i64 x \<longleftrightarrow> min_i64 \<le> x \<and> x \<le> max_i64"

lemma i64_id: "in_i64 x \<Longrightarrow> i64 x = x"
  by (simp add: i64_def in_i64_def min_i64_def max_i64_def signed_take_bit_int_eq_self)

lemma in_i64_i64: "in_i64 (i64 x)"
  using signed_take_bit_int_greater_eq_minus_exp [of 63 x] signed_take_bit_int_less_exp [of 63 x]
  by (simp add: i64_def in_i64_def min_i64_def max_i64_def)

subsection \<open>Instants and durations\<close>

text \<open>
  A \<open>time.Time\<close> is an instant in nanoseconds, ordered by \<open>Before\<close>; a \<open>time.Duration\<close> is an
  \<open>int64\<close> of nanoseconds.
\<close>

datatype gotime = Instant (nanos: int)

instantiation gotime :: linorder
begin

definition less_eq_gotime :: "gotime \<Rightarrow> gotime \<Rightarrow> bool" where
  "s \<le> t \<longleftrightarrow> nanos s \<le> nanos t"

definition less_gotime :: "gotime \<Rightarrow> gotime \<Rightarrow> bool" where
  "s < t \<longleftrightarrow> nanos s < nanos t"

instance
  by standard (auto simp: less_eq_gotime_def less_gotime_def intro: gotime.expand)

end

definition second :: int where "second = 1000000000"
definition minute :: int where "minute = 60 * second"
definition hour :: int where "hour = 60 * minute"

text \<open>The zero \<open>time.Time\<close>, 1 January of year 1.\<close>

definition zero_time :: gotime where
  "zero_time = Instant (- 62135596800000000000)"

definition time_after :: "gotime \<Rightarrow> gotime \<Rightarrow> bool" where
  "time_after s t = (t < s)"

definition time_before :: "gotime \<Rightarrow> gotime \<Rightarrow> bool" where
  "time_before s t = (s < t)"

definition time_add :: "gotime \<Rightarrow> int \<Rightarrow> gotime" where
  "time_add t d = Instant (nanos t + d)"

text \<open>\<open>Time.Sub\<close> saturates at the ends of \<open>int64\<close>.\<close>

definition time_sub :: "gotime \<Rightarrow> gotime \<Rightarrow> int" where
  "time_sub s t = max min_i64 (min max_i64 (nanos s - nanos t))"

lemmas time_defs = time_after_def time_before_def time_add_def less_gotime_def less_eq_gotime_def

subsection \<open>Strings\<close>

definition has_prefix :: "string \<Rightarrow> string \<Rightarrow> bool" where
  "has_prefix s p = prefix p s"

definition trim_prefix :: "string \<Rightarrow> string \<Rightarrow> string" where
  "trim_prefix s p = (if prefix p s then drop (length p) s else s)"

text \<open>\<open>strings.Split\<close> at a single byte, and its inverse \<open>strings.Join\<close>.\<close>

fun split_on :: "char \<Rightarrow> string \<Rightarrow> string list" where
  "split_on d [] = [[]]"
| "split_on d (c # cs) =
     (if c = d then [] # split_on d cs
      else case split_on d cs of [] \<Rightarrow> [[c]] | w # ws \<Rightarrow> (c # w) # ws)"

fun join_with :: "char \<Rightarrow> string list \<Rightarrow> string" where
  "join_with d [] = []"
| "join_with d [w] = w"
| "join_with d (w # ws) = w @ d # join_with d ws"

lemma split_on_not_Nil [simp]: "split_on d s \<noteq> []"
  by (induction s) (auto split: list.splits)

lemma join_with_Cons: "join_with d (w # ws) = (if ws = [] then w else w @ d # join_with d ws)"
  by (cases ws) auto

lemma join_split [simp]: "join_with d (split_on d s) = s"
  by (induction s) (auto simp: join_with_Cons split: list.splits if_splits)

lemma split_on_free: "d \<notin> set w \<Longrightarrow> split_on d w = [w]"
  by (induction w) auto

lemma split_on_append:
  "split_on d (v @ d # s) = split_on d v @ split_on d s"
  by (induction v) (auto split: list.splits)

lemma split_join:
  "ws \<noteq> [] \<Longrightarrow> \<forall>w \<in> set ws. d \<notin> set w \<Longrightarrow> split_on d (join_with d ws) = ws"
proof (induction ws)
  case Nil
  then show ?case by simp
next
  case (Cons w ws)
  show ?case
  proof (cases "ws = []")
    case True
    with Cons.prems show ?thesis by (simp add: split_on_free)
  next
    case False
    with Cons show ?thesis by (simp add: join_with_Cons split_on_append split_on_free)
  qed
qed

lemma split_on_parts: "w \<in> set (split_on d s) \<Longrightarrow> d \<notin> set w"
proof (induction s arbitrary: w)
  case Nil
  then show ?case by simp
next
  case (Cons c s)
  then obtain u us where "split_on d s = u # us" by (cases "split_on d s") auto
  with Cons show ?case by (auto split: if_splits)
qed

lemma join_with_append:
  "us \<noteq> [] \<Longrightarrow> vs \<noteq> [] \<Longrightarrow> join_with d (us @ vs) = join_with d us @ d # join_with d vs"
  by (induction us) (auto simp: join_with_Cons)

lemma join_with_Nil_iff: "join_with d ws = [] \<longleftrightarrow> ws = [] \<or> ws = [[]]"
  by (cases ws) (auto simp: join_with_Cons)

lemma has_prefix_append [simp]: "has_prefix (p @ s) p"
  by (simp add: has_prefix_def)

text \<open>\<open>%d\<close> and \<open>strconv.Itoa\<close>.\<close>

fun decimal :: "nat \<Rightarrow> string" where
  "decimal n = (if n < 10 then [char_of (48 + n)] else decimal (n div 10) @ [char_of (48 + n mod 10)])"

declare decimal.simps [simp del]

definition itoa :: "int \<Rightarrow> string" where
  "itoa k = (if k < 0 then CHR ''-'' # decimal (nat (- k)) else decimal (nat k))"

lemmas string_defs = has_prefix_def trim_prefix_def

declare string_defs [go_simps] time_defs [go_simps]

end
