(* ===== verification/GoPath.thy ===== *)
theory GoPath
  imports Prelude
begin

text \<open>
  Go's lexical path functions (\<open>path.Clean\<close>, \<open>path.IsAbs\<close>, \<open>filepath.Join\<close>, \<open>filepath.Dir\<close>,
  \<open>filepath.Base\<close>) on a POSIX system, where \<open>filepath.FromSlash\<close> and \<open>filepath.ToSlash\<close> are the
  identity. A path is read as its list of components; \<open>clean_comps\<close> is the loop of \<open>path.Clean\<close>.
\<close>

definition slash :: char where
  "slash = CHR ''/''"

definition rooted :: "string \<Rightarrow> bool" where
  "rooted s = (case s of [] \<Rightarrow> False | c # _ \<Rightarrow> c = slash)"

text \<open>\<open>acc\<close> holds the components kept so far, last first.\<close>

fun clean_comps :: "bool \<Rightarrow> string list \<Rightarrow> string list \<Rightarrow> string list" where
  "clean_comps r acc [] = rev acc"
| "clean_comps r acc (c # cs) =
     (if c = [] \<or> c = ''.'' then clean_comps r acc cs
      else if c = ''..'' then
        (case acc of
           [] \<Rightarrow> clean_comps r (if r then [] else [''..'']) cs
         | d # ds \<Rightarrow> if d = ''..'' then clean_comps r (''..'' # acc) cs
                    else clean_comps r ds cs)
      else clean_comps r (c # acc) cs)"

definition path_comps :: "string \<Rightarrow> string list" where
  "path_comps s = clean_comps (rooted s) [] (split_on slash s)"

definition path_clean :: "string \<Rightarrow> string" where
  "path_clean s =
     (if rooted s then slash # join_with slash (path_comps s)
      else if path_comps s = [] then ''.'' else join_with slash (path_comps s))"

definition path_join :: "string list \<Rightarrow> string" where
  "path_join es =
     (case dropWhile (\<lambda>e. e = []) es of [] \<Rightarrow> [] | es' \<Rightarrow> path_clean (join_with slash es'))"

definition path_dir :: "string \<Rightarrow> string" where
  "path_dir s = path_clean (rev (dropWhile (\<lambda>c. c \<noteq> slash) (rev s)))"

definition path_base :: "string \<Rightarrow> string" where
  "path_base s =
     (if s = [] then ''.''
      else let t = dropWhile (\<lambda>c. c = slash) (rev s) in
        if t = [] then [slash] else rev (takeWhile (\<lambda>c. c \<noteq> slash) t))"

subsection \<open>Components that name something\<close>

definition plain :: "string \<Rightarrow> bool" where
  "plain c \<longleftrightarrow> c \<noteq> [] \<and> c \<noteq> ''.'' \<and> c \<noteq> ''..'' \<and> slash \<notin> set c"

lemma plainD: "plain c \<Longrightarrow> c \<noteq> []" "plain c \<Longrightarrow> c \<noteq> ''.''" "plain c \<Longrightarrow> c \<noteq> ''..''"
    "plain c \<Longrightarrow> slash \<notin> set c"
  by (simp_all add: plain_def)

lemma clean_comps_plain:
  "\<forall>c \<in> set cs. plain c \<Longrightarrow> clean_comps r acc cs = rev acc @ cs"
  by (induction cs arbitrary: acc) (auto dest: plainD)

lemma clean_comps_append:
  "clean_comps r acc (xs @ ys) = clean_comps r (rev (clean_comps r acc xs)) ys"
  by (induction r acc xs rule: clean_comps.induct) (auto split: list.split)

lemma clean_comps_rooted_plain:
  "\<forall>c \<in> set cs. slash \<notin> set c \<Longrightarrow> \<forall>c \<in> set acc. plain c \<Longrightarrow>
   c \<in> set (clean_comps True acc cs) \<Longrightarrow> plain c"
proof (induction True acc cs rule: clean_comps.induct)
  case (2 acc d ds)
  then show ?case by (auto simp: plain_def split: if_splits list.splits)
qed auto

text \<open>Without a root the result is a run of \<open>..\<close> followed by plain components.\<close>

fun dotdots :: "string list \<Rightarrow> bool" where
  "dotdots [] = True"
| "dotdots (c # cs) = (if c = ''..'' then dotdots cs else list_all plain (c # cs))"

lemma dotdots_plain: "list_all plain cs \<Longrightarrow> dotdots cs"
  by (cases cs) (auto simp: plain_def)

lemma dotdots_snoc: "dotdots cs \<Longrightarrow> plain c \<Longrightarrow> dotdots (cs @ [c])"
  by (induction cs) auto

lemma dotdots_butlast: "dotdots (cs @ [c]) \<Longrightarrow> dotdots cs"
  by (induction cs) auto

lemma dotdots_last: "dotdots (cs @ [''..'']) \<Longrightarrow> dotdots (cs @ [''..'', ''..''])"
  by (induction cs) (auto simp: plain_def split: if_splits)

lemma dotdots_hd: "dotdots cs \<Longrightarrow> (cs \<noteq> [] \<Longrightarrow> hd cs \<noteq> ''..'') \<Longrightarrow> list_all plain cs"
  by (cases cs) auto

lemma clean_comps_dotdots:
  "\<forall>c \<in> set cs. slash \<notin> set c \<Longrightarrow> dotdots (rev acc) \<Longrightarrow> dotdots (clean_comps False acc cs)"
proof (induction cs arbitrary: acc)
  case Nil
  then show ?case by simp
next
  case (Cons d ds)
  then have IH: "dotdots (rev acc') \<Longrightarrow> dotdots (clean_comps False acc' ds)" for acc' by simp
  consider "d = [] \<or> d = ''.''" | "d = ''..''" "acc = []"
    | es where "d = ''..''" "acc = ''..'' # es"
    | e es where "d = ''..''" "acc = e # es" "e \<noteq> ''..''"
    | "d \<noteq> ''..''" "plain d"
    using Cons.prems(1) by (cases acc) (auto simp: plain_def)
  then show ?case
  proof cases
    case 3
    with Cons.prems(2) have "dotdots (rev (''..'' # acc))" by (simp add: dotdots_last)
    with 3 show ?thesis using IH [of "''..'' # acc"] by simp
  next
    case 4
    with Cons.prems(2) have "dotdots (rev es)" by (simp add: dotdots_butlast)
    with 4 show ?thesis using IH by simp
  next
    case 5
    then show ?thesis using IH [of "d # acc"] Cons.prems(2) by (simp add: dotdots_snoc plain_def)
  qed (use Cons.prems(2) IH in \<open>auto\<close>)
qed

lemma split_slash_free: "\<forall>c \<in> set (split_on slash s). slash \<notin> set c"
  by (auto dest: split_on_parts)

lemma path_comps_rooted_plain: "rooted s \<Longrightarrow> list_all plain (path_comps s)"
  using clean_comps_rooted_plain [of "split_on slash s" "[]"]
  by (simp add: path_comps_def list_all_iff split_slash_free)

lemma path_comps_unrooted: "\<not> rooted s \<Longrightarrow> dotdots (path_comps s)"
  unfolding path_comps_def by (simp add: clean_comps_dotdots split_slash_free)

subsection \<open>Joining components\<close>

lemma rooted_append [simp]: "s \<noteq> [] \<Longrightarrow> rooted (s @ t) = rooted s"
  by (cases s) (auto simp: rooted_def)

lemma rooted_Cons [simp]: "rooted (c # s) = (c = slash)"
  by (simp add: rooted_def)

lemma rooted_Nil [simp]: "\<not> rooted []"
  by (simp add: rooted_def)

lemma path_comps_append:
  "s \<noteq> [] \<Longrightarrow> path_comps (s @ slash # t) = clean_comps (rooted s) (rev (path_comps s)) (split_on slash t)"
  by (simp add: path_comps_def split_on_append clean_comps_append)

lemma split_join_plain:
  "list_all plain cs \<Longrightarrow> cs \<noteq> [] \<Longrightarrow> split_on slash (join_with slash cs) = cs"
  by (rule split_join) (auto simp: list_all_iff plain_def)

lemma join_plain_not_Nil: "list_all plain cs \<Longrightarrow> cs \<noteq> [] \<Longrightarrow> join_with slash cs \<noteq> []"
  by (auto simp: join_with_Nil_iff plain_def)

lemma rooted_join_plain: "list_all plain cs \<Longrightarrow> \<not> rooted (join_with slash cs)"
  by (cases cs) (auto simp: join_with_Cons rooted_def plain_def split: list.split)

lemma path_comps_join_plain: "list_all plain cs \<Longrightarrow> path_comps (join_with slash cs) = cs"
proof (cases "cs = []")
  case True
  then show ?thesis by (simp add: path_comps_def)
next
  case False
  assume "list_all plain cs"
  with False show ?thesis
    by (simp add: path_comps_def split_join_plain rooted_join_plain clean_comps_plain list_all_iff)
qed

lemma path_comps_slash_join: "list_all plain cs \<Longrightarrow> path_comps (slash # join_with slash cs) = cs"
proof (cases "cs = []")
  case True
  then show ?thesis by (simp add: path_comps_def)
next
  case False
  assume "list_all plain cs"
  with False show ?thesis
    by (simp add: path_comps_def split_join_plain clean_comps_plain list_all_iff)
qed

text \<open>\<open>Clean\<close> keeps the components, so it is idempotent.\<close>

lemma path_comps_clean: "list_all plain (path_comps s) \<Longrightarrow> path_comps (path_clean s) = path_comps s"
  by (auto simp: path_clean_def path_comps_slash_join path_comps_join_plain)
     (simp add: path_comps_def rooted_def)

lemma path_comps_append_clean:
  assumes "s \<noteq> []" "list_all plain cs"
    and t: "t = join_with slash cs \<or> cs = [] \<and> t = ''.''"
  shows "path_comps (s @ slash # t) = path_comps s @ cs"
proof -
  have "split_on slash t = cs \<or> cs = [] \<and> set (split_on slash t) \<subseteq> {[], ''.''}"
    using t split_join_plain [OF assms(2)] by (cases "cs = []") (auto simp: slash_def)
  then have "clean_comps (rooted s) (rev (path_comps s)) (split_on slash t) = path_comps s @ cs"
    using assms(2) t by (auto simp: clean_comps_plain list_all_iff slash_def)
  then show ?thesis using assms(1) by (simp add: path_comps_append)
qed

lemma path_comps_join2:
  assumes "s \<noteq> []" "list_all plain (path_comps s)" "list_all plain cs"
    and t: "t = join_with slash cs \<or> cs = [] \<and> t = ''.''"
  shows "path_comps (path_join [s, t]) = path_comps s @ cs"
proof -
  note eq = path_comps_append_clean [OF assms(1,3) t]
  have "path_comps (path_clean (s @ slash # t)) = path_comps (s @ slash # t)"
    using assms eq by (intro path_comps_clean) simp
  then show ?thesis using assms(1) eq by (simp add: path_join_def join_with_Cons)
qed

text \<open>Two clean relative paths with the same components are the same string.\<close>

lemma path_clean_comps: "\<not> rooted s \<Longrightarrow> path_comps s \<noteq> [] \<Longrightarrow>
    path_clean s = join_with slash (path_comps s)"
  by (simp add: path_clean_def)

subsection \<open>The parent of a clean path\<close>

lemma path_dir_join:
  assumes "list_all plain cs" "cs \<noteq> []"
  shows "path_comps (path_dir (join_with slash cs)) = butlast cs"
    and "path_comps (path_dir (slash # join_with slash cs)) = butlast cs"
proof -
  obtain ds n where cs: "cs = ds @ [n]" using assms(2) by (metis rev_exhaust)
  have n: "plain n" "list_all plain ds" using assms(1) cs by auto
  have "dropWhile (\<lambda>c. c \<noteq> slash) (rev n @ slash # rev d) = slash # rev d" for d
    using plainD(4) [OF n(1)] by (subst dropWhile_append2) auto
  then have drop: "rev (dropWhile (\<lambda>c. c \<noteq> slash) (rev (d @ slash # n))) = d @ [slash]" for d
    by simp
  have clean: "path_comps (path_clean (d @ [slash])) = path_comps d" if "list_all plain (path_comps d)" for d
  proof -
    have "path_comps (d @ [slash]) = path_comps d"
    proof (cases "d = []")
      case True
      then show ?thesis by (simp add: path_comps_def)
    next
      case False
      then show ?thesis using path_comps_append [of d "[]"] by simp
    qed
    then show ?thesis using path_comps_clean [of "d @ [slash]"] that by simp
  qed
  have "dropWhile (\<lambda>c. c \<noteq> slash) (rev n) = []"
    using plainD(4) [OF n(1)] by (auto simp: dropWhile_eq_Nil_conv)
  then have nodir: "path_dir n = path_clean []" by (simp only: path_dir_def rev.simps)
  have nil: "path_comps (path_clean []) = []" by (simp add: path_clean_def path_comps_def)
  show "path_comps (path_dir (join_with slash cs)) = butlast cs"
  proof (cases "ds = []")
    case True
    then show ?thesis using cs nodir nil by simp
  next
    case False
    then have "path_dir (join_with slash cs) = path_clean (join_with slash ds @ [slash])"
      using cs drop by (simp add: path_dir_def join_with_append)
    then show ?thesis using clean n(2) cs by (simp add: path_comps_join_plain)
  qed
  have "\<exists>d. slash # join_with slash cs = d @ slash # n \<and> path_comps d = ds"
  proof (cases "ds = []")
    case True
    then show ?thesis using cs by (intro exI [of _ "[]"]) (simp add: path_comps_def)
  next
    case False
    then show ?thesis using cs n(2)
      by (intro exI [of _ "slash # join_with slash ds"]) (simp add: join_with_append path_comps_slash_join)
  qed
  then obtain d where e: "slash # join_with slash cs = d @ slash # n" and d: "path_comps d = ds" by blast
  show "path_comps (path_dir (slash # join_with slash cs)) = butlast cs"
    unfolding path_dir_def e drop using clean n(2) cs d by simp
qed

lemma path_dir_clean:
  "list_all plain (path_comps s) \<Longrightarrow> path_comps s \<noteq> [] \<Longrightarrow>
   path_comps (path_dir (path_clean s)) = butlast (path_comps s)"
  by (auto simp: path_clean_def path_dir_join)

end
