(* ===== verification/Regex.thy ===== *)
theory Regex
  imports Prelude
begin

text \<open>
  The fragment of Go's \<open>regexp\<close> syntax the program uses: byte classes, sequence, the bounded
  repetition \<open>r{0,n}\<close>, \<open>r*\<close> and \<open>r?\<close>. Every pattern of the source is anchored at both ends
  (\<open>^...$\<close>, without the \<open>m\<close> flag), so a match is membership of the whole text in the language.
  \<open>re_lang\<close> is that language; \<open>re_match\<close> decides it by Brzozowski derivatives.
\<close>

datatype re =
    Never | Empty
  | Cls "(char \<times> char) list"
  | Alt re re
  | Seq re re
  | Upto re nat
  | Star re

abbreviation Opt :: "re \<Rightarrow> re" where
  "Opt r \<equiv> Alt Empty r"

definition in_cls :: "(char \<times> char) list \<Rightarrow> char \<Rightarrow> bool" where
  "in_cls rs c = list_ex (\<lambda>(lo, hi). of_char lo \<le> (of_char c :: nat) \<and> of_char c \<le> (of_char hi :: nat)) rs"

inductive_set star :: "string set \<Rightarrow> string set" for L :: "string set" where
  star_nil: "[] \<in> star L"
| star_app: "u \<in> L \<Longrightarrow> v \<in> star L \<Longrightarrow> u @ v \<in> star L"

definition conc :: "string set \<Rightarrow> string set \<Rightarrow> string set" where
  "conc L M = {u @ v | u v. u \<in> L \<and> v \<in> M}"

fun upto_lang :: "string set \<Rightarrow> nat \<Rightarrow> string set" where
  "upto_lang L 0 = {[]}"
| "upto_lang L (Suc n) = insert [] (conc L (upto_lang L n))"

primrec re_lang :: "re \<Rightarrow> string set" where
  "re_lang Never = {}"
| "re_lang Empty = {[]}"
| "re_lang (Cls rs) = {[c] | c. in_cls rs c}"
| "re_lang (Alt r s) = re_lang r \<union> re_lang s"
| "re_lang (Seq r s) = conc (re_lang r) (re_lang s)"
| "re_lang (Upto r n) = upto_lang (re_lang r) n"
| "re_lang (Star r) = star (re_lang r)"

primrec nullable :: "re \<Rightarrow> bool" where
  "nullable Never = False"
| "nullable Empty = True"
| "nullable (Cls rs) = False"
| "nullable (Alt r s) = (nullable r \<or> nullable s)"
| "nullable (Seq r s) = (nullable r \<and> nullable s)"
| "nullable (Upto r n) = True"
| "nullable (Star r) = True"

primrec deriv :: "char \<Rightarrow> re \<Rightarrow> re" where
  "deriv c Never = Never"
| "deriv c Empty = Never"
| "deriv c (Cls rs) = (if in_cls rs c then Empty else Never)"
| "deriv c (Alt r s) = Alt (deriv c r) (deriv c s)"
| "deriv c (Seq r s) =
     (if nullable r then Alt (Seq (deriv c r) s) (deriv c s) else Seq (deriv c r) s)"
| "deriv c (Upto r n) = (case n of 0 \<Rightarrow> Never | Suc m \<Rightarrow> Seq (deriv c r) (Upto r m))"
| "deriv c (Star r) = Seq (deriv c r) (Star r)"

fun re_match :: "re \<Rightarrow> string \<Rightarrow> bool" where
  "re_match r [] = nullable r"
| "re_match r (c # cs) = re_match (deriv c r) cs"

subsection \<open>The matcher decides the language\<close>

lemma nullable_lang: "nullable r \<longleftrightarrow> [] \<in> re_lang r"
proof (induction r)
  case (Upto r n)
  then show ?case by (cases n) auto
qed (auto simp: conc_def intro: star_nil)

lemma star_Cons: "c # w \<in> star L \<longleftrightarrow> (\<exists>u v. w = u @ v \<and> c # u \<in> L \<and> v \<in> star L)"
proof
  show "c # w \<in> star L \<Longrightarrow> \<exists>u v. w = u @ v \<and> c # u \<in> L \<and> v \<in> star L"
  proof (induction "c # w" rule: star.induct)
    case (star_app u v)
    then show ?case by (cases u) auto
  qed
next
  assume "\<exists>u v. w = u @ v \<and> c # u \<in> L \<and> v \<in> star L"
  then obtain u v where "w = u @ v" "c # u \<in> L" "v \<in> star L" by blast
  then have "(c # u) @ v \<in> star L" by (blast intro: star_app)
  with \<open>w = u @ v\<close> show "c # w \<in> star L" by simp
qed

lemma conc_mono: "M \<subseteq> N \<Longrightarrow> conc L M \<subseteq> conc L N"
  unfolding conc_def by blast

lemma upto_lang_mono: "upto_lang L n \<subseteq> upto_lang L (Suc n)"
proof (induction n)
  case 0
  show ?case by simp
next
  case (Suc n)
  then have "conc L (upto_lang L n) \<subseteq> conc L (upto_lang L (Suc n))" by (rule conc_mono)
  then show ?case by auto
qed

lemma upto_lang_Cons:
  "c # w \<in> upto_lang L (Suc n) \<longleftrightarrow> (\<exists>u v. w = u @ v \<and> c # u \<in> L \<and> v \<in> upto_lang L n)"
proof (induction n)
  case 0
  show ?case by (auto simp: conc_def)
next
  case (Suc n)
  show ?case
  proof
    assume "c # w \<in> upto_lang L (Suc (Suc n))"
    then obtain u v where uv: "c # w = u @ v" "u \<in> L" "v \<in> upto_lang L (Suc n)"
      by (auto simp: conc_def)
    show "\<exists>u v. w = u @ v \<and> c # u \<in> L \<and> v \<in> upto_lang L (Suc n)"
    proof (cases u)
      case Nil
      with uv Suc.IH upto_lang_mono show ?thesis by fastforce
    next
      case (Cons d u')
      with uv show ?thesis by auto
    qed
  next
    assume "\<exists>u v. w = u @ v \<and> c # u \<in> L \<and> v \<in> upto_lang L (Suc n)"
    then obtain u v where "c # w = (c # u) @ v" "c # u \<in> L" "v \<in> upto_lang L (Suc n)"
      by auto
    then have "c # w \<in> conc L (upto_lang L (Suc n))"
      unfolding conc_def by blast
    then show "c # w \<in> upto_lang L (Suc (Suc n))" by simp
  qed
qed

lemma conc_Cons:
  "c # w \<in> conc L M \<longleftrightarrow> (\<exists>u v. w = u @ v \<and> c # u \<in> L \<and> v \<in> M) \<or> ([] \<in> L \<and> c # w \<in> M)"
  by (auto simp: conc_def Cons_eq_append_conv)

lemma deriv_lang: "w \<in> re_lang (deriv c r) \<longleftrightarrow> c # w \<in> re_lang r"
proof (induction r arbitrary: w)
  case (Seq r s)
  then show ?case by (auto simp: conc_Cons nullable_lang) (auto simp: conc_def)
next
  case (Upto r n)
  then show ?case
    by (cases n) (simp_all add: upto_lang_Cons del: upto_lang.simps(2), auto simp: conc_def)
next
  case (Star r)
  then show ?case by (auto simp: star_Cons) (auto simp: conc_def)
qed auto

lemma re_match_lang: "re_match r s \<longleftrightarrow> s \<in> re_lang r"
  by (induction s arbitrary: r) (simp_all add: nullable_lang deriv_lang)

subsection \<open>Membership in the shapes of pattern the program uses\<close>

lemma conc_cls:
  "s \<in> conc (re_lang (Cls rs)) M \<longleftrightarrow> (\<exists>c cs. s = c # cs \<and> in_cls rs c \<and> cs \<in> M)"
proof
  assume "\<exists>c cs. s = c # cs \<and> in_cls rs c \<and> cs \<in> M"
  then obtain c cs where "s = [c] @ cs" "[c] \<in> re_lang (Cls rs)" "cs \<in> M" by auto
  then show "s \<in> conc (re_lang (Cls rs)) M" unfolding conc_def by blast
qed (auto simp: conc_def)

lemma upto_cls: "s \<in> upto_lang (re_lang (Cls rs)) n \<longleftrightarrow> length s \<le> n \<and> list_all (in_cls rs) s"
proof (induction n arbitrary: s)
  case 0
  show ?case by auto
next
  case (Suc n)
  then show ?case by (cases s) (auto simp add: conc_cls simp del: re_lang.simps(3))
qed

lemma star_cls: "s \<in> star (re_lang (Cls rs)) \<longleftrightarrow> list_all (in_cls rs) s"
proof
  show "s \<in> star (re_lang (Cls rs)) \<Longrightarrow> list_all (in_cls rs) s"
    by (induction rule: star.induct) auto
next
  show "list_all (in_cls rs) s \<Longrightarrow> s \<in> star (re_lang (Cls rs))"
  proof (induction s)
    case (Cons c s)
    then have "[c] @ s \<in> star (re_lang (Cls rs))" by (intro star_app) auto
    then show ?case by simp
  qed (simp add: star_nil)
qed

lemma match_head_upto:
  "re_match (Seq (Cls hd_cls) (Upto (Cls tl_cls) n)) s \<longleftrightarrow>
     (\<exists>c cs. s = c # cs \<and> in_cls hd_cls c \<and> length cs \<le> n \<and> list_all (in_cls tl_cls) cs)"
  by (simp add: re_match_lang conc_cls upto_cls del: re_lang.simps(3))

lemma match_head_star:
  "re_match (Seq (Cls hd_cls) (Star (Cls tl_cls))) s \<longleftrightarrow>
     (\<exists>c cs. s = c # cs \<and> in_cls hd_cls c \<and> list_all (in_cls tl_cls) cs)"
  by (simp add: re_match_lang conc_cls star_cls del: re_lang.simps(3))

end
