(* ===== verification/Utf8.thy ===== *)
theory Utf8
  imports Prelude
begin

text \<open>
  The runes a Go \<open>for _, c := range s\<close> loop visits: \<open>unicode/utf8\<close>'s decoding of a byte string,
  where every byte that starts no well-formed sequence yields \<open>U+FFFD\<close> and advances by one byte.
  The one fact the program relies on is that the ASCII runes of a string are its ASCII bytes
  (\<open>ascii_rune_iff\<close>).
\<close>

definition rune_error :: nat where
  "rune_error = 0xFFFD"

definition cont_byte :: "nat \<Rightarrow> bool" where
  "cont_byte b \<longleftrightarrow> 0x80 \<le> b \<and> b \<le> 0xBF"

definition second_lo :: "nat \<Rightarrow> nat" where
  "second_lo b0 = (if b0 = 0xE0 then 0xA0 else if b0 = 0xF0 then 0x90 else 0x80)"

definition second_hi :: "nat \<Rightarrow> nat" where
  "second_hi b0 = (if b0 = 0xED then 0x9F else if b0 = 0xF4 then 0x8F else 0xBF)"

text \<open>The rune at the head, and how many bytes after the first it spans.\<close>

definition decode_rune :: "nat \<Rightarrow> nat list \<Rightarrow> nat \<times> nat" where
  "decode_rune b0 bs =
     (if b0 < 0x80 then (b0, 0)
      else if 0xC2 \<le> b0 \<and> b0 \<le> 0xDF then
        (case bs of b1 # _ \<Rightarrow>
           if cont_byte b1 then ((b0 - 0xC0) * 64 + (b1 - 0x80), 1) else (rune_error, 0)
         | _ \<Rightarrow> (rune_error, 0))
      else if 0xE0 \<le> b0 \<and> b0 \<le> 0xEF then
        (case bs of b1 # b2 # _ \<Rightarrow>
           if second_lo b0 \<le> b1 \<and> b1 \<le> second_hi b0 \<and> cont_byte b2
           then ((b0 - 0xE0) * 4096 + (b1 - 0x80) * 64 + (b2 - 0x80), 2) else (rune_error, 0)
         | _ \<Rightarrow> (rune_error, 0))
      else if 0xF0 \<le> b0 \<and> b0 \<le> 0xF4 then
        (case bs of b1 # b2 # b3 # _ \<Rightarrow>
           if second_lo b0 \<le> b1 \<and> b1 \<le> second_hi b0 \<and> cont_byte b2 \<and> cont_byte b3
           then ((b0 - 0xF0) * 262144 + (b1 - 0x80) * 4096 + (b2 - 0x80) * 64 + (b3 - 0x80), 3)
           else (rune_error, 0)
         | _ \<Rightarrow> (rune_error, 0))
      else (rune_error, 0))"

function decode_runes :: "nat list \<Rightarrow> nat list" where
  "decode_runes [] = []"
| "decode_runes (b0 # bs) =
     fst (decode_rune b0 bs) # decode_runes (drop (snd (decode_rune b0 bs)) bs)"
  by pat_completeness auto
termination
  by (relation "measure length") auto

definition runes :: "string \<Rightarrow> nat list" where
  "runes s = decode_runes (map of_char s)"

text \<open>Bytes a multi-byte sequence consumes are never ASCII, and neither is its rune.\<close>

lemma decode_rune_ascii: "b0 < 0x80 \<Longrightarrow> decode_rune b0 bs = (b0, 0)"
  by (simp add: decode_rune_def)

lemma second_lo_ge: "0x80 \<le> second_lo b0"
  by (simp add: second_lo_def)

lemma second_lo_wide:
  "0xE0 \<le> b0 \<Longrightarrow> b0 < 0xF0 \<Longrightarrow> second_lo b0 \<le> b1 \<Longrightarrow> 0x80 \<le> (b0 - 0xE0) * 4096 + (b1 - 0x80) * 64"
  "0xF0 \<le> b0 \<Longrightarrow> second_lo b0 \<le> b1 \<Longrightarrow> 0x80 \<le> (b0 - 0xF0) * 262144 + (b1 - 0x80) * 4096"
  by (cases "b0 = 0xE0"; simp add: second_lo_def) (cases "b0 = 0xF0"; simp add: second_lo_def)

lemma decode_rune_wide:
  assumes "0x80 \<le> b0"
  shows "0x80 \<le> fst (decode_rune b0 bs)"
proof -
  have two: "0x80 \<le> (b0 - 0xC0) * 64" if "0xC2 \<le> b0" using that by simp
  show ?thesis
    unfolding decode_rune_def using assms two second_lo_wide [of b0]
    by (simp add: rune_error_def trans_le_add1 split: list.split)
qed

lemma decode_rune_consumes:
  assumes "b \<in> set (take (snd (decode_rune b0 bs)) bs)"
  shows "0x80 \<le> b"
proof -
  have "cont_byte c \<Longrightarrow> 0x80 \<le> c" "second_lo b0 \<le> c \<Longrightarrow> 0x80 \<le> c" for c
    using second_lo_ge [of b0] by (auto simp: cont_byte_def)
  with assms show ?thesis
    unfolding decode_rune_def
    by (simp split: if_split_asm list.split_asm) auto
qed

lemma decode_runes_ascii: "r < 0x80 \<Longrightarrow> r \<in> set (decode_runes bs) \<longleftrightarrow> r \<in> set bs"
proof (induction bs rule: decode_runes.induct)
  case 1
  show ?case by simp
next
  case (2 b0 bs)
  let ?n = "snd (decode_rune b0 bs)"
  have "set bs = set (take ?n bs) \<union> set (drop ?n bs)"
    by (metis append_take_drop_id set_append)
  moreover have "r \<notin> set (take ?n bs)"
    using decode_rune_consumes [of r b0 bs] "2.prems" by fastforce
  ultimately have drop: "r \<in> set (decode_runes (drop ?n bs)) \<longleftrightarrow> r \<in> set bs"
    using 2 by simp
  show ?case
  proof (cases "b0 < 0x80")
    case True
    with drop show ?thesis by (simp add: decode_rune_ascii)
  next
    case False
    then have "r \<noteq> fst (decode_rune b0 bs)" "r \<noteq> b0"
      using decode_rune_wide [of b0 bs] "2.prems" by auto
    with drop show ?thesis by simp
  qed
qed

lemma ascii_rune_iff: "r < 0x80 \<Longrightarrow> r \<in> set (runes s) \<longleftrightarrow> char_of r \<in> set s"
proof -
  assume r: "r < 0x80"
  then have "r \<in> set (map of_char s) \<longleftrightarrow> char_of r \<in> set s"
    by (force simp: char_of_eq_iff image_iff)
  with r show ?thesis by (simp add: runes_def decode_runes_ascii)
qed

lemma runes_of_ascii: "\<forall>c \<in> set s. of_char c < (0x80 :: nat) \<Longrightarrow> runes s = map of_char s"
  unfolding runes_def by (induction s) (auto simp: decode_rune_ascii)

end
