(* ===== verification/Wire.thy ===== *)
theory Wire
  imports Prelude
begin

text \<open>
  Byte streams and the payload framing of \<open>internal/protocol/protocol.go\<close>: the big-endian
  length prefix, \<open>ChunkWriter\<close>, \<open>ChunkReader\<close> and the \<open>io.ReadFull\<close> and \<open>io.Copy\<close> loops that
  drive the reader. A source may return fewer bytes than asked for: its schedule says how many.
\<close>

subsection \<open>Sources and sinks\<close>

text \<open>
  An \<open>io.Reader\<close> over the bytes the peer sends. \<open>rd_sched\<close> bounds the successive reads (a bound
  \<open>k\<close> allows \<open>Suc k\<close> bytes, so a read never stalls); when it is used up, reads are as long as the
  buffer. The end of \<open>rd_rest\<close> is the peer closing the connection.
\<close>

record reader =
  rd_sched :: "nat list"
  rd_rest :: bytes

definition rd_read :: "nat \<Rightarrow> reader \<Rightarrow> (bytes \<times> error option) \<times> reader" where
  "rd_read n rd =
     (if n = 0 then (([], None), rd)
      else if rd_rest rd = [] then (([], Some EndOfFile), rd)
      else let k = (case rd_sched rd of [] \<Rightarrow> n | s # _ \<Rightarrow> min n (Suc s)) in
        ((take k (rd_rest rd), None),
         rd\<lparr>rd_sched := tl (rd_sched rd), rd_rest := drop k (rd_rest rd)\<rparr>))"

lemma rd_read_Some:
  "rd_read n rd = ((d, None), rd') \<Longrightarrow>
     rd_rest rd = d @ rd_rest rd' \<and> length d \<le> n \<and> (0 < n \<longrightarrow> d \<noteq> [])"
  by (auto simp: rd_read_def Let_def split: if_splits list.splits)

lemma rd_read_error:
  "rd_read n rd = ((d, Some e), rd') \<Longrightarrow> d = [] \<and> e = EndOfFile \<and> rd' = rd \<and> rd_rest rd = []"
  by (auto simp: rd_read_def Let_def split: if_splits list.splits)

lemma rd_read_delivers: "0 < n \<Longrightarrow> rd_rest rd \<noteq> [] \<Longrightarrow> \<exists>d rd'. rd_read n rd = ((d, None), rd')"
  by (simp add: rd_read_def Let_def)

text \<open>The loop of \<open>io.ReadAtLeast\<close>: read until \<open>n\<close> bytes have arrived or the source fails.\<close>

function read_at_least :: "nat \<Rightarrow> reader \<Rightarrow> (bytes \<times> error option) \<times> reader" where
  "read_at_least n rd =
     (if n = 0 then (([], None), rd)
      else case rd_read n rd of
        ((d, Some e), rd') \<Rightarrow> ((d, Some e), rd')
      | ((d, None), rd') \<Rightarrow>
          (case read_at_least (n - length d) rd' of ((d', e), rd'') \<Rightarrow> ((d @ d', e), rd'')))"
  by pat_completeness auto
termination
  by (relation "measure fst") (auto dest!: rd_read_Some [OF sym])

declare read_at_least.simps [simp del]

definition read_full :: "nat \<Rightarrow> reader \<Rightarrow> (bytes \<times> error option) \<times> reader" where
  "read_full n rd =
     (case read_at_least n rd of
        ((d, e), rd') \<Rightarrow>
          ((d, if e = Some EndOfFile \<and> d \<noteq> [] then Some UnexpectedEof else e), rd'))"

lemma read_at_least_rest:
  "read_at_least n rd = ((d, e), rd') \<Longrightarrow>
     rd_rest rd = d @ rd_rest rd' \<and>
     (if n \<le> length (rd_rest rd) then e = None \<and> length d = n
      else e = Some EndOfFile \<and> rd_rest rd' = [])"
proof (induction n rd arbitrary: d e rd' rule: read_at_least.induct)
  case (1 n rd)
  show ?case
  proof (cases "n = 0")
    case True
    with "1.prems" show ?thesis by (simp add: read_at_least.simps)
  next
    case False
    obtain d1 e1 rd1 where r1: "rd_read n rd = ((d1, e1), rd1)" by (metis surj_pair)
    show ?thesis
    proof (cases e1)
      case None
      with False r1 "1.prems" obtain d2 where
        r2: "read_at_least (n - length d1) rd1 = ((d2, e), rd')" and d: "d = d1 @ d2"
        by (auto simp: read_at_least.simps [of n rd] split: prod.splits)
      from r1 None have len: "rd_rest rd = d1 @ rd_rest rd1" "length d1 \<le> n"
        by (auto dest: rd_read_Some)
      note IH = "1.IH" [OF False r1 [symmetric] refl None r2, THEN conjunct1]
        "1.IH" [OF False r1 [symmetric] refl None r2, THEN conjunct2]
      have app: "rd_rest rd = d @ rd_rest rd'"
        by (simp only: len(1) IH(1) d append_assoc)
      have lenrd: "length (rd_rest rd) = length d1 + length (rd_rest rd1)"
        by (simp only: len(1) length_append)
      have "n - length d1 \<le> length (rd_rest rd1) \<longleftrightarrow> n \<le> length (rd_rest rd)"
        using lenrd by arith
      moreover have "length d2 = n - length d1 \<Longrightarrow> length d = n"
        using len(2) by (simp only: d length_append)
      ultimately show ?thesis
        using app IH(2) by (cases "n \<le> length (rd_rest rd)") (simp_all only: if_True if_False simp_thms)
    next
      case (Some e')
      with False r1 "1.prems" show ?thesis
        by (auto simp: read_at_least.simps [of n rd] dest: rd_read_error)
    qed
  qed
qed

lemma read_full_ok:
  assumes "read_full n rd = ((d, None), rd')"
  shows "rd_rest rd = d @ rd_rest rd' \<and> length d = n"
proof -
  obtain d' e r where r: "read_at_least n rd = ((d', e), r)" by (metis surj_pair)
  with assms have "e = None" "d' = d" "r = rd'" by (auto simp: read_full_def split: if_splits)
  with read_at_least_rest [OF r] show ?thesis by (auto split: if_splits)
qed

lemma read_full_enough:
  assumes "n \<le> length (rd_rest rd)"
  obtains rd' where "read_full n rd = ((take n (rd_rest rd), None), rd')"
    and "rd_rest rd' = drop n (rd_rest rd)"
proof -
  obtain d e r where r: "read_at_least n rd = ((d, e), r)" by (metis surj_pair)
  from read_at_least_rest [OF r] assms have "rd_rest rd = d @ rd_rest r" "e = None" "length d = n"
    by auto
  with r that show thesis by (auto simp: read_full_def)
qed

lemma read_full_short:
  assumes "length (rd_rest rd) < n"
  shows "\<exists>d rd'. read_full n rd =
     ((d, Some (if rd_rest rd = [] then EndOfFile else UnexpectedEof)), rd')"
proof -
  obtain d e r where r: "read_at_least n rd = ((d, e), r)" by (metis surj_pair)
  from read_at_least_rest [OF r] assms have "rd_rest rd = d" "e = Some EndOfFile" by auto
  with r show ?thesis by (auto simp: read_full_def)
qed

text \<open>An \<open>io.Writer\<close> that may fail: \<open>wr_left\<close> is the number of calls that still succeed.\<close>

record writer =
  wr_out :: bytes
  wr_left :: "nat option"

definition wr_write :: "bytes \<Rightarrow> writer \<Rightarrow> error option \<times> writer" where
  "wr_write b w =
     (case wr_left w of
        Some 0 \<Rightarrow> (Some IoError, w)
      | Some (Suc k) \<Rightarrow> (None, w\<lparr>wr_out := wr_out w @ b, wr_left := Some k\<rparr>)
      | None \<Rightarrow> (None, w\<lparr>wr_out := wr_out w @ b\<rparr>))"

subsection \<open>The 4-byte big-endian length\<close>

definition be32_put :: "32 word \<Rightarrow> bytes" where
  "be32_put n = map (\<lambda>k. char_of (unat (drop_bit k n))) [24, 16, 8, 0]"

definition byte_word :: "char \<Rightarrow> 32 word" where
  "byte_word c = of_nat (of_char c)"

fun be32_get :: "bytes \<Rightarrow> 32 word" where
  "be32_get [b0, b1, b2, b3] =
     or (byte_word b3) (or (push_bit 8 (byte_word b2))
       (or (push_bit 16 (byte_word b1)) (push_bit 24 (byte_word b0))))"
| "be32_get _ = 0"

lemma length_be32_put [simp]: "length (be32_put n) = 4"
  by (simp add: be32_put_def)

lemma byte_word_char_of: "byte_word (char_of (unat w)) = take_bit 8 w"
proof -
  have "byte_word (char_of (unat w)) = of_nat (take_bit 8 (unat w))"
    by (simp add: byte_word_def take_bit_eq_mod)
  also have "\<dots> = take_bit 8 w"
    by (simp add: of_nat_take_bit)
  finally show ?thesis .
qed

lemma be32_get_put: "be32_get (be32_put n) = n"
proof (rule bit_word_eqI)
  fix k :: nat
  assume k: "k < LENGTH(32)"
  consider "k < 8" | "8 \<le> k" "k < 16" | "16 \<le> k" "k < 24" | "24 \<le> k" by linarith
  then show "bit (be32_get (be32_put n)) k \<longleftrightarrow> bit n k"
    using k by cases (auto simp: be32_put_def byte_word_char_of bit_simps)
qed

lemma unat_byte_word: "unat (byte_word c) = of_char c"
proof -
  have "(of_char c :: nat) < 4294967296"
    using nat_of_char_less_256 [of c] by linarith
  then show ?thesis by (simp add: byte_word_def unat_of_nat take_bit_eq_mod)
qed

lemma byte_word_inject: "byte_word c = byte_word d \<longleftrightarrow> c = d"
  by (metis unat_byte_word of_char_eq_iff)

lemma take_byte_word: "take_bit 8 (byte_word c) = byte_word c"
  by (metis byte_word_char_of unat_byte_word char_of_char)

lemma bit_byte_word: "bit (byte_word c) k \<Longrightarrow> k < 8"
  by (metis take_byte_word bit_take_bit_iff)

lemma be32_put_get:
  assumes "length b = 4"
  shows "be32_put (be32_get b) = b"
proof -
  from assms obtain b0 b1 b2 b3 where b: "b = [b0, b1, b2, b3]"
    by (auto simp: length_Suc_conv eval_nat_numeral)
  have part: "char_of (unat (drop_bit k (be32_get b))) = c"
    if "(k, c) \<in> set [(24, b0), (16, b1), (8, b2), (0, b3)]" for k c
    unfolding byte_word_inject [symmetric] byte_word_char_of
    by (rule bit_word_eqI) (use that in \<open>auto simp: b bit_simps dest: bit_byte_word\<close>)
  show ?thesis
    using part [of 24 b0] part [of 16 b1] part [of 8 b2] part [of 0 b3]
    by (simp add: be32_put_def b del: be32_get.simps)
qed

end
