(* ===== verification/Chunks.thy ===== *)
theory Chunks
  imports Wire
begin

text \<open>
  \<open>ChunkWriter\<close> and \<open>ChunkReader\<close> (\<open>internal/protocol/protocol.go\<close>), and the \<open>io.Copy\<close> loop
  that drains a \<open>ChunkReader\<close> into the staged file. The lemmas show that the reader inverts the
  writer over any pattern of short reads, accepts nothing but complete frames, and never
  delivers more than its cap.
\<close>

definition max_chunk_bytes :: nat where
  "max_chunk_bytes = 1048576"

subsection \<open>ChunkWriter\<close>

text \<open>The loop of \<open>ChunkWriter.Write\<close>: the number of payload bytes framed, and the error if any.\<close>

function cw_write :: "bytes \<Rightarrow> writer \<Rightarrow> (nat \<times> error option) \<times> writer" where
  "cw_write p w =
     (if p = [] then ((0, None), w)
      else let n = min (length p) max_chunk_bytes in
        case wr_write (be32_put (of_nat n)) w of
          (Some e, w1) \<Rightarrow> ((0, Some e), w1)
        | (None, w1) \<Rightarrow>
            (case wr_write (take n p) w1 of
               (Some e, w2) \<Rightarrow> ((0, Some e), w2)
             | (None, w2) \<Rightarrow>
                 (case cw_write (drop n p) w2 of
                    ((m, e), w3) \<Rightarrow> ((n + m, e), w3))))"
  by pat_completeness auto
termination
  by (relation "measure (\<lambda>(p, w). length p)") (auto simp: max_chunk_bytes_def)

declare cw_write.simps [simp del]

definition cw_close :: "writer \<Rightarrow> error option \<times> writer" where
  "cw_close w = wr_write (be32_put 0) w"

text \<open>The bytes one payload becomes on the wire.\<close>

function frames :: "bytes \<Rightarrow> bytes" where
  "frames p =
     (if p = [] then []
      else be32_put (of_nat (min (length p) max_chunk_bytes)) @ take max_chunk_bytes p @
        frames (drop max_chunk_bytes p))"
  by pat_completeness auto
termination
  by (relation "measure length") (auto simp: max_chunk_bytes_def)

declare frames.simps [simp del]

lemma frames_Nil [simp]: "frames [] = []"
  by (simp add: frames.simps)

lemma wr_write_out:
  "wr_write b w = (None, w') \<Longrightarrow> wr_out w' = wr_out w @ b"
  "wr_write b w = (Some e, w') \<Longrightarrow> w' = w \<and> e = IoError"
  by (auto simp: wr_write_def split: option.splits nat.splits)

lemma cw_write_result:
  "cw_write p w = ((k, e), w') \<Longrightarrow>
     (case e of None \<Rightarrow> k = length p \<and> wr_out w' = wr_out w @ frames p
      | Some x \<Rightarrow> x = IoError \<and> k < length p \<and> (\<exists>z. wr_out w @ frames p = wr_out w' @ z))"
proof (induction p w arbitrary: k e w' rule: cw_write.induct)
  case (1 p w)
  show ?case
  proof (cases "p = []")
    case True
    with "1.prems" show ?thesis by (auto simp: cw_write.simps)
  next
    case False
    let ?n = "min (length p) max_chunk_bytes"
    have n: "take ?n p = take max_chunk_bytes p" "drop ?n p = drop max_chunk_bytes p" "0 < ?n"
      using False by (auto simp: min_def max_chunk_bytes_def)
    have fr: "frames p = be32_put (of_nat ?n) @ take ?n p @ frames (drop ?n p)"
      using False n by (simp add: frames.simps [of p])
    obtain e1 w1 where w1: "wr_write (be32_put (of_nat ?n)) w = (e1, w1)" by (metis surj_pair)
    obtain e2 w2 where w2: "wr_write (take ?n p) w1 = (e2, w2)" by (metis surj_pair)
    obtain m e3 w3 where w3: "cw_write (drop ?n p) w2 = ((m, e3), w3)" by (metis surj_pair)
    note eq = "1.prems" [unfolded cw_write.simps [of p w] Let_def]
    show ?thesis
    proof (cases "e1 = None \<and> e2 = None")
      case False
      then have "k = 0 \<and> e = Some IoError \<and> (w' = w \<or> wr_out w' = wr_out w @ be32_put (of_nat ?n))"
        using eq \<open>p \<noteq> []\<close> w1 w2 by (cases e1; cases e2) (auto dest!: wr_write_out)
      then show ?thesis using \<open>p \<noteq> []\<close> by (auto simp: fr)
    next
      case True
      then have w12: "wr_out w2 = wr_out w @ be32_put (of_nat ?n) @ take ?n p"
        using w1 w2 by (simp add: wr_write_out(1))
      have res: "k = ?n + m" "e = e3" "w' = w3" using eq False True w1 w2 w3 by auto
      have len: "length (drop ?n p) = length p - ?n" by simp
      show ?thesis
        using "1.IH" [OF False refl w1 [symmetric] _ w2 [symmetric] _ w3] True res w12 fr len n(3)
        by (cases e3) auto
    qed
  qed
qed

text \<open>A payload handed over in several \<open>Write\<close> calls, then \<open>Close\<close>, as the client does.\<close>

fun cw_all :: "bytes list \<Rightarrow> writer \<Rightarrow> error option \<times> writer" where
  "cw_all [] w = cw_close w"
| "cw_all (p # ps) w =
     (case cw_write p w of
        ((_, Some e), w') \<Rightarrow> (Some e, w')
      | ((_, None), w') \<Rightarrow> cw_all ps w')"

lemma cw_all_out:
  "cw_all ps w = (None, w') \<Longrightarrow> wr_out w' = wr_out w @ concat (map frames ps) @ be32_put 0"
proof (induction ps arbitrary: w)
  case Nil
  then show ?case by (simp add: cw_close_def wr_write_out)
next
  case (Cons p ps)
  obtain k e w1 where r: "cw_write p w = ((k, e), w1)" by (metis surj_pair)
  with Cons cw_write_result [OF r] show ?case by (cases e) auto
qed

subsection \<open>ChunkReader\<close>

record chunk_reader =
  cr_src :: reader
  cr_remaining :: nat
  cr_done :: bool
  cr_total :: int
  cr_max :: int

definition new_chunk_reader :: "reader \<Rightarrow> int \<Rightarrow> chunk_reader" where
  "new_chunk_reader src m =
     \<lparr>cr_src = src, cr_remaining = 0, cr_done = False, cr_total = 0, cr_max = m\<rparr>"

text \<open>The part of \<open>Read\<close> that starts a new chunk when none is open.\<close>

definition cr_header :: "chunk_reader \<Rightarrow> error option \<times> chunk_reader" where
  "cr_header cr =
     (if cr_remaining cr \<noteq> 0 then (None, cr)
      else case read_full 4 (cr_src cr) of
        ((_, Some e), src') \<Rightarrow> (Some (ReadingChunkHeader e), cr\<lparr>cr_src := src'\<rparr>)
      | ((hdr, None), src') \<Rightarrow>
          (let n = unat (be32_get hdr) in
           if n = 0 then (Some EndOfFile, cr\<lparr>cr_src := src', cr_done := True\<rparr>)
           else if max_chunk_bytes < n then (Some (ChunkExceedsLimit n), cr\<lparr>cr_src := src'\<rparr>)
           else (None, cr\<lparr>cr_src := src', cr_remaining := n\<rparr>)))"

definition cr_body :: "nat \<Rightarrow> chunk_reader \<Rightarrow> (bytes \<times> error option) \<times> chunk_reader" where
  "cr_body len cr =
     (if cr_max cr < i64 (int (cr_remaining cr) + cr_total cr) then (([], Some PayloadTooLarge), cr)
      else case rd_read (min len (cr_remaining cr)) (cr_src cr) of
        ((d, e), src') \<Rightarrow>
          (let cr' = cr\<lparr>cr_src := src', cr_remaining := cr_remaining cr - length d,
                        cr_total := i64 (cr_total cr + int (length d))\<rparr>;
               e' = (if e = Some EndOfFile \<and> 0 < cr_remaining cr' then Some UnexpectedEof else e)
           in ((d, e'), cr')))"

definition cr_read :: "nat \<Rightarrow> chunk_reader \<Rightarrow> (bytes \<times> error option) \<times> chunk_reader" where
  "cr_read len cr =
     (if cr_done cr then (([], Some EndOfFile), cr)
      else case cr_header cr of
        (Some e, cr') \<Rightarrow> (([], Some e), cr')
      | (None, cr') \<Rightarrow> cr_body len cr')"

lemma rd_read_length: "rd_read n rd = ((d, e), rd') \<Longrightarrow> length d \<le> n \<and> rd_rest rd = d @ rd_rest rd'"
  by (cases e) (auto dest: rd_read_Some rd_read_error)

text \<open>What a header step did, when it opened a chunk.\<close>

lemma cr_header_None:
  assumes "cr_header cr = (None, cr')"
  shows "0 < cr_remaining cr' \<and> cr_max cr' = cr_max cr \<and> cr_total cr' = cr_total cr \<and>
     cr_done cr' = cr_done cr \<and>
     (if cr_remaining cr \<noteq> 0 then cr' = cr
      else cr_remaining cr' \<le> max_chunk_bytes \<and>
        rd_rest (cr_src cr) = be32_put (of_nat (cr_remaining cr')) @ rd_rest (cr_src cr'))"
proof (cases "cr_remaining cr = 0")
  case False
  with assms show ?thesis by (auto simp: cr_header_def)
next
  case True
  obtain hdr e src' where r: "read_full 4 (cr_src cr) = ((hdr, e), src')" by (metis surj_pair)
  with True assms have e: "e = None"
    by (cases e) (auto simp: cr_header_def)
  let ?n = "unat (be32_get hdr)"
  from True assms r e have n: "?n \<noteq> 0" "?n \<le> max_chunk_bytes"
    and cr': "cr' = cr\<lparr>cr_src := src', cr_remaining := ?n\<rparr>"
    by (auto simp: cr_header_def Let_def split: if_splits)
  from r e have hdr: "rd_rest (cr_src cr) = hdr @ rd_rest src'" "length hdr = 4"
    by (auto dest: read_full_ok)
  then have "be32_put (be32_get hdr) = hdr" by (simp add: be32_put_get)
  with n cr' hdr True show ?thesis by simp
qed

text \<open>What a read that returns bytes did.\<close>

lemma cr_read_None:
  assumes "cr_read (Suc b) cr = ((d, None), cr')"
  obtains cr1 where "cr_header cr = (None, cr1)" "\<not> cr_done cr" "d \<noteq> []"
    "length d \<le> cr_remaining cr1" "length d \<le> Suc b"
    "rd_rest (cr_src cr1) = d @ rd_rest (cr_src cr')"
    "cr_remaining cr' = cr_remaining cr1 - length d" "cr_max cr' = cr_max cr1"
    "cr_done cr' = cr_done cr1" "cr_total cr' = i64 (cr_total cr1 + int (length d))"
    "i64 (int (cr_remaining cr1) + cr_total cr1) \<le> cr_max cr1"
proof -
  from assms obtain cr1 where h: "\<not> cr_done cr" "cr_header cr = (None, cr1)"
    and body: "cr_body (Suc b) cr1 = ((d, None), cr')"
    by (auto simp: cr_read_def split: if_splits prod.splits option.splits)
  let ?n = "min (Suc b) (cr_remaining cr1)"
  obtain d0 e0 src' where r: "rd_read ?n (cr_src cr1) = ((d0, e0), src')" by (metis surj_pair)
  from body r have e: "e0 = None" and cap: "i64 (int (cr_remaining cr1) + cr_total cr1) \<le> cr_max cr1"
    and d: "d0 = d" and cr': "cr' = cr1\<lparr>cr_src := src', cr_remaining := cr_remaining cr1 - length d,
                        cr_total := i64 (cr_total cr1 + int (length d))\<rparr>"
    by (auto simp: cr_body_def Let_def split: if_splits)
  from cr_header_None [OF h(2)] have "0 < cr_remaining cr1" by simp
  with rd_read_Some [OF r [unfolded e]] d have "d \<noteq> []" "length d \<le> ?n"
    "rd_rest (cr_src cr1) = d @ rd_rest src'" by auto
  then show thesis using that [OF h(2,1)] cap cr' by simp
qed

lemma cr_header_rest: "cr_header cr = (None, cr') \<Longrightarrow> length (rd_rest (cr_src cr')) \<le> length (rd_rest (cr_src cr))"
  by (drule cr_header_None) (auto split: if_splits)

lemma cr_read_progress:
  assumes "cr_read (Suc b) cr = ((d, None), cr')"
  shows "length (rd_rest (cr_src cr')) < length (rd_rest (cr_src cr))"
  using assms
proof (rule cr_read_None)
  fix cr1
  assume "cr_header cr = (None, cr1)" "d \<noteq> []" "rd_rest (cr_src cr1) = d @ rd_rest (cr_src cr')"
  with cr_header_rest [of cr cr1] show ?thesis by (cases d) auto
qed

text \<open>
  The \<open>io.Copy\<close> loop with a buffer of \<open>Suc b\<close> bytes: the bytes copied and the error, where the
  plain end of file is success.
\<close>

function cr_drain :: "nat \<Rightarrow> chunk_reader \<Rightarrow> (bytes \<times> error option) \<times> chunk_reader" where
  "cr_drain b cr =
     (case cr_read (Suc b) cr of
        ((d, Some e), cr') \<Rightarrow> ((d, if e = EndOfFile then None else Some e), cr')
      | ((d, None), cr') \<Rightarrow> (case cr_drain b cr' of ((d', e), cr'') \<Rightarrow> ((d @ d', e), cr'')))"
  by pat_completeness auto
termination
  by (relation "measure (\<lambda>(b, cr). length (rd_rest (cr_src cr)))")
     (auto dest!: cr_read_progress [OF sym])

declare cr_drain.simps [simp del]

subsection \<open>The framing as a relation\<close>

text \<open>
  \<open>framed r w d\<close>: with \<open>r\<close> bytes of the open chunk to come, the bytes \<open>w\<close>, terminator included,
  carry the payload \<open>d\<close>.
\<close>

inductive framed :: "nat \<Rightarrow> bytes \<Rightarrow> bytes \<Rightarrow> bool" where
  framed_end: "framed 0 (be32_put 0) []"
| framed_open: "0 < n \<Longrightarrow> n \<le> max_chunk_bytes \<Longrightarrow> framed n w d \<Longrightarrow>
     framed 0 (be32_put (of_nat n) @ w) d"
| framed_byte: "framed r w d \<Longrightarrow> framed (Suc r) (c # w) (c # d)"

inductive_cases framed_ZeroE: "framed 0 w d"
inductive_cases framed_SucE: "framed (Suc r) w d"

lemma framed_append: "framed r w d \<Longrightarrow> framed (length p + r) (p @ w) (p @ d)"
  by (induction p) (auto intro: framed_byte)

lemma framed_take:
  "framed (k + r) w d \<Longrightarrow> take k d = take k w \<and> k \<le> length w \<and> k \<le> length d \<and> framed r (drop k w) (drop k d)"
  by (induction k arbitrary: w d) (auto elim!: framed_SucE)

lemma framed_frames: "framed 0 w d \<Longrightarrow> framed 0 (frames p @ w) (p @ d)"
proof (induction p rule: frames.induct)
  case (1 p)
  show ?case
  proof (cases "p = []")
    case True
    with "1.prems" show ?thesis by simp
  next
    case False
    let ?n = "min (length p) max_chunk_bytes" and ?q = "drop max_chunk_bytes p"
    have "framed (length (take max_chunk_bytes p) + 0)
        (take max_chunk_bytes p @ frames ?q @ w) (take max_chunk_bytes p @ ?q @ d)"
      by (rule framed_append) (use 1 False in blast)
    then have "framed ?n (take max_chunk_bytes p @ frames ?q @ w) (p @ d)"
      by (simp add: min.commute flip: append_assoc)
    then show ?thesis
      using False by (subst frames.simps) (auto intro!: framed_open simp: max_chunk_bytes_def)
  qed
qed

lemma framed_writes: "framed 0 (concat (map frames ps) @ be32_put 0) (concat ps)"
  by (induction ps) (auto intro: framed_end framed_frames)

subsection \<open>The reader accepts exactly the framed streams within the cap\<close>

lemma cr_header_EOF:
  assumes "cr_header cr = (Some EndOfFile, cr')"
  shows "cr_remaining cr = 0 \<and> rd_rest (cr_src cr) = be32_put 0 @ rd_rest (cr_src cr') \<and>
     cr_total cr' = cr_total cr"
proof -
  obtain hdr e src' where r: "read_full 4 (cr_src cr) = ((hdr, e), src')" by (metis surj_pair)
  from assms r have zero: "cr_remaining cr = 0" "e = None" "be32_get hdr = 0"
    and cr': "cr' = cr\<lparr>cr_src := src', cr_done := True\<rparr>"
    by (auto simp: cr_header_def Let_def unat_eq_zero split: if_splits option.splits)
  from r zero have "rd_rest (cr_src cr) = hdr @ rd_rest src'" "length hdr = 4"
    by (auto dest: read_full_ok)
  moreover from this zero have "hdr = be32_put 0" using be32_put_get [of hdr] by simp
  ultimately show ?thesis using zero cr' by simp
qed

lemma cr_body_not_EOF: "0 < cr_remaining cr \<Longrightarrow> cr_body (Suc b) cr \<noteq> ((d, Some EndOfFile), cr')"
  by (cases "rd_read (min (Suc b) (cr_remaining cr)) (cr_src cr)")
     (auto simp: cr_body_def Let_def dest!: rd_read_error split: if_splits)

lemma cr_read_EOF:
  assumes "cr_read (Suc b) cr = ((d, Some EndOfFile), cr')" "\<not> cr_done cr"
  shows "d = [] \<and> cr_header cr = (Some EndOfFile, cr')"
proof (cases "cr_header cr")
  case (Pair e cr1)
  with assms show ?thesis
    using cr_body_not_EOF [of cr1 b d cr'] cr_header_None [of cr cr1]
    by (cases e) (auto simp: cr_read_def)
qed

lemma cr_header_framed:
  assumes "cr_header cr = (None, cr1)" "framed (cr_remaining cr1) w d"
    and "rd_rest (cr_src cr1) = w @ t"
  shows "\<exists>w'. framed (cr_remaining cr) w' d \<and> rd_rest (cr_src cr) = w' @ t"
  using cr_header_None [OF assms(1)] assms(2,3)
  by (cases "cr_remaining cr = 0") (auto intro!: exI [of _ "be32_put _ @ w"] framed_open)

lemma drain_sound:
  assumes "cr_drain b cr = ((d, None), cr')" "\<not> cr_done cr"
  shows "\<exists>w. framed (cr_remaining cr) w d \<and> rd_rest (cr_src cr) = w @ rd_rest (cr_src cr')"
  using assms
proof (induction b cr arbitrary: d rule: cr_drain.induct)
  case (1 b cr)
  obtain d0 e0 cr0 where r: "cr_read (Suc b) cr = ((d0, e0), cr0)" by (metis surj_pair)
  show ?case
  proof (cases e0)
    case (Some e)
    with r "1.prems" have eof: "cr_read (Suc b) cr = ((d, Some EndOfFile), cr')"
      by (auto simp: cr_drain.simps [of b cr] split: if_splits)
    from cr_read_EOF [OF eof "1.prems"(2)] have "d = []" and h: "cr_header cr = (Some EndOfFile, cr')"
      by simp_all
    from cr_header_EOF [OF h] \<open>d = []\<close> show ?thesis by (auto intro: framed_end)
  next
    case None
    with r "1.prems" obtain d1 where
      rec: "cr_drain b cr0 = ((d1, None), cr')" and d: "d = d0 @ d1"
      by (auto simp: cr_drain.simps [of b cr] split: prod.splits)
    from r None obtain cr1 where h: "cr_header cr = (None, cr1)" and c: "\<not> cr_done cr0"
      "length d0 \<le> cr_remaining cr1" "cr_remaining cr0 = cr_remaining cr1 - length d0"
      "rd_rest (cr_src cr1) = d0 @ rd_rest (cr_src cr0)"
      by (auto elim!: cr_read_None dest: cr_header_None split: if_splits)
    obtain w where w: "framed (cr_remaining cr0) w d1" "rd_rest (cr_src cr0) = w @ rd_rest (cr_src cr')"
      using "1.IH" [OF r [symmetric] refl None rec c(1)] by blast
    have "framed (cr_remaining cr1) (d0 @ w) d"
      using framed_append [OF w(1), of d0] c d by simp
    with cr_header_framed [OF h, of "d0 @ w" d "rd_rest (cr_src cr')"] c w show ?thesis by simp
  qed
qed

text \<open>The invariant under which the running total never wraps.\<close>

definition cr_inv :: "chunk_reader \<Rightarrow> bool" where
  "cr_inv cr \<longleftrightarrow> cr_remaining cr \<le> max_chunk_bytes \<and> 0 \<le> cr_total cr \<and>
     cr_total cr \<le> cr_max cr \<and> cr_max cr \<le> max_i64 - int max_chunk_bytes"

lemma cr_inv_new: "0 \<le> m \<Longrightarrow> m \<le> max_i64 - int max_chunk_bytes \<Longrightarrow> cr_inv (new_chunk_reader src m)"
  by (simp add: cr_inv_def new_chunk_reader_def)

lemma cr_inv_header: "cr_inv cr \<Longrightarrow> cr_header cr = (None, cr1) \<Longrightarrow> cr_inv cr1"
  by (drule cr_header_None) (auto simp: cr_inv_def split: if_splits)

lemma cr_inv_sum:
  "cr_inv cr \<Longrightarrow> n \<le> cr_remaining cr \<Longrightarrow> i64 (int n + cr_total cr) = int n + cr_total cr"
  "cr_inv cr \<Longrightarrow> n \<le> cr_remaining cr \<Longrightarrow> i64 (cr_total cr + int n) = cr_total cr + int n"
  by (rule i64_id, simp add: cr_inv_def in_i64_def min_i64_def max_i64_def max_chunk_bytes_def)+

lemma cr_inv_read:
  assumes "cr_inv cr" "cr_read (Suc b) cr = ((d, None), cr')"
  shows "cr_inv cr' \<and> cr_total cr' = cr_total cr + int (length d) \<and> cr_max cr' = cr_max cr"
  using assms(2)
proof (rule cr_read_None)
  fix cr1
  assume h: "cr_header cr = (None, cr1)" and c: "length d \<le> cr_remaining cr1"
    "cr_remaining cr' = cr_remaining cr1 - length d" "cr_max cr' = cr_max cr1"
    "cr_total cr' = i64 (cr_total cr1 + int (length d))"
    "i64 (int (cr_remaining cr1) + cr_total cr1) \<le> cr_max cr1"
  have inv: "cr_inv cr1" by (rule cr_inv_header [OF assms(1) h])
  from cr_header_None [OF h] have eq: "cr_total cr1 = cr_total cr" "cr_max cr1 = cr_max cr" by auto
  have "int (cr_remaining cr1) + cr_total cr1 \<le> cr_max cr1"
    using c(5) cr_inv_sum(1) [OF inv order_refl] by simp
  moreover have "cr_total cr' = cr_total cr1 + int (length d)"
    using c(4) cr_inv_sum(2) [OF inv c(1)] by simp
  ultimately show ?thesis using inv c eq by (auto simp: cr_inv_def)
qed

lemma drain_cap:
  assumes "cr_inv cr" "cr_drain b cr = ((d, e), cr')"
  shows "cr_total cr + int (length d) \<le> cr_max cr"
  using assms
proof (induction b cr arbitrary: d rule: cr_drain.induct)
  case (1 b cr)
  obtain d0 e0 cr0 where r: "cr_read (Suc b) cr = ((d0, e0), cr0)" by (metis surj_pair)
  show ?case
  proof (cases e0)
    case None
    with r "1.prems" obtain d1 where
      rec: "cr_drain b cr0 = ((d1, e), cr')" and d: "d = d0 @ d1"
      by (auto simp: cr_drain.simps [of b cr] split: prod.splits)
    from cr_inv_read [OF "1.prems"(1) r [unfolded None]] have
      "cr_inv cr0" "cr_total cr0 = cr_total cr + int (length d0)" "cr_max cr0 = cr_max cr" by simp_all
    with "1.IH" [OF r [symmetric] refl None _ rec] d show ?thesis by simp
  next
    case (Some e1)
    have "d0 = []"
      using r Some
      by (auto simp: cr_read_def cr_body_def Let_def dest!: rd_read_error split: if_splits prod.splits option.splits)
    with r Some "1.prems" show ?thesis by (auto simp: cr_drain.simps [of b cr] cr_inv_def)
  qed
qed

lemma cr_header_of_framed:
  assumes "framed (cr_remaining cr) w d" "rd_rest (cr_src cr) = w @ t" "cr_inv cr"
  obtains cr' where "d = []" "cr_header cr = (Some EndOfFile, cr')"
      "rd_rest (cr_src cr') = t" "cr_total cr' = cr_total cr"
  | cr1 w1 where "cr_header cr = (None, cr1)" "framed (cr_remaining cr1) w1 d"
      "rd_rest (cr_src cr1) = w1 @ t" "0 < cr_remaining cr1"
proof (cases "cr_remaining cr = 0")
  case False
  then have "cr_header cr = (None, cr)" by (simp add: cr_header_def)
  with that(2) assms False show thesis by blast
next
  case True
  have word: "n \<le> max_chunk_bytes \<Longrightarrow> unat (word_of_nat n :: 32 word) = n" for n
    by (simp add: unat_of_nat take_bit_eq_mod max_chunk_bytes_def)
  from assms(1) True have "framed 0 w d" by simp
  then show thesis
  proof (rule framed_ZeroE)
    assume w: "w = be32_put 0" "d = []"
    then have "4 \<le> length (rd_rest (cr_src cr))" using assms(2) by simp
    then obtain src' where "read_full 4 (cr_src cr) = ((be32_put 0, None), src')" "rd_rest src' = t"
      using w assms(2) by (elim read_full_enough) auto
    then show thesis
      using that(1) [of "cr\<lparr>cr_src := src', cr_done := True\<rparr>"] True w
      by (simp add: cr_header_def be32_get_put)
  next
    fix n w1
    assume w: "w = be32_put (of_nat n) @ w1" "0 < n" "n \<le> max_chunk_bytes" "framed n w1 d"
    then have "4 \<le> length (rd_rest (cr_src cr))" using assms(2) by simp
    then obtain src' where "read_full 4 (cr_src cr) = ((be32_put (of_nat n), None), src')"
        "rd_rest src' = w1 @ t"
      using w assms(2) by (elim read_full_enough) auto
    then show thesis
      using that(2) [of "cr\<lparr>cr_src := src', cr_remaining := n\<rparr>" w1] True w word
      by (simp add: cr_header_def be32_get_put)
  qed
qed

lemma framed_remaining: "framed r w d \<Longrightarrow> r \<le> length d \<and> r \<le> length w"
  using framed_take [of r 0 w d] by simp

text \<open>The outcome on a framed stream is decided by the cap alone.\<close>

lemma drain_framed:
  assumes "cr_inv cr" "\<not> cr_done cr" "framed (cr_remaining cr) w d" "rd_rest (cr_src cr) = w @ t"
  shows "if cr_total cr + int (length d) \<le> cr_max cr
     then \<exists>cr'. cr_drain b cr = ((d, None), cr') \<and> rd_rest (cr_src cr') = t \<and>
       cr_total cr' = cr_total cr + int (length d)
     else \<exists>d' cr'. cr_drain b cr = ((d', Some PayloadTooLarge), cr') \<and> prefix d' d"
  using assms
proof (induction b cr arbitrary: w d rule: cr_drain.induct)
  case (1 b cr)
  show ?case
  proof (rule cr_header_of_framed [OF "1.prems"(3,4,1)])
    fix cr'
    assume eof: "d = []" "cr_header cr = (Some EndOfFile, cr')" "rd_rest (cr_src cr') = t"
      "cr_total cr' = cr_total cr"
    then have "cr_drain b cr = (([], None), cr')"
      using "1.prems"(2) by (simp add: cr_drain.simps [of b cr] cr_read_def)
    with eof "1.prems"(1) show ?thesis by (simp add: cr_inv_def)
  next
    fix cr1 w1
    assume h: "cr_header cr = (None, cr1)" and fr: "framed (cr_remaining cr1) w1 d"
      and rest: "rd_rest (cr_src cr1) = w1 @ t" and pos: "0 < cr_remaining cr1"
    from cr_header_None [OF h] have eq: "cr_total cr1 = cr_total cr" "cr_max cr1 = cr_max cr" by auto
    have inv: "cr_inv cr1" by (rule cr_inv_header [OF "1.prems"(1) h])
    note sum = cr_inv_sum(1) [OF inv order_refl]
    show ?thesis
    proof (cases "cr_max cr < int (cr_remaining cr1) + cr_total cr")
      case True
      then have "cr_read (Suc b) cr = (([], Some PayloadTooLarge), cr1)"
        using "1.prems"(2) h sum eq by (simp add: cr_read_def cr_body_def)
      moreover have "\<not> cr_total cr + int (length d) \<le> cr_max cr"
        using True framed_remaining [OF fr] by linarith
      ultimately show ?thesis by (simp add: cr_drain.simps [of b cr])
    next
      case False
      have "rd_rest (cr_src cr1) \<noteq> []" using rest framed_remaining [OF fr] pos by auto
      then obtain d0 src' where rd: "rd_read (min (Suc b) (cr_remaining cr1)) (cr_src cr1) = ((d0, None), src')"
        using pos rd_read_delivers [of "min (Suc b) (cr_remaining cr1)" "cr_src cr1"] by auto
      from rd_read_Some [OF rd] have d0: "length d0 \<le> cr_remaining cr1" "w1 @ t = d0 @ rd_rest src'"
        using rest by auto
      define cr0 where "cr0 = cr1\<lparr>cr_src := src', cr_remaining := cr_remaining cr1 - length d0,
                        cr_total := i64 (cr_total cr1 + int (length d0))\<rparr>"
      have read: "cr_read (Suc b) cr = ((d0, None), cr0)"
        using False "1.prems"(2) h rd sum eq by (simp add: cr_read_def cr_body_def cr0_def Let_def)
      note inv0 = cr_inv_read [OF "1.prems"(1) read]
      have "take (length d0) d = d0" "framed (cr_remaining cr0) (drop (length d0) w1) (drop (length d0) d)"
        "length d0 \<le> length w1"
        using framed_take [of "length d0" "cr_remaining cr1 - length d0" w1 d] fr d0
        by (auto simp: cr0_def append_eq_append_conv_if split: if_splits)
      moreover from this have d: "d = d0 @ drop (length d0) d" by (metis append_take_drop_id)
      moreover have "rd_rest (cr_src cr0) = drop (length d0) w1 @ t"
        using d0 calculation(3) by (auto simp: cr0_def append_eq_append_conv_if split: if_splits)
      moreover have "\<not> cr_done cr0"
        using cr_header_None [OF h] "1.prems"(2) by (simp add: cr0_def)
      ultimately have IH: "if cr_total cr0 + int (length (drop (length d0) d)) \<le> cr_max cr0
        then \<exists>cr'. cr_drain b cr0 = ((drop (length d0) d, None), cr') \<and> rd_rest (cr_src cr') = t \<and>
          cr_total cr' = cr_total cr0 + int (length (drop (length d0) d))
        else \<exists>d' cr'. cr_drain b cr0 = ((d', Some PayloadTooLarge), cr') \<and> prefix d' (drop (length d0) d)"
        using "1.IH" [OF read [symmetric] refl refl] inv0 by blast
      have len: "length d = length d0 + length (drop (length d0) d)"
        by (subst d) (simp only: length_append)
      obtain d' where dd: "d = d0 @ d'" "drop (length d0) d = d'" using d by blast
      show ?thesis
        using IH inv0 read unfolding dd(2)
        by (auto simp: dd(1) cr_drain.simps [of b cr] split: if_splits)
    qed
  qed
qed

subsection \<open>Frames are read in one way only\<close>

lemma be32_put_inject: "be32_put a @ x = be32_put b @ y \<longleftrightarrow> a = b \<and> x = y"
proof
  assume eq: "be32_put a @ x = be32_put b @ y"
  then have "be32_put a = be32_put b" by (simp add: append_eq_append_conv)
  then have "a = b" by (metis be32_get_put)
  with eq show "a = b \<and> x = y" by simp
qed simp

lemma chunk_size_inject:
  assumes "m \<le> max_chunk_bytes" "n \<le> max_chunk_bytes"
  shows "(of_nat m :: 32 word) = of_nat n \<longleftrightarrow> m = n"
proof
  assume "(of_nat m :: 32 word) = of_nat n"
  then have "unat (of_nat m :: 32 word) = unat (of_nat n :: 32 word)" by simp
  with assms show "m = n" by (simp add: unat_of_nat max_chunk_bytes_def)
qed simp

lemma framed_0_cases:
  assumes "framed 0 w d"
  obtains (fin) "w = be32_put 0" "d = []"
  | (chunk) n u where "0 < n" "n \<le> max_chunk_bytes" "w = be32_put (of_nat n) @ u" "framed n u d"
  using assms by (cases rule: framed_ZeroE) auto

lemma framed_unique: "framed r w d \<Longrightarrow> framed r w' d' \<Longrightarrow> w @ t = w' @ t' \<Longrightarrow> d = d' \<and> t = t'"
proof (induction arbitrary: w' d' rule: framed.induct)
  case framed_end
  from framed_end(1) show ?case
  proof (cases rule: framed_0_cases)
    case fin
    then show ?thesis using framed_end(2) by (simp add: be32_put_inject)
  next
    case (chunk n u)
    then have "(of_nat 0 :: 32 word) = of_nat n" using framed_end(2) by (simp add: be32_put_inject)
    with chunk show ?thesis using chunk_size_inject [of 0 n] by simp
  qed
next
  case (framed_open n w d)
  from framed_open.prems(1) show ?case
  proof (cases rule: framed_0_cases)
    case fin
    then have "(of_nat n :: 32 word) = of_nat 0" using framed_open.prems(2) by (simp add: be32_put_inject)
    with framed_open.hyps show ?thesis using chunk_size_inject [of n 0] by simp
  next
    case (chunk m u)
    then have "(of_nat n :: 32 word) = of_nat m" "w @ t = u @ t'"
      using framed_open.prems(2) by (simp_all add: be32_put_inject)
    moreover from this(1) have "n = m" using chunk framed_open.hyps chunk_size_inject by metis
    ultimately show ?thesis using chunk framed_open.IH by blast
  qed
next
  case (framed_byte r w d c)
  from framed_byte.prems(1) show ?case
    by (cases rule: framed_SucE) (use framed_byte in auto)
qed

subsection \<open>Properties\<close>

text \<open>
  C10: whatever way the sender cuts the payload into \<open>Write\<close> calls and whatever the buffer and the
  short reads of the receiver, once \<open>Close\<close> has succeeded the receiver copies exactly the payload,
  \<open>Total\<close> is its length, and the bytes after the terminator are untouched.
\<close>

theorem chunk_roundtrip:
  assumes "cw_all ps w = (None, w')" and "wr_out w = []"
    and "int (length (concat ps)) \<le> m" and "m \<le> max_i64 - int max_chunk_bytes"
  shows "\<exists>cr'. cr_drain b (new_chunk_reader \<lparr>rd_sched = sched, rd_rest = wr_out w' @ t\<rparr> m) =
      ((concat ps, None), cr') \<and>
    rd_rest (cr_src cr') = t \<and> cr_total cr' = int (length (concat ps))"
proof -
  let ?cr = "new_chunk_reader \<lparr>rd_sched = sched, rd_rest = wr_out w' @ t\<rparr> m"
  have "cr_inv ?cr" using assms by (intro cr_inv_new) auto
  moreover have "framed (cr_remaining ?cr) (wr_out w') (concat ps)"
    using cw_all_out [OF assms(1)] assms(2) framed_writes by (simp add: new_chunk_reader_def)
  ultimately show ?thesis
    using drain_framed [of ?cr "wr_out w'" "concat ps" t b] assms(3)
    by (simp add: new_chunk_reader_def)
qed

theorem chunk_roundtrip_witness:
  "\<exists>cr'. cr_drain 0 (new_chunk_reader \<lparr>rd_sched = [0, 2],
      rd_rest = wr_out (snd (cw_all [''ab'', [], ''c''] \<lparr>wr_out = [], wr_left = None\<rparr>)) @ ''zz''\<rparr> 3) =
      ((''abc'', None), cr') \<and> rd_rest (cr_src cr') = ''zz'' \<and> cr_total cr' = 3"
proof -
  let ?w = "\<lparr>wr_out = [], wr_left = None\<rparr>"
  have "fst (cw_all [''ab'', [], ''c''] ?w) = None"
    by (simp add: cw_write.simps wr_write_def cw_close_def max_chunk_bytes_def)
  then have "cw_all [''ab'', [], ''c''] ?w = (None, snd (cw_all [''ab'', [], ''c''] ?w))"
    by (metis prod.collapse)
  from chunk_roundtrip [OF this, of 3 0 "[0, 2]" "''zz''"] show ?thesis
    by (simp add: max_i64_def max_chunk_bytes_def)
qed

text \<open>
  C21: a copy that reports success consumed a complete framed stream: a stream cut short before its
  zero-length terminator, or with an oversized chunk header, never passes for a shorter payload.
\<close>

theorem chunk_reader_sound:
  assumes "cr_drain b (new_chunk_reader src m) = ((d, None), cr')"
  shows "\<exists>w. framed 0 w d \<and> rd_rest src = w @ rd_rest (cr_src cr')"
  using drain_sound [OF assms] by (simp add: new_chunk_reader_def)

theorem chunk_reader_sound_witness:
  "\<exists>d cr' w. cr_drain 0 (new_chunk_reader \<lparr>rd_sched = [], rd_rest = be32_put 0 @ ''x''\<rparr> 9) =
     ((d, None), cr') \<and> framed 0 w d \<and> be32_put 0 @ ''x'' = w @ rd_rest (cr_src cr')"
proof -
  let ?src = "\<lparr>rd_sched = [], rd_rest = be32_put 0 @ ''x''\<rparr>"
  have "cr_inv (new_chunk_reader ?src 9)"
    by (rule cr_inv_new) (simp_all add: max_i64_def max_chunk_bytes_def)
  from drain_framed [OF this, of "be32_put 0" "[]" "''x''" 0] obtain cr' where
    r: "cr_drain 0 (new_chunk_reader ?src 9) = (([], None), cr')"
    by (auto simp: new_chunk_reader_def framed_end)
  with chunk_reader_sound [OF r] show ?thesis by auto
qed

text \<open>
  C22: on any byte stream whatever, hostile or not, the bytes delivered never exceed the cap, and
  the running total does not wrap (for caps up to the largest \<open>int64\<close> less one chunk).
\<close>

theorem chunk_reader_cap:
  assumes "cr_drain b (new_chunk_reader src m) = ((d, e), cr')"
    and "0 \<le> m" and "m \<le> max_i64 - int max_chunk_bytes"
  shows "int (length d) \<le> m"
  using drain_cap [OF cr_inv_new [OF assms(2,3)] assms(1)] by (simp add: new_chunk_reader_def)

theorem chunk_reader_cap_witness:
  "int (length (fst (fst (cr_drain 0 (new_chunk_reader
      \<lparr>rd_sched = [], rd_rest = be32_put 1 @ ''a'' @ be32_put 2 @ ''bc''\<rparr> 2))))) \<le> 2"
proof -
  obtain d e cr' where r: "cr_drain 0 (new_chunk_reader
      \<lparr>rd_sched = [], rd_rest = be32_put 1 @ ''a'' @ be32_put 2 @ ''bc''\<rparr> 2) = ((d, e), cr')"
    by (metis surj_pair)
  have "int (length d) \<le> 2"
    by (rule chunk_reader_cap [OF r]) (simp_all add: max_i64_def max_chunk_bytes_def)
  then show ?thesis unfolding r by simp
qed

text \<open>
  A well-framed payload larger than the cap ends in \<open>ErrPayloadTooLarge\<close>, not in success and
  not in any other error.
\<close>

theorem chunk_reader_too_large:
  assumes "framed 0 w d" and "rd_rest src = w @ t" and "m < int (length d)"
    and "0 \<le> m" and "m \<le> max_i64 - int max_chunk_bytes"
  shows "snd (fst (cr_drain b (new_chunk_reader src m))) = Some PayloadTooLarge"
  using drain_framed [OF cr_inv_new [OF assms(4,5)], of src w d t b] assms
  by (auto simp: new_chunk_reader_def)

theorem chunk_reader_too_large_witness:
  "snd (fst (cr_drain 3 (new_chunk_reader
     \<lparr>rd_sched = [], rd_rest = (be32_put (of_nat 1) @ ''a'' @ be32_put 0) @ []\<rparr> 0))) = Some PayloadTooLarge"
proof -
  have "framed 0 (be32_put (of_nat 1) @ ''a'' @ be32_put 0) ''a''"
    using framed_open [of 1 "''a'' @ be32_put 0" "''a''"] framed_byte [OF framed_end, of "CHR ''a''"]
    by (simp add: max_chunk_bytes_def)
  from chunk_reader_too_large [OF this] show ?thesis
    by (simp add: max_i64_def max_chunk_bytes_def)
qed

end
