(* ===== verification/Protocol.thy ===== *)
theory Protocol
  imports Regex Utf8 Chunks
begin

text \<open>
  \<open>internal/protocol/protocol.go\<close>: the request header and its validation, the event messages, and
  the bounded line reads. A \<open>bufio.Reader\<close> is the bytes still to come; \<open>read_slice n\<close> is
  \<open>ReadSlice('\n')\<close> with a buffer of \<open>n\<close> bytes. The JSON codec is an argument of the functions
  that call it.
\<close>

subsection \<open>Constants and messages\<close>

definition version :: int where "version = 1"
definition max_header_bytes :: nat where "max_header_bytes = 65536"
definition max_event_bytes :: nat where "max_event_bytes = 65536"
definition default_max_payload :: int where "default_max_payload = 524288000"

definition op_open :: string where "op_open = ''open''"
definition op_reveal :: string where "op_reveal = ''reveal''"
definition mode_inline :: string where "mode_inline = ''inline''"
definition mode_pull :: string where "mode_pull = ''pull''"

record origin =
  org_host :: string
  org_label :: string

record request =
  req_v :: int
  req_op :: string
  req_origin :: origin
  req_path :: string
  req_dir :: bool
  req_wait :: bool
  req_force :: bool
  req_app :: string
  req_size :: int
  req_mode :: string
  req_token :: string

record agent_config =
  ag_label :: string
  ag_port :: int
  ag_token :: string

record event =
  ev_event :: string
  ev_status :: string
  ev_error :: "error option"
  ev_detail :: string

text \<open>The well-formed request of the package's own test, for the examples below.\<close>

definition sample_request :: request where
  "sample_request = \<lparr>req_v = 1, req_op = ''open'',
     req_origin = \<lparr>org_host = ''h.example.com'', org_label = ''h''\<rparr>, req_path = ''/home/u/file.pdf'',
     req_dir = False, req_wait = False, req_force = False, req_app = [], req_size = 100,
     req_mode = ''inline'', req_token = []\<rparr>"

subsection \<open>Labels and application names\<close>

definition label_head :: "(char \<times> char) list" where
  "label_head = [(CHR ''A'', CHR ''Z''), (CHR ''a'', CHR ''z''), (CHR ''0'', CHR ''9''), (CHR ''_'', CHR ''_'')]"

definition label_tail :: "(char \<times> char) list" where
  "label_tail = [(CHR ''A'', CHR ''Z''), (CHR ''a'', CHR ''z''), (CHR ''0'', CHR ''9''),
     (CHR ''.'', CHR ''.''), (CHR ''_'', CHR ''_''), (CHR ''-'', CHR ''-'')]"

definition label_re :: re where
  "label_re = Seq (Cls label_head) (Upto (Cls label_tail) 63)"

definition app_head :: "(char \<times> char) list" where
  "app_head = [(CHR ''A'', CHR ''Z''), (CHR ''a'', CHR ''z''), (CHR ''0'', CHR ''9''),
     (CHR '' '', CHR '' ''), (CHR ''.'', CHR ''.''), (CHR ''_'', CHR ''_'')]"

definition app_tail :: "(char \<times> char) list" where
  "app_tail = app_head @ [(CHR ''-'', CHR ''-'')]"

definition app_re :: re where
  "app_re = Seq (Cls app_head) (Upto (Cls app_tail) 127)"

definition valid_label :: "string \<Rightarrow> bool" where
  "valid_label s = re_match label_re s"

definition valid_app :: "string \<Rightarrow> bool" where
  "valid_app s = re_match app_re s"

lemma valid_label_iff:
  "valid_label s \<longleftrightarrow> (\<exists>c cs. s = c # cs \<and> in_cls label_head c \<and> length cs \<le> 63 \<and> list_all (in_cls label_tail) cs)"
  by (simp add: valid_label_def label_re_def match_head_upto)

lemma valid_app_iff:
  "valid_app s \<longleftrightarrow> (\<exists>c cs. s = c # cs \<and> in_cls app_head c \<and> length cs \<le> 127 \<and> list_all (in_cls app_tail) cs)"
  by (simp add: valid_app_def app_re_def match_head_upto)

lemma label_head_tail: "in_cls label_head c \<Longrightarrow> in_cls label_tail c"
  by (auto simp: in_cls_def label_head_def label_tail_def)

lemma label_tail_chars:
  "\<not> in_cls label_tail (CHR ''/'')" "\<not> in_cls label_tail (CHR 0x00)" "\<not> in_cls label_tail (CHR 0x5C)"
  "\<not> in_cls label_tail (CHR 0x22)" "\<not> in_cls label_tail (CHR 0x0A)" "\<not> in_cls label_tail (CHR 0x27)"
  by (simp_all add: in_cls_def label_tail_def)

lemma label_head_chars: "\<not> in_cls label_head (CHR ''.'')" "\<not> in_cls label_head (CHR ''-'')"
  by (simp_all add: in_cls_def label_head_def)

lemma valid_label_chars: "valid_label s \<Longrightarrow> c \<in> set s \<Longrightarrow> in_cls label_tail c"
  by (auto simp: valid_label_iff list_all_iff label_head_tail)

lemma valid_label_hd: "valid_label s \<Longrightarrow> s \<noteq> [] \<and> in_cls label_head (hd s)"
  by (auto simp: valid_label_iff)

subsection \<open>Request validation\<close>

definition validate :: "request \<Rightarrow> int \<Rightarrow> error option" where
  "validate r max_payload =
     (if req_v r \<noteq> version then Some (UnsupportedVersion (req_v r))
      else if req_op r \<noteq> op_open \<and> req_op r \<noteq> op_reveal then Some (UnknownOp (req_op r))
      else if req_mode r \<noteq> mode_inline \<and> req_mode r \<noteq> mode_pull then Some (UnknownMode (req_mode r))
      else if \<not> valid_label (org_label (req_origin r)) then
        Some (InvalidOriginLabel (org_label (req_origin r)))
      else if (case req_path r of [] \<Rightarrow> True | c # _ \<Rightarrow> c \<noteq> CHR ''/'') then Some PathNotAbsolute
      else if 4096 < length (req_path r) then Some PathTooLong
      else if list_ex (\<lambda>c. c = 0 \<or> c = 10 \<or> c = 13) (runes (req_path r)) then Some PathControlChar
      else if req_app r \<noteq> [] \<and> \<not> valid_app (req_app r) then Some (InvalidApp (req_app r))
      else if req_size r < 0 \<or> max_payload < req_size r then
        Some (DeclaredSize (req_size r) max_payload)
      else None)"

lemma control_rune_iff:
  "list_ex (\<lambda>c. c = 0 \<or> c = 10 \<or> c = 13) (runes s) \<longleftrightarrow>
     CHR 0x00 \<in> set s \<or> CHR 0x0A \<in> set s \<or> CHR 0x0D \<in> set s"
proof -
  have "char_of (0 :: nat) = CHR 0x00" "char_of (10 :: nat) = CHR 0x0A" "char_of (13 :: nat) = CHR 0x0D"
    by (simp_all add: char_of_eq_iff take_bit_eq_mod)
  then have "0 \<in> set (runes s) \<longleftrightarrow> CHR 0x00 \<in> set s" "10 \<in> set (runes s) \<longleftrightarrow> CHR 0x0A \<in> set s"
    "13 \<in> set (runes s) \<longleftrightarrow> CHR 0x0D \<in> set s"
    using ascii_rune_iff [of 0 s] ascii_rune_iff [of 10 s] ascii_rune_iff [of 13 s] by simp_all
  then show ?thesis by (auto simp: list_ex_iff)
qed

lemma validate_None:
  "validate r m = None \<longleftrightarrow>
     req_v r = version \<and> req_op r \<in> {op_open, op_reveal} \<and> req_mode r \<in> {mode_inline, mode_pull} \<and>
     valid_label (org_label (req_origin r)) \<and>
     (\<exists>p. req_path r = CHR ''/'' # p) \<and> length (req_path r) \<le> 4096 \<and>
     set (req_path r) \<inter> {CHR 0x00, CHR 0x0A, CHR 0x0D} = {} \<and>
     (req_app r = [] \<or> valid_app (req_app r)) \<and> 0 \<le> req_size r \<and> req_size r \<le> m"
  by (cases "req_path r") (auto simp: validate_def control_rune_iff simp del: set_simps)

subsection \<open>Bounded reads of a line\<close>

definition newline :: char where
  "newline = CHR 0x0A"

definition line_index :: "bytes \<Rightarrow> nat" where
  "line_index s = length (takeWhile (\<lambda>c. c \<noteq> newline) s)"

definition read_slice :: "nat \<Rightarrow> bytes \<Rightarrow> (bytes \<times> error option) \<times> bytes" where
  "read_slice n s =
     (let i = line_index s in
      if i < length s \<and> i < n then ((take (Suc i) s, None), drop (Suc i) s)
      else if n \<le> length s then ((take n s, Some BufferFull), drop n s)
      else ((s, Some EndOfFile), []))"

definition write_request :: "(request \<Rightarrow> bytes) \<Rightarrow> request \<Rightarrow> writer \<Rightarrow> error option \<times> writer" where
  "write_request enc r w =
     (let b = enc r in
      if max_header_bytes < length b then (Some HeaderTooLarge, w)
      else wr_write (b @ [newline]) w)"

definition read_request :: "(bytes \<Rightarrow> request option) \<Rightarrow> bytes \<Rightarrow> request result \<times> bytes" where
  "read_request dec s =
     (case read_slice max_header_bytes s of
        ((_, Some e), s') \<Rightarrow> (Inl (if e = BufferFull then HeaderExceedsLimit else e), s')
      | ((line, None), s') \<Rightarrow>
          (case dec line of None \<Rightarrow> (Inl BadHeader, s') | Some r \<Rightarrow> (Inr r, s')))"

text \<open>The loop of \<open>readLine\<close>, with a reader buffer of \<open>Suc n\<close> bytes.\<close>

function read_line_from :: "nat \<Rightarrow> nat \<Rightarrow> bytes \<Rightarrow> bytes \<Rightarrow> bytes result \<times> bytes" where
  "read_line_from n m buf s =
     (case read_slice (Suc n) s of
        ((frag, e), s') \<Rightarrow>
          if m < length buf + length frag then (Inl LineExceedsLimit, s')
          else if e = Some BufferFull then read_line_from n m (buf @ frag) s'
          else (case e of Some x \<Rightarrow> (Inl x, s') | None \<Rightarrow> (Inr (buf @ frag), s')))"
  by pat_completeness auto
termination
  by (relation "measure (\<lambda>(n, m, buf, s). length s)")
     (auto simp: read_slice_def Let_def split: if_splits)

declare read_line_from.simps [simp del]

definition read_line :: "nat \<Rightarrow> nat \<Rightarrow> bytes \<Rightarrow> bytes result \<times> bytes" where
  "read_line n m s = read_line_from n m [] s"

definition write_event :: "(event \<Rightarrow> bytes) \<Rightarrow> event \<Rightarrow> writer \<Rightarrow> error option \<times> writer" where
  "write_event enc e w = wr_write (enc e @ [newline]) w"

definition read_event :: "(bytes \<Rightarrow> event option) \<Rightarrow> nat \<Rightarrow> bytes \<Rightarrow> event result \<times> bytes" where
  "read_event dec n s =
     (case read_line n max_event_bytes s of
        (Inl e, s') \<Rightarrow> (Inl e, s')
      | (Inr line, s') \<Rightarrow> (case dec line of None \<Rightarrow> (Inl BadEvent, s') | Some e \<Rightarrow> (Inr e, s')))"

text \<open>What a bounded line read returns, without a buffer.\<close>

definition line_spec :: "nat \<Rightarrow> bytes \<Rightarrow> bytes \<Rightarrow> bytes result" where
  "line_spec m buf s =
     (if m < length buf + min (Suc (line_index s)) (length s) then Inl LineExceedsLimit
      else if line_index s < length s then Inr (buf @ take (Suc (line_index s)) s)
      else Inl EndOfFile)"

lemma line_index_le: "line_index s \<le> length s"
  by (simp add: line_index_def length_takeWhile_le)

lemma line_index_append: "newline \<notin> set u \<Longrightarrow> line_index (u @ newline # t) = length u"
  by (induction u) (auto simp: line_index_def)

lemma line_index_drop: "n \<le> line_index s \<Longrightarrow> line_index (drop n s) = line_index s - n"
proof -
  assume n: "n \<le> line_index s"
  have "takeWhile (\<lambda>c. c \<noteq> newline) (drop n s) = drop n (takeWhile (\<lambda>c. c \<noteq> newline) s)"
    using n by (induction n arbitrary: s)
      (simp, case_tac s, auto simp: line_index_def split: if_splits)
  then show ?thesis by (simp add: line_index_def)
qed

lemma read_line_from_spec:
  "length buf \<le> m \<Longrightarrow> fst (read_line_from n m buf s) = line_spec m buf s"
proof (induction n m buf s rule: read_line_from.induct)
  case (1 n m buf s)
  let ?i = "line_index s"
  consider "?i < length s" "?i \<le> n" | "n < length s" "n < ?i \<or> ?i = length s" | "length s \<le> n" "?i = length s"
    using line_index_le [of s] by linarith
  then show ?case
  proof cases
    case 1
    then have "read_slice (Suc n) s = ((take (Suc ?i) s, None), drop (Suc ?i) s)"
      by (simp add: read_slice_def Let_def)
    with 1 show ?thesis by (simp add: read_line_from.simps [of n m buf s] line_spec_def)
  next
    case 2
    then have ni: "Suc n \<le> ?i" using line_index_le [of s] by linarith
    then have r: "read_slice (Suc n) s = ((take (Suc n) s, Some BufferFull), drop (Suc n) s)"
      using 2 by (simp add: read_slice_def Let_def)
    show ?thesis
    proof (cases "m < length buf + Suc n")
      case True
      with r 2 ni show ?thesis
        by (simp add: read_line_from.simps [of n m buf s] line_spec_def)
    next
      case False
      with r 2 have "fst (read_line_from n m buf s) = line_spec m (buf @ take (Suc n) s) (drop (Suc n) s)"
        using "1.IH" [OF r [symmetric] refl] by (simp add: read_line_from.simps [of n m buf s])
      also have "\<dots> = line_spec m buf s"
      proof -
        have le: "?i \<le> length s" by (rule line_index_le)
        have "take (Suc n) s @ take (Suc (?i - Suc n)) (drop (Suc n) s) = take (Suc ?i) s"
          using take_add [of "Suc n" "Suc (?i - Suc n)" s] ni by simp
        moreover have "length (buf @ take (Suc n) s) + min (Suc (?i - Suc n)) (length s - Suc n) =
            length buf + min (Suc ?i) (length s)"
          using ni le by (auto simp: min_def)
        moreover have "?i - Suc n < length s - Suc n \<longleftrightarrow> ?i < length s"
          using ni le by arith
        ultimately show ?thesis
          by (simp only: line_spec_def line_index_drop [OF ni] length_drop append_assoc)
      qed
      finally show ?thesis .
    qed
  next
    case 3
    then have "read_slice (Suc n) s = ((s, Some EndOfFile), [])"
      by (simp add: read_slice_def Let_def)
    with 3 show ?thesis by (simp add: read_line_from.simps [of n m buf s] line_spec_def)
  qed
qed

subsection \<open>Properties\<close>

text \<open>
  C17: \<open>Validate\<close> accepts a request exactly when its version, operation and mode are known, its
  label and application name have the documented shape, its path is absolute, at most 4096 bytes
  long and free of NUL, LF and CR bytes, and its declared size lies in the allowed range. The
  source's loop visits runes; the statement is about bytes.
\<close>

theorem validate_exact:
  "validate r m = None \<longleftrightarrow>
     req_v r = 1 \<and> req_op r \<in> {''open'', ''reveal''} \<and> req_mode r \<in> {''inline'', ''pull''} \<and>
     (\<exists>c cs. org_label (req_origin r) = c # cs \<and> in_cls label_head c \<and> length cs \<le> 63 \<and>
        list_all (in_cls label_tail) cs) \<and>
     (\<exists>p. req_path r = CHR ''/'' # p) \<and> length (req_path r) \<le> 4096 \<and>
     set (req_path r) \<inter> {CHR 0x00, CHR 0x0A, CHR 0x0D} = {} \<and>
     (req_app r = [] \<or> (\<exists>c cs. req_app r = c # cs \<and> in_cls app_head c \<and> length cs \<le> 127 \<and>
        list_all (in_cls app_tail) cs)) \<and>
     0 \<le> req_size r \<and> req_size r \<le> m"
  unfolding validate_None valid_label_iff valid_app_iff
  by (simp only: version_def op_open_def op_reveal_def mode_inline_def mode_pull_def)

text \<open>
  C9: \<open>readLine\<close> returns the same result whatever the size of the reader's buffer: the first line
  with its newline when it has at most \<open>m\<close> bytes, the limit error when more than \<open>m\<close> bytes come
  before the end of the line, and end of file when the stream stops early within the limit.
\<close>

theorem read_line_buffer_independent:
  "fst (read_line n m s) =
     (if m < min (Suc (line_index s)) (length s) then Inl LineExceedsLimit
      else if line_index s < length s then Inr (take (Suc (line_index s)) s)
      else Inl EndOfFile)"
  by (simp add: read_line_def read_line_from_spec line_spec_def)

text \<open>
  C37: the two header bounds disagree by one: a header of exactly \<open>MaxHeaderBytes\<close> bytes is sent by
  \<open>WriteRequest\<close>, and \<open>ReadRequest\<close> refuses it as exceeding the limit, because the newline no longer
  fits in the buffer.
\<close>

theorem header_limit_mismatch:
  assumes "length (enc r) = max_header_bytes" and "newline \<notin> set (enc r)"
  shows "write_request enc r \<lparr>wr_out = [], wr_left = None\<rparr> =
      (None, \<lparr>wr_out = enc r @ [newline], wr_left = None\<rparr>) \<and>
    fst (read_request dec (enc r @ [newline] @ t)) = Inl HeaderExceedsLimit"
proof -
  have "line_index (enc r @ newline # t) = max_header_bytes"
    using assms by (simp add: line_index_append)
  then show ?thesis
    using assms(1) by (simp add: write_request_def wr_write_def read_request_def read_slice_def)
qed

theorem header_limit_mismatch_witness:
  "write_request (\<lambda>_. replicate max_header_bytes (CHR ''x'')) sample_request \<lparr>wr_out = [], wr_left = None\<rparr> =
     (None, \<lparr>wr_out = replicate max_header_bytes (CHR ''x'') @ [newline], wr_left = None\<rparr>) \<and>
   fst (read_request (\<lambda>_. None) (replicate max_header_bytes (CHR ''x'') @ [newline] @ [])) =
     Inl HeaderExceedsLimit"
  by (rule header_limit_mismatch) (simp_all add: newline_def)

text \<open>
  C29: a header that fits is read back as sent, and the payload that follows it is left in the
  stream for the chunk reader: with a codec whose output holds no newline and which inverts
  itself on a terminated line, as \<open>encoding/json\<close> does.
\<close>

theorem request_roundtrip:
  assumes "length (enc r) < max_header_bytes" and "newline \<notin> set (enc r)"
    and "dec (enc r @ [newline]) = Some r"
  shows "\<exists>w. write_request enc r \<lparr>wr_out = [], wr_left = None\<rparr> = (None, w) \<and>
    read_request dec (wr_out w @ t) = (Inr r, t)"
proof -
  have "line_index (enc r @ newline # t) = length (enc r)"
    using assms(2) by (rule line_index_append)
  then show ?thesis
    using assms by (simp add: write_request_def wr_write_def read_request_def read_slice_def Let_def)
qed

theorem request_roundtrip_witness:
  "\<exists>w. write_request req_path sample_request \<lparr>wr_out = [], wr_left = None\<rparr> = (None, w) \<and>
    read_request (\<lambda>s. Some (sample_request\<lparr>req_path := butlast s\<rparr>)) (wr_out w @ ''t'') = (Inr sample_request, ''t'')"
  by (rule request_roundtrip) (simp_all add: sample_request_def newline_def max_header_bytes_def)

end
