(* ===== verification/Confine.thy ===== *)
theory Confine
  imports GoPath Protocol
begin

text \<open>
  Lexical confinement: \<open>SafeJoin\<close> of \<open>internal/tarstream/tarstream.go\<close> and \<open>Rel\<close>, \<open>Abs\<close> of
  \<open>internal/mirror/mirror.go\<close>. The interface \<open>confining_join\<close> is what the archive reader and the
  mirror rely on: the joined path lies under the root. Its lemmas (nested joins stay confined,
  joins under separate roots stay separate) are interpreted on \<open>safe_join\<close>.
\<close>

subsection \<open>The interface\<close>

definition good_root :: "string \<Rightarrow> bool" where
  "good_root r \<longleftrightarrow> r \<noteq> [] \<and> list_all plain (path_comps r)"

definition under :: "string \<Rightarrow> string \<Rightarrow> bool" where
  "under r p \<longleftrightarrow> good_root p \<and> prefix (path_comps r) (path_comps p)"

locale confining_join =
  fixes join :: "string \<Rightarrow> string \<Rightarrow> string result"
  assumes join_under: "good_root r \<Longrightarrow> join r n = Inr p \<Longrightarrow> under r p"
begin

lemma join_twice:
  assumes "good_root r" "join r n = Inr p" "join p m = Inr q"
  shows "under r q"
proof -
  have "under r p" by (rule join_under [OF assms(1,2)])
  moreover from this have "good_root p" by (simp add: under_def)
  then have "under p q" using assms(3) by (rule join_under)
  ultimately show ?thesis by (auto simp: under_def)
qed

lemma join_separate:
  assumes "good_root r" "good_root s" "path_comps r \<parallel> path_comps s"
    and "join r n = Inr p" "join s m = Inr q"
  shows "path_comps p \<parallel> path_comps q"
proof -
  have "under r p" "under s q" using assms by (auto intro: join_under)
  with assms(3) show ?thesis
    by (auto simp: under_def prefix_def intro: parallel_append)
qed

end

subsection \<open>SafeJoin\<close>

definition backslash :: char where
  "backslash = CHR 0x5C"

definition safe_join :: "string \<Rightarrow> string \<Rightarrow> string result" where
  "safe_join root name =
     (if name = [] then Inl EmptyName
      else if CHR 0x00 \<in> set name then Inl NulInName
      else if backslash \<in> set name then Inl BackslashInName
      else if rooted name then Inl AbsoluteName
      else let clean = path_clean name in
        if clean = ''..'' \<or> has_prefix clean ''../'' then Inl EscapesRoot
        else Inr (path_join [root, clean]))"

lemma clean_no_escape:
  assumes "\<not> rooted name" "path_clean name \<noteq> ''..''" "\<not> has_prefix (path_clean name) ''../''"
  shows "list_all plain (path_comps name)"
proof (rule dotdots_hd [OF path_comps_unrooted [OF assms(1)]])
  assume ne: "path_comps name \<noteq> []"
  then obtain c cs where cs: "path_comps name = c # cs" by (cases "path_comps name") auto
  have "c \<noteq> ''..''"
  proof
    assume "c = ''..''"
    then have "path_clean name = (if cs = [] then ''..'' else ''../'' @ join_with slash cs)"
      using cs assms(1) by (simp add: path_clean_def join_with_Cons slash_def)
    with assms(2,3) show False by (auto split: if_splits simp: has_prefix_def)
  qed
  with cs show "hd (path_comps name) \<noteq> ''..''" by simp
qed

lemma clean_form:
  "\<not> rooted s \<Longrightarrow> path_clean s = join_with slash (path_comps s) \<or> path_comps s = [] \<and> path_clean s = ''.''"
  by (auto simp: path_clean_def)

lemma safe_join_Inr:
  assumes "safe_join root name = Inr p"
  shows "\<not> rooted name \<and> list_all plain (path_comps name) \<and> p = path_join [root, path_clean name] \<and>
    CHR 0x00 \<notin> set name \<and> backslash \<notin> set name \<and> name \<noteq> []"
  using assms clean_no_escape [of name] by (auto simp: safe_join_def Let_def split: if_splits)

lemma safe_join_comps:
  "good_root root \<Longrightarrow> safe_join root name = Inr p \<Longrightarrow> path_comps p = path_comps root @ path_comps name"
  using safe_join_Inr [of root name p] clean_form [of name]
  by (auto simp: good_root_def intro!: path_comps_join2)

lemma path_join2: "r \<noteq> [] \<Longrightarrow> path_join [r, s] = path_clean (r @ slash # s)"
  by (simp add: path_join_def)

lemma path_clean_not_Nil: "path_clean t \<noteq> []"
proof -
  have "join_with slash (path_comps t) \<noteq> []" if "path_comps t \<noteq> []" "dotdots (path_comps t)"
    using that by (auto simp: join_with_Nil_iff plain_def)
  then show ?thesis using path_comps_unrooted [of t] by (auto simp: path_clean_def)
qed

lemma path_join_not_Nil: "list_ex (\<lambda>e. e \<noteq> []) es \<Longrightarrow> path_join es \<noteq> []"
  by (auto simp: path_join_def path_clean_not_Nil list_ex_iff dropWhile_eq_Nil_conv split: list.split)

lemma path_join2_not_Nil: "r \<noteq> [] \<Longrightarrow> path_join [r, s] \<noteq> []"
  by (rule path_join_not_Nil) simp

interpretation sj: confining_join safe_join
proof
  fix r n p
  assume "good_root r" "safe_join r n = Inr p"
  with safe_join_comps [OF this] safe_join_Inr [OF this(2)] show "under r p"
    by (auto simp: under_def good_root_def path_join2_not_Nil)
qed

subsection \<open>The mirror key of a request\<close>

definition rel :: "string \<Rightarrow> string \<Rightarrow> string result" where
  "rel label remote_path =
     (case safe_join label (trim_prefix remote_path ''/'') of
        Inl e \<Rightarrow> Inl e
      | Inr p \<Rightarrow> if p = label then Inl MirrorsRoot else Inr p)"

text \<open>\<open>Mirror.Abs\<close>.\<close>

definition mirror_abs :: "string \<Rightarrow> string \<Rightarrow> string" where
  "mirror_abs root k = path_join [root, k]"

definition staging_name :: string where
  "staging_name = ''.staging''"

lemma valid_label_plain: "valid_label l \<Longrightarrow> plain l"
proof -
  assume l: "valid_label l"
  have "slash \<notin> set l"
    using valid_label_chars [OF l] label_tail_chars(1) by (auto simp: slash_def)
  moreover have "l \<noteq> ''.''" "l \<noteq> ''..''" "l \<noteq> []"
    using valid_label_hd [OF l] label_head_chars(1) by auto
  ultimately show ?thesis by (simp add: plain_def)
qed

lemma valid_label_not_staging: "valid_label l \<Longrightarrow> l \<noteq> staging_name"
  using valid_label_hd [of l] label_head_chars(1) by (auto simp: staging_name_def)

lemma plain_comps: "plain l \<Longrightarrow> path_comps l = [l]"
  using path_comps_join_plain [of "[l]"] by simp

lemma plain_good_root: "plain l \<Longrightarrow> good_root l"
  by (simp add: good_root_def plain_comps) (simp add: plain_def)

lemma plain_not_rooted: "plain l \<Longrightarrow> \<not> rooted l"
  by (cases l) (auto simp: plain_def rooted_def)

lemma path_clean_plain: "list_all plain cs \<Longrightarrow> cs \<noteq> [] \<Longrightarrow> path_clean (join_with slash cs) = join_with slash cs"
  by (simp add: path_clean_def rooted_join_plain path_comps_join_plain)

lemma safe_join_label:
  assumes "plain l" "safe_join l name = Inr p"
  shows "p = join_with slash (l # path_comps name)"
proof -
  have l: "l \<noteq> []" "\<not> rooted l" using assms(1) by (auto simp: plain_not_rooted plain_def)
  have form: "p = path_clean (l @ slash # path_clean name)"
    using safe_join_Inr [OF assms(2)] l by (simp add: path_join2)
  have "path_comps (l @ slash # path_clean name) = l # path_comps name"
    using path_comps_append_clean [of l "path_comps name" "path_clean name"]
      safe_join_Inr [OF assms(2)] clean_form [of name] assms(1) l by (simp add: plain_comps)
  then show ?thesis using form l by (simp add: path_clean_def)
qed

lemma rel_Inr:
  assumes "plain l" "rel l remote = Inr k"
  obtains cs where "cs \<noteq> []" "list_all plain cs" "k = join_with slash (l # cs)"
    "cs = path_comps (trim_prefix remote ''/'')"
proof -
  from assms(2) have s: "safe_join l (trim_prefix remote ''/'') = Inr k" and "k \<noteq> l"
    by (auto simp: rel_def split: sum.splits if_splits)
  with safe_join_label [OF assms(1) s] safe_join_Inr [OF s] that show thesis
    by (auto simp: join_with_Cons split: if_splits)
qed

lemma rel_comps:
  assumes "plain l" "rel l remote = Inr k"
  obtains cs where "cs \<noteq> []" "list_all plain cs" "path_comps k = l # cs" "k = join_with slash (l # cs)"
proof (rule rel_Inr [OF assms])
  fix cs
  assume cs: "cs \<noteq> []" "list_all plain cs" and k: "k = join_with slash (l # cs)"
  have "list_all plain (l # cs)" using cs assms(1) by simp
  then have "path_comps k = l # cs" unfolding k by (rule path_comps_join_plain)
  with that cs k show thesis by blast
qed

lemma mirror_abs_comps:
  assumes "good_root root" "list_all plain cs" "cs \<noteq> []"
  shows "path_comps (mirror_abs root (join_with slash cs)) = path_comps root @ cs"
  unfolding mirror_abs_def using assms by (intro path_comps_join2) (auto simp: good_root_def)

lemma rel_abs_comps:
  assumes "good_root root" "plain l" "rel l remote = Inr k"
  obtains cs where "cs \<noteq> []" "list_all plain cs" "path_comps (mirror_abs root k) = path_comps root @ l # cs"
  using rel_comps [OF assms(2,3)]
proof cases
  case (1 cs)
  have "list_all plain (l # cs)" using 1 assms(2) by simp
  with that 1 show thesis
    using mirror_abs_comps [OF assms(1), of "l # cs"] by (metis list.discI)
qed

lemma safe_join_accepts:
  "(\<exists>p. safe_join root name = Inr p) \<longleftrightarrow>
      name \<noteq> [] \<and> CHR 0x00 \<notin> set name \<and> backslash \<notin> set name \<and> \<not> rooted name \<and>
      list_all plain (path_comps name)" (is "?L \<longleftrightarrow> ?R")
proof
  assume ?R
  have "path_clean name \<noteq> ''..'' \<and> \<not> has_prefix (path_clean name) ''../''"
  proof (cases "path_comps name")
    case Nil
    with \<open>?R\<close> show ?thesis by (simp add: path_clean_def has_prefix_def)
  next
    case (Cons c cs)
    with \<open>?R\<close> have "plain c" "path_clean name = join_with slash (c # cs)"
      by (auto simp: path_clean_def)
    then show ?thesis
      by (auto simp: plain_def join_with_Cons slash_def has_prefix_def prefix_def
          Cons_eq_append_conv append_eq_Cons_conv split: if_splits)
  qed
  with \<open>?R\<close> show ?L by (simp add: safe_join_def Let_def)
qed (auto dest: safe_join_Inr)

lemma slots_apart:
  assumes "good_root root" "valid_label l" "rel l p = Inr k"
  obtains cs where "cs \<noteq> []" "path_comps (mirror_abs root k) = path_comps root @ l # cs"
    "path_comps (mirror_abs root k) \<parallel> path_comps root @ [staging_name]"
proof -
  obtain cs where cs: "cs \<noteq> []" "path_comps (mirror_abs root k) = path_comps root @ l # cs"
    using rel_abs_comps [OF assms(1) valid_label_plain [OF assms(2)] assms(3)] by blast
  moreover have "path_comps (mirror_abs root k) \<parallel> path_comps root @ [staging_name]"
    using cs valid_label_not_staging [OF assms(2)] by (auto simp: parallel_def)
  ultimately show thesis by (rule that)
qed

lemma path_dir_join2:
  assumes "good_root r" "list_all plain cs" "cs \<noteq> []"
  shows "path_comps (path_dir (path_join [r, join_with slash cs])) = path_comps r @ butlast cs"
proof -
  have r: "r \<noteq> []" "list_all plain (path_comps r)" using assms(1) by (auto simp: good_root_def)
  have "path_comps (r @ slash # join_with slash cs) = path_comps r @ cs"
    using r assms by (intro path_comps_append_clean) auto
  then show ?thesis
    using path_dir_clean [of "r @ slash # join_with slash cs"] r assms
    by (simp add: path_join2 butlast_append)
qed

lemma join1_comps: "good_root r \<Longrightarrow> plain n \<Longrightarrow> path_comps (path_join [r, n]) = path_comps r @ [n]"
  using mirror_abs_comps [of r "[n]"] by (simp add: mirror_abs_def)

lemma join1_good: "good_root r \<Longrightarrow> plain n \<Longrightarrow> good_root (path_join [r, n])"
  using join1_comps [of r n] path_join2_not_Nil [of r n] by (simp add: good_root_def)

lemma safe_join_dir:
  assumes "good_root root" "safe_join root name = Inr p"
  shows "prefix (path_comps (path_dir p)) (path_comps p)"
proof -
  have r: "root \<noteq> []" "list_all plain (path_comps root)" using assms(1) by (auto simp: good_root_def)
  note n = safe_join_Inr [OF assms(2)]
  let ?s = "root @ slash # path_clean name"
  have p: "p = path_clean ?s" using n r(1) by (simp add: path_join2)
  have c: "path_comps ?s = path_comps root @ path_comps name"
    using path_comps_append_clean [of root "path_comps name" "path_clean name"] n clean_form [of name] r(1) by simp
  have pc: "path_comps p = path_comps ?s" unfolding p by (rule path_comps_clean) (use c n r in simp)
  show ?thesis
  proof (cases "path_comps ?s = []")
    case True
    then have "p = [slash] \<or> p = ''.''" using p by (auto simp: path_clean_def)
    then show ?thesis by (auto simp: path_dir_def path_clean_def path_comps_def slash_def)
  next
    case False
    then show ?thesis using path_dir_clean [of ?s] p pc c n r by (simp add: prefixeq_butlast)
  qed
qed

subsection \<open>Properties\<close>

text \<open>
  C12: \<open>SafeJoin\<close> accepts exactly the names that are non-empty, hold no NUL and no backslash, are
  relative, and whose components after cleaning all name something (no \<open>..\<close> is left); the result
  then consists of the components of the root followed by those of the name, none of them \<open>..\<close>.
\<close>

theorem safe_join_exact:
  assumes "good_root root"
  shows "((\<exists>p. safe_join root name = Inr p) \<longleftrightarrow>
      name \<noteq> [] \<and> CHR 0x00 \<notin> set name \<and> backslash \<notin> set name \<and> \<not> rooted name \<and>
      list_all plain (path_comps name)) \<and>
    (\<forall>p. safe_join root name = Inr p \<longrightarrow>
      path_comps p = path_comps root @ path_comps name \<and> list_all plain (path_comps p))"
  using safe_join_accepts safe_join_comps [OF assms] sj.join_under [OF assms]
  by (auto simp: under_def good_root_def)

theorem safe_join_exact_witness:
  "(\<exists>p. safe_join ''/root'' ''a/c/../b'' = Inr p)"
proof -
  have "good_root ''/root''"
    by (simp add: good_root_def path_comps_def slash_def plain_def)
  from safe_join_exact [OF this] show ?thesis
    by (simp add: path_comps_def slash_def plain_def backslash_def)
qed

text \<open>
  C13: the mirror slot of a request lies below the directory of its own label, never in the staging
  area, and the slots of two labels are never the same path nor one inside the other, whatever
  paths the two hosts ask for.
\<close>

theorem mirror_slots_isolated:
  assumes "good_root root" and "valid_label l" and "rel l p = Inr k"
    and "valid_label l'" and "rel l' p' = Inr k'" and "l \<noteq> l'"
  shows "strict_prefix (path_comps root @ [l]) (path_comps (mirror_abs root k)) \<and>
    path_comps (mirror_abs root k) \<parallel> path_comps root @ [staging_name] \<and>
    path_comps (mirror_abs root k) \<parallel> path_comps (mirror_abs root k')"
proof -
  obtain cs where cs: "cs \<noteq> []" "path_comps (mirror_abs root k) = path_comps root @ l # cs"
    and st: "path_comps (mirror_abs root k) \<parallel> path_comps root @ [staging_name]"
    by (rule slots_apart [OF assms(1-3)])
  obtain cs' where cs': "path_comps (mirror_abs root k') = path_comps root @ l' # cs'"
    by (rule slots_apart [OF assms(1,4,5)])
  have "strict_prefix (path_comps root @ [l]) (path_comps (mirror_abs root k))"
    using cs by (simp add: strict_prefix_def)
  moreover have "path_comps (mirror_abs root k) \<parallel> path_comps (mirror_abs root k')"
    using cs cs' assms(6) by (auto simp: parallel_def)
  ultimately show ?thesis using st by simp
qed

theorem mirror_slots_isolated_witness:
  "path_comps (mirror_abs ''/m'' ''a/x'') \<parallel> path_comps (mirror_abs ''/m'' ''b/x'')"
proof -
  have g: "good_root ''/m''" by (simp add: good_root_def path_comps_def slash_def plain_def)
  have v: "valid_label ''a''" "valid_label ''b''"
    by (simp_all add: valid_label_iff in_cls_def label_head_def)
  have r: "rel ''a'' ''/q/../x'' = Inr ''a/x''" "rel ''b'' ''/x'' = Inr ''b/x''" by code_simp+
  show ?thesis using mirror_slots_isolated [OF g v(1) r(1) v(2) r(2)] by simp
qed

text \<open>
  A clean absolute path keeps its slot \<open><label>/<path>\<close>: the same file is always mirrored to the
  same place, and two clean paths never share one.
\<close>

theorem rel_stable:
  assumes "valid_label l" and "list_all plain cs" and "cs \<noteq> []"
    and "\<forall>c \<in> set cs. CHR 0x00 \<notin> set c \<and> backslash \<notin> set c"
  shows "rel l (slash # join_with slash cs) = Inr (l @ slash # join_with slash cs)"
proof -
  have chars: "d \<noteq> slash \<Longrightarrow> \<forall>c \<in> set cs. d \<notin> set c \<Longrightarrow> d \<notin> set (join_with slash cs)" for d
    using assms(3) by (induction cs) (auto simp: join_with_Cons)
  let ?n = "join_with slash cs"
  have "CHR 0x00 \<notin> set ?n" "backslash \<notin> set ?n"
    using assms(4) chars [of "CHR 0x00"] chars [of backslash] by (simp_all add: slash_def backslash_def)
  then have n: "path_comps ?n = cs" "\<not> rooted ?n" "?n \<noteq> []" "CHR 0x00 \<notin> set ?n" "backslash \<notin> set ?n"
    using assms(2,3) by (simp_all add: path_comps_join_plain rooted_join_plain join_plain_not_Nil)
  note pl = valid_label_plain [OF assms(1)]
  obtain p where p: "safe_join l ?n = Inr p"
    using safe_join_accepts [of l ?n] n assms(2) by auto
  have "p = l @ slash # ?n"
    using safe_join_label [OF pl p] n assms(3) by (simp add: join_with_Cons)
  then show ?thesis
    using p by (simp add: rel_def trim_prefix_def prefix_def slash_def)
qed

theorem rel_stable_witness: "rel ''h'' ''/tmp/a.txt'' = Inr ''h/tmp/a.txt''"
  using rel_stable [of "''h''" "[''tmp'', ''a.txt'']"]
  by (simp add: valid_label_iff in_cls_def label_head_def plain_def slash_def backslash_def)

end
