(* ===== verification/FileSys.thy ===== *)
theory FileSys
  imports GoPath
begin

text \<open>
  The operating system as the program sees it through Go's \<open>os\<close> package: a tree of files and
  directories, a clock, and an environment that decides when a call fails. The tree is an
  association list from component lists to nodes; a failing call may stop half way (a partial
  \<open>RemoveAll\<close>, a short write). Owners and permission bits other than the owner's execute bit are not
  represented; symbolic links and other special files are opaque nodes.
\<close>

type_synonym path = "string list"

datatype node =
    File (fdata: bytes) (fmtime: gotime) (fexec: bool)
  | Dir (dmtime: gotime)
  | Special (smtime: gotime) (ssize: int)

type_synonym fs = "(path \<times> node) list"

text \<open>
  \<open>os_sched\<close> is the environment's schedule: before each call the clock advances by the second
  component, and the call fails after that many internal steps when the first is \<open>Some\<close>. After
  the schedule is used up nothing fails and the clock stands still.
\<close>

record os =
  os_fs :: fs
  os_now :: gotime
  os_sched :: "(nat option \<times> nat) list"

definition env_step :: "os \<Rightarrow> nat option \<times> os" where
  "env_step w =
     (case os_sched w of
        [] \<Rightarrow> (None, w)
      | (f, d) # s \<Rightarrow> (f, w\<lparr>os_now := time_add (os_now w) (int d), os_sched := s\<rparr>))"

definition bind_os :: "'a result \<times> os \<Rightarrow> ('a \<Rightarrow> os \<Rightarrow> 'b result \<times> os) \<Rightarrow> 'b result \<times> os" where
  "bind_os m f = (case m of (Inl e, w) \<Rightarrow> (Inl e, w) | (Inr x, w) \<Rightarrow> f x w)"

lemma bind_os_simps [simp]:
  "bind_os (Inl e, w) f = (Inl e, w)" "bind_os (Inr x, w) f = f x w"
  by (simp_all add: bind_os_def)

definition time_now :: "os \<Rightarrow> gotime \<times> os" where
  "time_now w = (case env_step w of (_, w') \<Rightarrow> (os_now w', w'))"

subsection \<open>The tree\<close>

definition get :: "fs \<Rightarrow> path \<Rightarrow> node option" where
  "get fs p = map_of fs p"

definition put :: "path \<Rightarrow> node \<Rightarrow> fs \<Rightarrow> fs" where
  "put p n fs = AList.update p n fs"

definition is_dir :: "node option \<Rightarrow> bool" where
  "is_dir n = (case n of Some (Dir _) \<Rightarrow> True | _ \<Rightarrow> False)"

definition mtime :: "node \<Rightarrow> gotime" where
  "mtime n = (case n of File _ t _ \<Rightarrow> t | Dir t \<Rightarrow> t | Special t _ \<Rightarrow> t)"

definition size_of :: "node \<Rightarrow> int" where
  "size_of n = (case n of File d _ _ \<Rightarrow> int (length d) | Dir _ \<Rightarrow> 0 | Special _ k \<Rightarrow> k)"

text \<open>Adding or removing an entry updates the modification time of its directory.\<close>

definition touch :: "path \<Rightarrow> gotime \<Rightarrow> fs \<Rightarrow> fs" where
  "touch p t fs = (if p \<noteq> [] \<and> is_dir (get fs (butlast p)) then put (butlast p) (Dir t) fs else fs)"

definition subtree :: "path \<Rightarrow> fs \<Rightarrow> fs" where
  "subtree p fs = filter (\<lambda>(q, _). prefix p q) fs"

definition prune :: "path \<Rightarrow> fs \<Rightarrow> fs" where
  "prune p fs = filter (\<lambda>(q, _). \<not> prefix p q) fs"

definition children :: "path \<Rightarrow> fs \<Rightarrow> string list" where
  "children p fs = map (\<lambda>(q, _). last q) (filter (\<lambda>(q, _). q \<noteq> [] \<and> butlast q = p) fs)"

definition move :: "path \<Rightarrow> path \<Rightarrow> fs \<Rightarrow> fs" where
  "move p q fs = map (\<lambda>(r, n). (if prefix p r then q @ drop (length p) r else r, n)) (prune q fs)"

subsection \<open>Calls\<close>

definition os_stat :: "string \<Rightarrow> os \<Rightarrow> node result \<times> os" where
  "os_stat s w =
     (case env_step w of
        (Some _, w') \<Rightarrow> (Inl IoError, w')
      | (None, w') \<Rightarrow> (case get (os_fs w') (path_comps s) of
            None \<Rightarrow> (Inl NotExist, w') | Some n \<Rightarrow> (Inr n, w')))"

fun mk_dirs :: "gotime \<Rightarrow> path list \<Rightarrow> fs \<Rightarrow> error option \<times> fs" where
  "mk_dirs t [] fs = (None, fs)"
| "mk_dirs t (p # ps) fs =
     (case get fs p of
        None \<Rightarrow> mk_dirs t ps (touch p t (put p (Dir t) fs))
      | Some (Dir _) \<Rightarrow> mk_dirs t ps fs
      | Some _ \<Rightarrow> (Some NotDir, fs))"

definition os_mkdir_all :: "string \<Rightarrow> os \<Rightarrow> unit result \<times> os" where
  "os_mkdir_all s w =
     (let p = path_comps s; ps = map (\<lambda>i. take (Suc i) p) [0..<length p] in
      case env_step w of
        (f, w') \<Rightarrow>
          (case mk_dirs (os_now w') (case f of None \<Rightarrow> ps | Some k \<Rightarrow> take k ps) (os_fs w') of
             (e, fs') \<Rightarrow>
               ((case e of Some x \<Rightarrow> Inl x | None \<Rightarrow> if f = None then Inr () else Inl IoError),
                w'\<lparr>os_fs := fs'\<rparr>)))"

definition os_create_excl :: "string \<Rightarrow> bool \<Rightarrow> os \<Rightarrow> unit result \<times> os" where
  "os_create_excl s ex w =
     (let p = path_comps s in
      case env_step w of
        (Some _, w') \<Rightarrow> (Inl IoError, w')
      | (None, w') \<Rightarrow>
          if get (os_fs w') p \<noteq> None then (Inl AlreadyExists, w')
          else if \<not> is_dir (get (os_fs w') (butlast p)) then (Inl NotExist, w')
          else (Inr (), w'\<lparr>os_fs := touch p (os_now w') (put p (File [] (os_now w') ex) (os_fs w'))\<rparr>))"

text \<open>A write to the open file \<open>s\<close>: the bytes written, fewer on failure.\<close>

definition os_append :: "string \<Rightarrow> bytes \<Rightarrow> os \<Rightarrow> (nat \<times> error option) \<times> os" where
  "os_append s d w =
     (let p = path_comps s in
      case env_step w of
        (f, w') \<Rightarrow>
          (let d' = (case f of None \<Rightarrow> d | Some k \<Rightarrow> take k d) in
           case get (os_fs w') p of
             Some (File d0 _ ex) \<Rightarrow>
               ((length d', if f = None then None else Some IoError),
                w'\<lparr>os_fs := put p (File (d0 @ d') (os_now w') ex) (os_fs w')\<rparr>)
           | _ \<Rightarrow> ((0, Some IoError), w')))"

definition os_close :: "os \<Rightarrow> unit result \<times> os" where
  "os_close w = (case env_step w of (f, w') \<Rightarrow> (if f = None then Inr () else Inl IoError, w'))"

definition os_rename :: "string \<Rightarrow> string \<Rightarrow> os \<Rightarrow> unit result \<times> os" where
  "os_rename old new w =
     (let p = path_comps old; q = path_comps new in
      case env_step w of
        (Some _, w') \<Rightarrow> (Inl IoError, w')
      | (None, w') \<Rightarrow>
          (let fs = os_fs w' in
           case get fs p of
             None \<Rightarrow> (Inl NotExist, w')
           | Some n \<Rightarrow>
               if p = q then (Inr (), w')
               else if is_dir (get fs q) then (Inl AlreadyExists, w')
               else if prefix p q \<or> prefix q p \<or> \<not> is_dir (get fs (butlast q)) then (Inl IoError, w')
               else if get fs q \<noteq> None \<and> \<not> is_dir (get fs q) \<and> is_dir (Some n) then (Inl NotDir, w')
               else (Inr (), w'\<lparr>os_fs := touch p (os_now w') (touch q (os_now w') (move p q fs))\<rparr>)))"

text \<open>
  A \<open>RemoveAll\<close> that fails has removed some of the nodes, a directory only after everything in it:
  the bits of the schedule's number choose among them.
\<close>

definition partly_removed :: "nat \<Rightarrow> fs \<Rightarrow> path list" where
  "partly_removed k fs =
     (let ps = map fst fs;
          hit = (\<lambda>q. list_ex (\<lambda>(i, r). r = q \<and> bit k i) (enumerate 0 ps))
      in filter (\<lambda>q. list_all (\<lambda>r. prefix q r \<longrightarrow> hit r) ps) ps)"

definition os_remove_all :: "string \<Rightarrow> os \<Rightarrow> unit result \<times> os" where
  "os_remove_all s w =
     (let p = path_comps s in
      case env_step w of
        (None, w') \<Rightarrow>
          (Inr (), if get (os_fs w') p = None then w'
                   else w'\<lparr>os_fs := touch p (os_now w') (prune p (os_fs w'))\<rparr>)
      | (Some k, w') \<Rightarrow>
          (let out = partly_removed k (subtree p (os_fs w')) in
           (Inl IoError,
            w'\<lparr>os_fs := fold (\<lambda>q. touch q (os_now w')) out (filter (\<lambda>(q, _). q \<notin> set out) (os_fs w'))\<rparr>)))"

text \<open>\<open>os.Remove\<close>: a file, or a directory with nothing in it.\<close>

definition os_remove :: "string \<Rightarrow> os \<Rightarrow> unit result \<times> os" where
  "os_remove s w =
     (let p = path_comps s in
      case env_step w of
        (Some _, w') \<Rightarrow> (Inl IoError, w')
      | (None, w') \<Rightarrow>
          if get (os_fs w') p = None then (Inl NotExist, w')
          else if children p (os_fs w') \<noteq> [] then (Inl IoError, w')
          else (Inr (), w'\<lparr>os_fs := touch p (os_now w') (filter (\<lambda>(q, _). q \<noteq> p) (os_fs w'))\<rparr>))"

definition os_read_dir :: "string \<Rightarrow> os \<Rightarrow> string list result \<times> os" where
  "os_read_dir s w =
     (case env_step w of
        (Some _, w') \<Rightarrow> (Inl IoError, w')
      | (None, w') \<Rightarrow>
          if is_dir (get (os_fs w') (path_comps s)) then (Inr (children (path_comps s) (os_fs w')), w')
          else (Inl NotExist, w'))"

text \<open>
  \<open>os.MkdirTemp\<close>: a new directory under \<open>base\<close>. Go draws the suffix at random until it is unused;
  here it is the least unused number, and the call fails if there is none in range.
\<close>

definition fresh_name :: "fs \<Rightarrow> path \<Rightarrow> string \<Rightarrow> string option" where
  "fresh_name fs base pre =
     (case find (\<lambda>n. get fs (base @ [pre @ decimal n]) = None) [0..<Suc (length fs)] of
        None \<Rightarrow> None | Some n \<Rightarrow> Some (pre @ decimal n))"

definition os_mkdir_temp :: "string \<Rightarrow> string \<Rightarrow> os \<Rightarrow> string result \<times> os" where
  "os_mkdir_temp base pre w =
     (let b = path_comps base in
      case env_step w of
        (Some _, w') \<Rightarrow> (Inl IoError, w')
      | (None, w') \<Rightarrow>
          if \<not> is_dir (get (os_fs w') b) then (Inl NotExist, w')
          else case fresh_name (os_fs w') b pre of
            None \<Rightarrow> (Inl IoError, w')
          | Some nm \<Rightarrow>
              (Inr (path_join [base, nm]),
               w'\<lparr>os_fs := touch (b @ [nm]) (os_now w') (put (b @ [nm]) (Dir (os_now w')) (os_fs w'))\<rparr>))"

text \<open>\<open>os.WriteFile\<close>: create or truncate, then write; on failure a part may be there.\<close>

definition os_write_file :: "string \<Rightarrow> bytes \<Rightarrow> os \<Rightarrow> unit result \<times> os" where
  "os_write_file s d w =
     (let p = path_comps s in
      case env_step w of
        (f, w') \<Rightarrow>
          if p = [] \<or> \<not> is_dir (get (os_fs w') (butlast p)) \<or> is_dir (get (os_fs w') p) \<or> f = Some 0
          then (Inl IoError, w')
          else
            let d' = (case f of None \<Rightarrow> d | Some k \<Rightarrow> take (k - 1) d) in
            (if f = None then Inr () else Inl IoError,
             w'\<lparr>os_fs := put p (File d' (os_now w') False) (os_fs w')\<rparr>))"

definition os_read_file :: "string \<Rightarrow> os \<Rightarrow> bytes result \<times> os" where
  "os_read_file s w =
     (case env_step w of
        (Some _, w') \<Rightarrow> (Inl IoError, w')
      | (None, w') \<Rightarrow>
          (case get (os_fs w') (path_comps s) of
             Some (File d _ _) \<Rightarrow> (Inr d, w')
           | None \<Rightarrow> (Inl NotExist, w')
           | _ \<Rightarrow> (Inl IoError, w')))"

lemmas os_call_defs = os_stat_def os_mkdir_all_def os_create_excl_def os_append_def os_close_def
  os_rename_def os_remove_all_def os_remove_def os_read_dir_def os_mkdir_temp_def
  os_write_file_def os_read_file_def

subsection \<open>Lookups\<close>

lemma get_put [fs_simps]: "get (put p n fs) q = (if q = p then Some n else get fs q)"
  by (simp add: get_def put_def update_conv)

lemma get_prune [fs_simps]: "get (prune p fs) q = (if prefix p q then None else get fs q)"
  by (induction fs) (auto simp: get_def prune_def)

lemma get_subtree [fs_simps]: "get (subtree p fs) q = (if prefix p q then get fs q else None)"
  by (induction fs) (auto simp: get_def subtree_def)

lemma get_touch [fs_simps]:
  "get (touch p t fs) q =
     (if p \<noteq> [] \<and> q = butlast p \<and> is_dir (get fs q) then Some (Dir t) else get fs q)"
  by (auto simp: touch_def get_put)

lemma get_filter_keys [fs_simps]:
  "get (filter (\<lambda>(q, _). P q) fs) q = (if P q then get fs q else None)"
  by (induction fs) (auto simp: get_def)

lemma get_move:
  assumes "\<not> prefix p q" "\<not> prefix q p"
  shows "get (move p q fs) r =
    (if prefix q r then get fs (p @ drop (length q) r) else if prefix p r then None else get fs r)"
proof (induction fs)
  case Nil
  then show ?case by (simp add: get_def move_def prune_def)
next
  case (Cons a fs)
  obtain k n where a: "a = (k, n)" by (cases a)
  show ?case
  proof (cases "prefix p k")
    case True
    then obtain s where k: "k = p @ s" by (auto simp: prefix_def)
    then have "\<not> prefix q k" using assms by (metis prefix_same_cases prefixI)
    with Cons k assms a True show ?thesis
      by (auto simp: get_def move_def prune_def prefix_def)
  next
    case False
    have "\<not> prefix p (q @ s)" for s using assms by (metis prefix_same_cases prefixI)
    with Cons a False assms show ?thesis
      by (auto simp: get_def move_def prune_def) (auto simp: prefix_def)
  qed
qed

lemma partly_removed_sub: "q \<in> set (partly_removed k (subtree p fs)) \<Longrightarrow> prefix p q"
  by (auto simp: partly_removed_def Let_def subtree_def)

lemma is_dir_simps [simp]:
  "is_dir (Some (Dir t))" "\<not> is_dir None" "\<not> is_dir (Some (File d t x))" "\<not> is_dir (Some (Special t k))"
  by (simp_all add: is_dir_def)

lemma is_dirE: "is_dir n \<Longrightarrow> (\<And>t. n = Some (Dir t) \<Longrightarrow> P) \<Longrightarrow> P"
  by (auto simp: is_dir_def split: option.splits node.splits)

subsection \<open>What a call leaves alone\<close>

text \<open>
  A call may change the modification time of directories anywhere; otherwise it only touches paths
  of its region. \<open>anchored\<close>: every directory above the region exists, so that \<open>MkdirAll\<close> inside
  the region creates nothing outside it.
\<close>

definition same_node :: "node option \<Rightarrow> node option \<Rightarrow> bool" where
  "same_node n n' = (if is_dir n then is_dir n' else n' = n)"

definition frame :: "(path \<Rightarrow> bool) \<Rightarrow> os \<Rightarrow> os \<Rightarrow> bool" where
  "frame R w w' \<longleftrightarrow> (\<forall>p. \<not> R p \<longrightarrow> same_node (get (os_fs w) p) (get (os_fs w') p))"

definition anchored :: "(path \<Rightarrow> bool) \<Rightarrow> os \<Rightarrow> bool" where
  "anchored R w \<longleftrightarrow> (\<forall>p q. R p \<longrightarrow> prefix q p \<longrightarrow> \<not> R q \<longrightarrow> is_dir (get (os_fs w) q))"

lemma same_node_refl [simp]: "same_node n n"
  by (simp add: same_node_def)

lemma same_node_trans: "same_node a b \<Longrightarrow> same_node b c \<Longrightarrow> same_node a c"
  by (auto simp: same_node_def split: if_splits)

lemma frame_refl [simp]: "frame R w w"
  by (simp add: frame_def)

lemma frame_trans: "frame R w w' \<Longrightarrow> frame R w' w'' \<Longrightarrow> frame R w w''"
  unfolding frame_def by (blast intro: same_node_trans)

lemma frame_anchored: "frame R w w' \<Longrightarrow> anchored R w \<Longrightarrow> anchored R w'"
  unfolding frame_def anchored_def same_node_def by metis

lemma frame_mono: "frame R w w' \<Longrightarrow> (\<And>p. R p \<Longrightarrow> S p) \<Longrightarrow> frame S w w'"
  unfolding frame_def by blast

lemma env_step_fs: "env_step w = (f, w') \<Longrightarrow> os_fs w' = os_fs w"
  by (auto simp: env_step_def split: list.splits)

lemma frame_env [simp]: "env_step w = (f, w') \<Longrightarrow> frame R w w'"
  by (simp add: frame_def env_step_fs)

lemma time_now_fs: "time_now w = (t, w') \<Longrightarrow> os_fs w' = os_fs w"
  by (auto simp: time_now_def env_step_fs split: prod.splits)

text \<open>The interface: a region closed under descent, and what the calls inside it preserve.\<close>

locale region =
  fixes R :: "path \<Rightarrow> bool"
  assumes closed: "R p \<Longrightarrow> prefix p q \<Longrightarrow> R q"
begin

lemma frame_fs:
  assumes "env_step w = (f, w0)"
    and "\<And>p. \<not> R p \<Longrightarrow> same_node (get (os_fs w) p) (get fs' p)"
  shows "frame R w (w0\<lparr>os_fs := fs'\<rparr>)"
  using assms by (simp add: frame_def)

lemma same_touch: "same_node (get fs p) (get fs' p) \<Longrightarrow> same_node (get fs p) (get (touch q t fs') p)"
  by (auto simp: same_node_def get_touch)

lemma same_touches:
  "same_node (get fs p) (get fs' p) \<Longrightarrow> same_node (get fs p) (get (fold (\<lambda>q. touch q t) qs fs') p)"
  by (induction qs arbitrary: fs') (simp_all add: same_touch)

lemma same_put: "R p \<Longrightarrow> \<not> R q \<Longrightarrow> same_node (get fs q) (get (put p n fs) q)"
  by (auto simp: get_put)

lemma same_prune: "R p \<Longrightarrow> \<not> R q \<Longrightarrow> same_node (get fs q) (get (prune p fs) q)"
  using closed by (auto simp: get_prune)

lemma same_move:
  assumes "R p" "R q" "\<not> prefix p q" "\<not> prefix q p" "\<not> R r"
  shows "same_node (get fs r) (get (move p q fs) r)"
  using assms closed by (auto simp: get_move)

lemma stat_frame: "frame R w (snd (os_stat s w))"
  by (simp add: os_stat_def split: prod.split option.split)

lemma mk_dirs_same:
  assumes "\<forall>p \<in> set ps. R p \<or> is_dir (get fs p)"
  shows "\<not> R q \<Longrightarrow> same_node (get fs q) (get (snd (mk_dirs t ps fs)) q)"
  using assms
proof (induction t ps fs rule: mk_dirs.induct)
  case (2 t p ps fs)
  show ?case
  proof (cases "get fs p")
    case None
    then have p: "R p" using "2.prems" by auto
    let ?fs = "touch p t (put p (Dir t) fs)"
    have "same_node (get fs q) (get ?fs q)"
      using p "2.prems" by (intro same_touch same_put) auto
    moreover have "\<forall>r \<in> set ps. R r \<or> is_dir (get ?fs r)"
      using "2.prems" by (auto simp: get_touch get_put)
    ultimately show ?thesis
      using "2.IH"(1) [OF None "2.prems"(1)] None by (auto intro: same_node_trans)
  next
    case (Some n)
    then show ?thesis using 2 by (cases n) auto
  qed
qed simp

lemma mkdir_all_frame:
  assumes "anchored R w" "R q" "prefix (path_comps s) q"
  shows "frame R w (snd (os_mkdir_all s w))"
proof -
  let ?p = "path_comps s"
  let ?ps = "map (\<lambda>i. take (Suc i) ?p) [0..<length ?p]"
  have all: "\<not> is_dir (get (os_fs w) (take i ?p)) \<Longrightarrow> R (take i ?p)" for i
    using assms prefix_order.trans [OF take_is_prefix assms(3)] unfolding anchored_def by metis
  obtain f w0 where e: "env_step w = (f, w0)" by (metis surj_pair)
  define qs where "qs = (case f of None \<Rightarrow> ?ps | Some k \<Rightarrow> take k ?ps)"
  have "\<forall>p \<in> set qs. R p \<or> is_dir (get (os_fs w) p)"
    unfolding qs_def by (cases f) (auto simp: all dest!: in_set_takeD)
  then have "\<not> R q \<Longrightarrow> same_node (get (os_fs w) q) (get (snd (mk_dirs (os_now w0) qs (os_fs w))) q)" for q
    by (intro mk_dirs_same)
  moreover have "snd (os_mkdir_all s w) = w0\<lparr>os_fs := snd (mk_dirs (os_now w0) qs (os_fs w))\<rparr>"
    unfolding qs_def
    by (simp add: env_step_fs [OF e] os_mkdir_all_def Let_def e split: prod.split)
  ultimately show ?thesis by (simp add: frame_def)
qed

lemma create_excl_frame:
  assumes "R (path_comps s)"
  shows "frame R w (snd (os_create_excl s ex w))"
  using assms
  by (auto simp: env_step_fs os_create_excl_def Let_def frame_def same_node_def get_touch get_put split: prod.split option.split)

lemma append_frame:
  assumes "R (path_comps s)"
  shows "frame R w (snd (os_append s d w))"
  using assms
  by (auto simp: env_step_fs os_append_def Let_def frame_def same_node_def get_put split: prod.split option.split node.split)

lemma close_frame: "frame R w (snd (os_close w))"
  by (auto simp: env_step_fs os_close_def frame_def split: prod.split)

lemma remove_all_frame:
  assumes "R (path_comps s)"
  shows "frame R w (snd (os_remove_all s w))"
proof -
  obtain f w0 where e: "env_step w = (f, w0)" by (metis surj_pair)
  let ?s = "path_comps s"
  have out: "\<not> prefix ?s q" if "\<not> R q" for q using assms closed that by blast
  show ?thesis
  proof (cases f)
    case None
    then show ?thesis using out
      by (auto simp: env_step_fs [OF e] os_remove_all_def Let_def e frame_def same_node_def get_touch get_prune)
  next
    case (Some k)
    let ?out = "partly_removed k (subtree ?s (os_fs w))"
    have "same_node (get (os_fs w) q) (get (filter (\<lambda>(q, _). q \<notin> set ?out) (os_fs w)) q)" if "\<not> R q" for q
      using out [OF that] partly_removed_sub [of q k ?s "os_fs w"] by (auto simp: get_filter_keys)
    then show ?thesis using Some
      by (simp add: env_step_fs [OF e] os_remove_all_def Let_def e frame_def same_touches)
  qed
qed

lemma remove_frame:
  assumes "R (path_comps s)"
  shows "frame R w (snd (os_remove s w))"
proof -
  obtain f w0 where e: "env_step w = (f, w0)" by (metis surj_pair)
  show ?thesis
    using assms
    by (auto simp: env_step_fs [OF e] os_remove_def Let_def e frame_def same_node_def get_touch get_filter_keys split: option.split)
qed

lemma rename_frame:
  assumes "R (path_comps old)" "R (path_comps new)"
  shows "frame R w (snd (os_rename old new w))"
proof -
  obtain f w0 where e: "env_step w = (f, w0)" by (metis surj_pair)
  have "same_node (get fs q) (get (touch p t (touch p' t (move (path_comps old) (path_comps new) fs))) q)"
    if "\<not> R q" "\<not> prefix (path_comps old) (path_comps new)" "\<not> prefix (path_comps new) (path_comps old)"
    for q p p' t fs
    using that assms by (intro same_touch same_move)
  then show ?thesis
    by (auto simp: env_step_fs [OF e] os_rename_def Let_def e frame_def split: option.split)
qed

lemma write_file_frame:
  assumes "R (path_comps s)"
  shows "frame R w (snd (os_write_file s d w))"
  using assms
  by (auto simp: env_step_fs os_write_file_def Let_def frame_def same_node_def get_put split: prod.split)

end

lemma os_read_frame [simp]:
  "frame R w (snd (os_stat s w))" "frame R w (snd (os_read_dir s w))" "frame R w (snd (os_read_file s w))"
  by (auto simp: env_step_fs os_stat_def os_read_dir_def os_read_file_def frame_def split: prod.split option.split node.split)

lemma mkdir_temp_frame:
  assumes "\<And>nm. R (path_comps base @ [nm])"
  shows "frame R w (snd (os_mkdir_temp base pre w))"
  using assms
  by (auto simp: env_step_fs os_mkdir_temp_def Let_def frame_def same_node_def get_touch get_put split: prod.split option.split)

text \<open>The regions of the program: everything at or below one of the given directories.\<close>

definition below_any :: "path set \<Rightarrow> path \<Rightarrow> bool" where
  "below_any D p \<longleftrightarrow> (\<exists>d \<in> D. prefix d p)"

interpretation below: region "below_any D" for D
  by unfold_locales (auto simp: below_any_def intro: prefix_order.trans)

lemma anchored_below:
  assumes "\<And>i. i < length d \<Longrightarrow> is_dir (get (os_fs w) (take i d))"
  shows "anchored (below_any {d}) w"
  unfolding anchored_def below_any_def
proof clarsimp
  fix p q
  assume "prefix d p" "prefix q p" "\<not> prefix d q"
  then have "prefix q d" "q \<noteq> d" using prefix_same_cases by auto
  then have "q = take (length q) d" "length q < length d" by (auto simp: prefix_def)
  then show "is_dir (get (os_fs w) q)" using assms by metis
qed

end
