(* ===== verification/Persist.thy ===== *)
theory Persist
  imports Confine FileSys
begin

text \<open>
  The way the index, the token store and the configuration are written back: encode, write
  \<open><path>.tmp\<close>, rename over the file. The interface \<open>durable\<close> says what such a save promises;
  its lemmas hold for any sequence of saves. Each of the three components interprets it on its
  own save.
\<close>

subsection \<open>Paths of the saved files\<close>

definition good_file :: "string \<Rightarrow> bool" where
  "good_file p \<longleftrightarrow> slash \<in> set p \<and> plain (rev (takeWhile (\<lambda>c. c \<noteq> slash) (rev p)))"

lemma good_fileE:
  assumes "good_file p"
  obtains d n where "p = d @ slash # n" "plain n"
proof -
  let ?t = "takeWhile (\<lambda>c. c \<noteq> slash) (rev p)" and ?d = "dropWhile (\<lambda>c. c \<noteq> slash) (rev p)"
  have d: "?d \<noteq> []" using assms by (auto simp: good_file_def dropWhile_eq_Nil_conv)
  then have "hd ?d = slash" using hd_dropWhile by blast
  with d have "?d = slash # tl ?d" by (cases ?d) auto
  then have "rev p = ?t @ slash # tl ?d" by (metis takeWhile_dropWhile_id)
  then have "p = rev (tl ?d) @ slash # rev ?t"
    by (metis (no_types, lifting) append.assoc append_Cons append_Nil rev.simps(2) rev_append rev_rev_ident)
  with that assms show thesis by (auto simp: good_file_def)
qed

lemma path_comps_snoc: "plain n \<Longrightarrow> path_comps (d @ slash # n) = path_comps d @ [n]"
proof (cases "d = []")
  case True
  assume "plain n"
  then have "clean_comps True [] [n] = [n]" by (simp add: plainD)
  with True \<open>plain n\<close> show ?thesis
    by (simp add: path_comps_def split_on_free plainD(4))
next
  case False
  assume "plain n"
  then show ?thesis using False by (simp add: path_comps_append split_on_free plainD)
qed

definition tmp_of :: "string \<Rightarrow> string" where
  "tmp_of p = p @ ''.tmp''"

lemma plain_tmp: "plain n \<Longrightarrow> plain (n @ ''.tmp'')"
  by (cases n) (auto simp: plain_def slash_def)

lemma good_file_comps:
  assumes "good_file p"
  obtains d n where "path_comps p = d @ [n]" "path_comps (tmp_of p) = d @ [n @ ''.tmp'']"
  using good_fileE [OF assms]
proof cases
  case (1 d n)
  then have "path_comps p = path_comps d @ [n]" by (simp add: path_comps_snoc)
  moreover have "path_comps (tmp_of p) = path_comps d @ [n @ ''.tmp'']"
    using path_comps_snoc [OF plain_tmp [OF 1(2)], of d] 1(1) by (simp add: tmp_of_def)
  ultimately show thesis by (rule that)
qed

lemma good_file_join:
  assumes "good_root r" "path_comps r \<noteq> []" "plain n"
  shows "good_file (path_join [r, n])"
proof -
  have c: "path_comps (r @ slash # n) = path_comps r @ [n]" using assms(3) by (rule path_comps_snoc)
  have "\<exists>d. path_join [r, n] = d @ slash # n"
    using assms c by (auto simp: good_root_def path_join2 path_clean_def join_with_append)
  then obtain d where "path_join [r, n] = d @ slash # n" by blast
  moreover have "takeWhile (\<lambda>c. c \<noteq> slash) (rev n @ slash # rev d) = rev n"
    using plainD(4) [OF assms(3)] by (subst takeWhile_append2) auto
  ultimately show ?thesis using assms(3) by (simp add: good_file_def)
qed

subsection \<open>Write, then rename\<close>

definition write_via_tmp :: "string \<Rightarrow> bytes \<Rightarrow> os \<Rightarrow> unit result \<times> os" where
  "write_via_tmp p b w =
     bind_os (os_write_file (tmp_of p) b w) (\<lambda>_. os_rename (tmp_of p) p)"

definition file_data :: "fs \<Rightarrow> string \<Rightarrow> bytes option" where
  "file_data fs p = (case get fs (path_comps p) of Some (File d _ _) \<Rightarrow> Some d | _ \<Rightarrow> None)"

lemma write_file_result:
  assumes "os_write_file s b w = (r, w')"
  shows "(r = Inr () \<longrightarrow> file_data (os_fs w') s = Some b) \<and>
    (q \<noteq> path_comps s \<longrightarrow> get (os_fs w') q = get (os_fs w) q)"
  using assms
  by (auto simp: os_write_file_def Let_def file_data_def get_put env_step_fs split: prod.splits if_splits)

lemma rename_result:
  assumes "os_rename old new w = (r, w')" and "path_comps old \<noteq> path_comps new"
    and "file_data (os_fs w) old = Some b"
  shows "(r = Inr () \<longrightarrow> file_data (os_fs w') new = Some b) \<and>
    (\<forall>e. r = Inl e \<longrightarrow> os_fs w' = os_fs w)"
proof -
  obtain f w0 where e: "env_step w = (f, w0)" by (metis surj_pair)
  from assms(3) obtain t x where g: "get (os_fs w) (path_comps old) = Some (File b t x)"
    by (auto simp: file_data_def split: option.splits node.splits)
  have fs: "os_fs w0 = os_fs w" by (rule env_step_fs [OF e])
  show ?thesis
    using assms(1,2) g fs
    by (auto simp: os_rename_def Let_def e file_data_def get_touch get_move
        split: option.splits if_splits)
qed

lemma write_via_tmp_result:
  assumes "good_file p" "write_via_tmp p b w = (r, w')"
  shows "(r = Inr () \<longrightarrow> file_data (os_fs w') p = Some b) \<and>
    (\<forall>e. r = Inl e \<longrightarrow> get (os_fs w') (path_comps p) = get (os_fs w) (path_comps p))"
proof -
  obtain d n where c: "path_comps p = d @ [n]" "path_comps (tmp_of p) = d @ [n @ ''.tmp'']"
    by (rule good_file_comps [OF assms(1)])
  obtain r1 w1 where w1: "os_write_file (tmp_of p) b w = (r1, w1)" by (metis surj_pair)
  have same: "get (os_fs w1) (path_comps p) = get (os_fs w) (path_comps p)"
    using write_file_result [OF w1, of "path_comps p"] c by simp
  show ?thesis
  proof (cases r1)
    case (Inl e)
    then show ?thesis using assms(2) w1 same by (auto simp: write_via_tmp_def)
  next
    case (Inr u)
    then have "os_rename (tmp_of p) p w1 = (r, w')" using assms(2) w1 by (simp add: write_via_tmp_def)
    from rename_result [OF this, of b] show ?thesis
      using write_file_result [OF w1] Inr c same by (auto simp: file_data_def)
  qed
qed

subsection \<open>The interface\<close>

locale durable =
  fixes path_of :: "'s \<Rightarrow> string"
    and enc :: "'s \<Rightarrow> bytes result"
    and save :: "'s \<Rightarrow> os \<Rightarrow> unit result \<times> os"
  assumes saved: "good_file (path_of s) \<Longrightarrow> save s w = (Inr (), w') \<Longrightarrow>
      \<exists>b. enc s = Inr b \<and> file_data (os_fs w') (path_of s) = Some b"
    and kept: "good_file (path_of s) \<Longrightarrow> save s w = (Inl e, w') \<Longrightarrow>
      file_data (os_fs w') (path_of s) = file_data (os_fs w) (path_of s)"
begin

lemma old_or_new:
  assumes "good_file (path_of s)" "save s w = (r, w')"
  shows "file_data (os_fs w') (path_of s) = file_data (os_fs w) (path_of s) \<or>
    r = Inr () \<and> (\<exists>b. enc s = Inr b \<and> file_data (os_fs w') (path_of s) = Some b)"
  using assms saved kept by (cases r) fastforce+

text \<open>After any number of saves the file is the original or the encoding of one of the states.\<close>

lemma saves_old_or_new:
  assumes "\<forall>s \<in> set ss. path_of s = p" "good_file p"
  shows "file_data (os_fs (fold (\<lambda>s w. snd (save s w)) ss w)) p = file_data (os_fs w) p \<or>
    (\<exists>s \<in> set ss. \<exists>b. enc s = Inr b \<and> file_data (os_fs (fold (\<lambda>s w. snd (save s w)) ss w)) p = Some b)"
  using assms
proof (induction ss arbitrary: w)
  case (Cons s ss)
  let ?w1 = "snd (save s w)"
  from Cons.prems have p: "path_of s = p" by simp
  have one: "file_data (os_fs ?w1) p = file_data (os_fs w) p \<or>
      (\<exists>b. enc s = Inr b \<and> file_data (os_fs ?w1) p = Some b)"
    using old_or_new [of s w "fst (save s w)" ?w1] p Cons.prems(2) by auto
  show ?case
    using Cons.IH [of ?w1] Cons.prems one by simp metis
qed simp

end

definition save_encoded :: "('s \<Rightarrow> string) \<Rightarrow> ('s \<Rightarrow> bytes result) \<Rightarrow> 's \<Rightarrow> os \<Rightarrow> unit result \<times> os" where
  "save_encoded path_of enc s w =
     (case enc s of Inl e \<Rightarrow> (Inl e, w) | Inr b \<Rightarrow> write_via_tmp (path_of s) b w)"

lemma save_encoded_saved:
  assumes "good_file (path_of s)" "save_encoded path_of enc s w = (Inr (), w')"
  shows "\<exists>b. enc s = Inr b \<and> file_data (os_fs w') (path_of s) = Some b"
  using assms write_via_tmp_result [OF assms(1)] by (auto simp: save_encoded_def split: sum.splits)

lemma save_encoded_same:
  assumes "good_file (path_of s)" "save_encoded path_of enc s w = (Inl e, w')"
  shows "get (os_fs w') (path_comps (path_of s)) = get (os_fs w) (path_comps (path_of s))"
  using assms write_via_tmp_result [OF assms(1)] by (auto simp: save_encoded_def split: sum.splits)

lemma save_encoded_kept:
  assumes "good_file (path_of s)" "save_encoded path_of enc s w = (Inl e, w')"
  shows "file_data (os_fs w') (path_of s) = file_data (os_fs w) (path_of s)"
  using save_encoded_same [OF assms] by (simp add: file_data_def)

end
