(* ===== verification/Index.thy ===== *)
theory Index
  imports Persist "HOL-Library.List_Lexorder" "HOL-Library.Char_ord" "HOL-Library.Multiset"
begin

text \<open>
  The sync index, \<open>internal/index/index.go\<close>: its entries, the operations on them (each writes the
  whole index back when it changed something), the fingerprint of a directory and the
  locally-modified test. The JSON codec is the parameter \<open>enc\<close> (and \<open>dec\<close>, \<open>None\<close> for bytes
  that do not decode). A Go map is an association list; its iteration order, which Go leaves open,
  is the order of the list. The interface \<open>sync_index\<close> states the laws the mirror relies on.
\<close>

record entry =
  ent_rel :: string
  ent_dir :: bool
  ent_size :: int
  ent_sync_mod :: gotime
  ent_last_sync :: gotime
  ent_last_used :: gotime

record index =
  ix_path :: string
  ix_entries :: "(string \<times> entry) list"

type_synonym entries = "(string \<times> entry) list"

subsection \<open>Loading and saving\<close>

definition index_load :: "(bytes \<Rightarrow> entries option) \<Rightarrow> string \<Rightarrow> os \<Rightarrow> index result \<times> os" where
  "index_load dec p w =
     (case os_read_file p w of
        (Inl e, w') \<Rightarrow>
          (if e = NotExist then Inr \<lparr>ix_path = p, ix_entries = []\<rparr> else Inl e, w')
      | (Inr b, w') \<Rightarrow>
          (case dec b of
             None \<Rightarrow> (Inr \<lparr>ix_path = p, ix_entries = []\<rparr>, w')
           | Some es \<Rightarrow> (Inr \<lparr>ix_path = p, ix_entries = es\<rparr>, w')))"

definition index_save :: "(entries \<Rightarrow> bytes result) \<Rightarrow> index \<Rightarrow> os \<Rightarrow> unit result \<times> os" where
  "index_save enc ix w =
     (case enc (ix_entries ix) of
        Inl e \<Rightarrow> (Inl e, w)
      | Inr b \<Rightarrow>
          (let tmp = tmp_of (ix_path ix) in
           bind_os (os_write_file tmp b w) (\<lambda>_. os_rename tmp (ix_path ix))))"

lemma index_save_encoded: "index_save enc = save_encoded ix_path (\<lambda>ix. enc (ix_entries ix))"
  by (auto simp: fun_eq_iff index_save_def save_encoded_def write_via_tmp_def Let_def split: sum.split)

interpretation ix_file: durable ix_path "\<lambda>ix. enc (ix_entries ix)" "index_save enc" for enc
  unfolding index_save_encoded
  by unfold_locales (fact save_encoded_saved, fact save_encoded_kept)

subsection \<open>Operations\<close>

definition put_entry :: "string \<Rightarrow> entry \<Rightarrow> index \<Rightarrow> index" where
  "put_entry k e ix = ix\<lparr>ix_entries := AList.update k e (ix_entries ix)\<rparr>"

definition drop_entries :: "(string \<Rightarrow> entry \<Rightarrow> bool) \<Rightarrow> index \<Rightarrow> index" where
  "drop_entries P ix = ix\<lparr>ix_entries := filter (\<lambda>(k, e). \<not> P k e) (ix_entries ix)\<rparr>"

definition ix_record ::
    "(entries \<Rightarrow> bytes result) \<Rightarrow> string \<Rightarrow> bool \<Rightarrow> int \<Rightarrow> gotime \<Rightarrow> index \<Rightarrow> os \<Rightarrow>
     unit result \<times> index \<times> os" where
  "ix_record enc k dir sz sync_mod ix w =
     (case time_now w of
        (now, w1) \<Rightarrow>
          (let ix' = put_entry k
                 \<lparr>ent_rel = k, ent_dir = dir, ent_size = sz, ent_sync_mod = sync_mod,
                  ent_last_sync = now, ent_last_used = now\<rparr> ix
           in case index_save enc ix' w1 of (r, w2) \<Rightarrow> (r, ix', w2)))"

definition ix_touch ::
    "(entries \<Rightarrow> bytes result) \<Rightarrow> string \<Rightarrow> index \<Rightarrow> os \<Rightarrow> unit result \<times> index \<times> os" where
  "ix_touch enc k ix w =
     (case map_of (ix_entries ix) k of
        None \<Rightarrow> (Inr (), ix, w)
      | Some e \<Rightarrow>
          (case time_now w of
             (now, w1) \<Rightarrow>
               (let ix' = put_entry k (e\<lparr>ent_last_used := now\<rparr>) ix
                in case index_save enc ix' w1 of (r, w2) \<Rightarrow> (r, ix', w2))))"

definition ix_get :: "index \<Rightarrow> string \<Rightarrow> entry option" where
  "ix_get ix k = map_of (ix_entries ix) k"

definition below :: "string \<Rightarrow> string \<Rightarrow> bool" where
  "below p k \<longleftrightarrow> has_prefix k (p @ ''/'')"

definition descendants :: "string \<Rightarrow> index \<Rightarrow> entry list" where
  "descendants p ix = map snd (filter (\<lambda>(k, _). k = p \<or> below p k) (ix_entries ix))"

definition ix_delete ::
    "(entries \<Rightarrow> bytes result) \<Rightarrow> string \<Rightarrow> index \<Rightarrow> os \<Rightarrow> unit result \<times> index \<times> os" where
  "ix_delete enc k ix w =
     (let ix' = drop_entries (\<lambda>k' _. k' = k) ix
      in case index_save enc ix' w of (r, w') \<Rightarrow> (r, ix', w'))"

text \<open>The two sweeps delete the entries that satisfy a test and save when there was one.\<close>

definition ix_drop ::
    "(entries \<Rightarrow> bytes result) \<Rightarrow> (string \<Rightarrow> entry \<Rightarrow> bool) \<Rightarrow> index \<Rightarrow> os \<Rightarrow>
     unit result \<times> index \<times> os" where
  "ix_drop enc P ix w =
     (let changed = list_ex (\<lambda>(k, e). P k e) (ix_entries ix);
          ix' = drop_entries P ix
      in if changed then (case index_save enc ix' w of (r, w') \<Rightarrow> (r, ix', w'))
         else (Inr (), ix', w))"

definition delete_descendants_of ::
    "(entries \<Rightarrow> bytes result) \<Rightarrow> string \<Rightarrow> index \<Rightarrow> os \<Rightarrow> unit result \<times> index \<times> os" where
  "delete_descendants_of enc p = ix_drop enc (\<lambda>k _. below p k)"

definition delete_ancestor_dirs_of ::
    "(entries \<Rightarrow> bytes result) \<Rightarrow> string \<Rightarrow> index \<Rightarrow> os \<Rightarrow> unit result \<times> index \<times> os" where
  "delete_ancestor_dirs_of enc k = ix_drop enc (\<lambda>r e. ent_dir e \<and> below r k)"

definition candidates :: "index \<Rightarrow> entry list" where
  "candidates ix = sort_key ent_last_used (map snd (ix_entries ix))"

definition total_bytes :: "index \<Rightarrow> int" where
  "total_bytes ix = fold (\<lambda>(_, e) t. i64 (t + ent_size e)) (ix_entries ix) 0"

subsection \<open>Fingerprints and local modifications\<close>

text \<open>\<open>filepath.WalkDir\<close> visits a tree in lexical order, a directory before what it holds.\<close>

definition walk :: "path \<Rightarrow> fs \<Rightarrow> (path \<times> node) list" where
  "walk p fs = sort_key fst (subtree p fs)"

definition fp_step :: "path \<times> node \<Rightarrow> int \<times> gotime \<Rightarrow> int \<times> gotime" where
  "fp_step pn st =
     (case (pn, st) of ((_, n), (sz, latest)) \<Rightarrow>
        (case n of File d _ _ \<Rightarrow> i64 (sz + int (length d)) | _ \<Rightarrow> sz,
         if time_after (mtime n) latest then mtime n else latest))"

definition dir_fingerprint :: "string \<Rightarrow> os \<Rightarrow> (int \<times> gotime \<times> error option) \<times> os" where
  "dir_fingerprint root w =
     (case env_step w of
        (f, w') \<Rightarrow>
          (let es = walk (path_comps root) (os_fs w') in
           case f of
             Some k \<Rightarrow>
               (case fold fp_step (take k es) (0, zero_time) of (s, t) \<Rightarrow> ((s, t, Some IoError), w'))
           | None \<Rightarrow>
               if get (os_fs w') (path_comps root) = None then ((0, zero_time, Some NotExist), w')
               else (case fold fp_step es (0, zero_time) of (s, t) \<Rightarrow> ((s, t, None), w'))))"

definition locally_modified :: "entry \<Rightarrow> string \<Rightarrow> os \<Rightarrow> bool \<times> os" where
  "locally_modified e file w =
     (if ent_dir e then
        (case dir_fingerprint file w of
           ((sz, latest, err), w') \<Rightarrow>
             (if err \<noteq> None then False
              else if sz \<noteq> ent_size e then True
              else time_after latest (time_add (ent_sync_mod e) (2 * second)), w'))
      else
        (case os_stat file w of
           (Inl _, w') \<Rightarrow> (False, w')
         | (Inr n, w') \<Rightarrow>
             (if time_after (mtime n) (time_add (ent_sync_mod e) (2 * second)) then True
              else size_of n \<noteq> ent_size e, w')))"

subsection \<open>The interface to the mirror\<close>

locale sync_index =
  fixes ok :: "'s \<Rightarrow> bool"
    and look :: "'s \<Rightarrow> string \<Rightarrow> entry option"
    and enter :: "string \<Rightarrow> entry \<Rightarrow> 's \<Rightarrow> 's"
    and drop :: "(string \<Rightarrow> entry \<Rightarrow> bool) \<Rightarrow> 's \<Rightarrow> 's"
  assumes ok_enter: "ok s \<Longrightarrow> ent_rel e = k \<Longrightarrow> ok (enter k e s)"
    and ok_drop: "ok s \<Longrightarrow> ok (drop P s)"
    and look_enter: "look (enter k e s) k' = (if k' = k then Some e else look s k')"
    and look_drop: "ok s \<Longrightarrow> look (drop P s) k =
      (case look s k of None \<Rightarrow> None | Some e \<Rightarrow> if P k e then None else Some e)"
begin

text \<open>What \<open>Promote\<close> leaves in the index, for a directory and for a file.\<close>

lemma after_dir:
  assumes "ok s" "k' \<noteq> k"
  shows "look (enter k e (drop (\<lambda>r _. below k r) s)) k' = (if below k k' then None else look s k')"
  using assms by (auto simp: look_enter look_drop split: option.split)

lemma after_file:
  assumes "ok s" "k' \<noteq> k"
  shows "look (enter k e (drop (\<lambda>r e. ent_dir e \<and> below r k) s)) k' =
    (case look s k' of Some e' \<Rightarrow> if ent_dir e' \<and> below k' k then None else Some e' | None \<Rightarrow> None)"
  using assms by (auto simp: look_enter look_drop split: option.split)

lemma after_ok:
  "ok s \<Longrightarrow> ent_rel e = k \<Longrightarrow> ok (enter k e (drop P s))"
  by (simp add: ok_enter ok_drop)

lemma drop_subset: "ok s \<Longrightarrow> look (drop P s) k = Some e \<Longrightarrow> look s k = Some e \<and> \<not> P k e"
  by (auto simp: look_drop split: option.splits if_splits)

end

definition index_ok :: "index \<Rightarrow> bool" where
  "index_ok ix \<longleftrightarrow> distinct (map fst (ix_entries ix)) \<and> list_all (\<lambda>(k, e). ent_rel e = k) (ix_entries ix)"

lemma map_of_drop:
  "distinct (map fst es) \<Longrightarrow> map_of (filter (\<lambda>(k, e). \<not> P k e) es) k =
    (case map_of es k of None \<Rightarrow> None | Some e \<Rightarrow> if P k e then None else Some e)"
  by (induction es) (auto split: option.split dest: map_of_SomeD simp: image_iff, fastforce)

lemma update_ok: "list_all (\<lambda>(k, e). ent_rel e = k) es \<Longrightarrow> ent_rel e = k \<Longrightarrow>
    list_all (\<lambda>(k, e). ent_rel e = k) (AList.update k e es)"
  by (induction es) auto

interpretation ix: sync_index index_ok ix_get put_entry drop_entries
proof
  show "index_ok s \<Longrightarrow> ent_rel e = k \<Longrightarrow> index_ok (put_entry k e s)" for s e k
    by (simp add: index_ok_def put_entry_def distinct_update update_ok)
  show "index_ok s \<Longrightarrow> index_ok (drop_entries P s)" for s P
    by (auto simp: index_ok_def drop_entries_def distinct_map_filter list_all_iff)
  show "ix_get (put_entry k e s) k' = (if k' = k then Some e else ix_get s k')" for k e s k'
    by (simp add: ix_get_def put_entry_def update_conv)
  show "index_ok s \<Longrightarrow> ix_get (drop_entries P s) k =
      (case ix_get s k of None \<Rightarrow> None | Some e \<Rightarrow> if P k e then None else Some e)" for s P k
    by (simp add: ix_get_def drop_entries_def index_ok_def map_of_drop)
qed

subsection \<open>Lemmas\<close>

lemma index_load_get:
  assumes "os_sched w = []"
  shows "index_load dec p w =
    (case get (os_fs w) (path_comps p) of
       None \<Rightarrow> (Inr \<lparr>ix_path = p, ix_entries = []\<rparr>, w)
     | Some (File d _ _) \<Rightarrow>
         (Inr \<lparr>ix_path = p, ix_entries = (case dec d of None \<Rightarrow> [] | Some es \<Rightarrow> es)\<rparr>, w)
     | _ \<Rightarrow> (Inl IoError, w))"
  using assms
  by (auto simp: index_load_def os_read_file_def env_step_def split: option.split node.split)

lemma i64_add_i64: "i64 (i64 a + b) = i64 (a + b)"
  unfolding i64_def using signed_take_bit_add [of 63 a b] by (metis signed_take_bit_add signed_take_bit_signed_take_bit min.idem)

definition reg_bytes :: "node \<Rightarrow> int" where
  "reg_bytes n = (case n of File d _ _ \<Rightarrow> int (length d) | _ \<Rightarrow> 0)"

definition tree_bytes :: "path \<Rightarrow> fs \<Rightarrow> int" where
  "tree_bytes p fs = sum_list (map (\<lambda>(_, n). reg_bytes n) (subtree p fs))"

lemma fp_step_eq:
  "fp_step (p, n) (sz, t) = (if reg_bytes n = 0 then sz else i64 (sz + reg_bytes n), max t (mtime n)) \<or>
   fp_step (p, n) (sz, t) = (i64 (sz + reg_bytes n), max t (mtime n))"
  by (auto simp: fp_step_def reg_bytes_def time_after_def max_def split: node.split)

lemma fold_fp_step:
  "in_i64 sz \<Longrightarrow> fold fp_step es (sz, t) =
    (i64 (sz + sum_list (map (\<lambda>(_, n). reg_bytes n) es)), fold max (map (\<lambda>(_, n). mtime n) es) t)"
proof (induction es arbitrary: sz t)
  case Nil
  then show ?case by (simp add: i64_id)
next
  case (Cons pn es)
  obtain p n where pn: "pn = (p, n)" by (cases pn)
  have "fp_step (p, n) (sz, t) = (i64 (sz + reg_bytes n), max t (mtime n))"
    using fp_step_eq [of p n sz t] Cons.prems by (auto simp: i64_id)
  then show ?case
    using Cons.IH [OF in_i64_i64, of "sz + reg_bytes n" "max t (mtime n)"] pn
    by (simp add: i64_add_i64 add.assoc max.commute)
qed

lemma fold_max_less: "(T < fold max ts t) \<longleftrightarrow> T < t \<or> (\<exists>u \<in> set ts. T < u)" for T :: gotime
  by (induction ts arbitrary: t) (auto simp: less_max_iff_disj)

lemma dir_fingerprint_ok:
  assumes "os_sched w = []" "get (os_fs w) (path_comps root) \<noteq> None"
  shows "dir_fingerprint root w =
    ((i64 (tree_bytes (path_comps root) (os_fs w)),
      fold max (map (\<lambda>(_, n). mtime n) (walk (path_comps root) (os_fs w))) zero_time, None), w)"
proof -
  have "sum_list (map (\<lambda>(_, n). reg_bytes n) (walk p fs)) = tree_bytes p fs" for p fs
    unfolding tree_bytes_def walk_def
    by (metis (no_types, lifting) mset_map mset_sort sum_mset_sum_list)
  then show ?thesis
    using assms fold_fp_step [of 0 "walk (path_comps root) (os_fs w)" zero_time]
    by (simp add: dir_fingerprint_def env_step_def in_i64_def min_i64_def max_i64_def)
qed

text \<open>The local-modification test without the walk: what it says of an entry and a tree.\<close>

definition diverged :: "entry \<Rightarrow> path \<Rightarrow> fs \<Rightarrow> bool" where
  "diverged e p fs \<longleftrightarrow>
     (let limit = time_add (ent_sync_mod e) (2 * second) in
      get fs p \<noteq> None \<and>
      (if ent_dir e then
         i64 (tree_bytes p fs) \<noteq> ent_size e \<or> limit < zero_time \<or>
         (\<exists>(q, n) \<in> set fs. prefix p q \<and> limit < mtime n)
       else size_of (the (get fs p)) \<noteq> ent_size e \<or> limit < mtime (the (get fs p))))"

lemma locally_modified_diverged:
  assumes "os_sched w = []"
  shows "fst (locally_modified e file w) = diverged e (path_comps file) (os_fs w)"
proof (cases "get (os_fs w) (path_comps file)")
  case None
  then show ?thesis using assms
    by (simp add: diverged_def Let_def locally_modified_def dir_fingerprint_def os_stat_def env_step_def)
next
  case (Some n)
  have "set (walk p fs) = {(q, n) \<in> set fs. prefix p q}" for p fs
    by (auto simp: walk_def subtree_def)
  then show ?thesis
    using assms Some dir_fingerprint_ok [where root = "file"]
    by (auto simp: diverged_def locally_modified_def os_stat_def env_step_def time_after_def fold_max_less Let_def)
qed

lemma locally_modified_world:
  assumes "os_sched w = []"
  shows "snd (locally_modified e file w) = w"
  using assms
  by (auto simp: locally_modified_def dir_fingerprint_def os_stat_def env_step_def Let_def
      split: prod.split option.split)

lemma bind_os_frame:
  assumes "frame R w (snd m)" "\<And>x w1. m = (Inr x, w1) \<Longrightarrow> frame R w1 (snd (f x w1))"
  shows "frame R w (snd (bind_os m f))"
  using assms by (cases m; cases "fst m") (auto intro: frame_trans)

lemma index_save_frame:
  assumes "below_any D (path_comps (ix_path ix))" "below_any D (path_comps (tmp_of (ix_path ix)))"
  shows "frame (below_any D) w (snd (index_save enc ix w))"
proof (cases "enc (ix_entries ix)")
  case (Inr b)
  have "frame (below_any D) w (snd (bind_os (os_write_file (tmp_of (ix_path ix)) b w)
      (\<lambda>_. os_rename (tmp_of (ix_path ix)) (ix_path ix))))"
    using assms by (intro bind_os_frame below.write_file_frame below.rename_frame)
  then show ?thesis using Inr by (simp add: index_save_def Let_def)
qed (simp add: index_save_def)

lemma time_now_frame: "time_now w = (t, w') \<Longrightarrow> frame R w w'"
  by (simp add: frame_def time_now_fs)

lemma ix_path_ops [simp]:
  "ix_path (put_entry k e ix) = ix_path ix" "ix_path (drop_entries P ix) = ix_path ix"
  by (simp_all add: put_entry_def drop_entries_def)

text \<open>What every operation that may save does to the index, and where it writes.\<close>

lemma ix_record_index:
  "\<exists>now. fst (snd (ix_record enc k d sz m ix w)) =
     put_entry k \<lparr>ent_rel = k, ent_dir = d, ent_size = sz, ent_sync_mod = m,
       ent_last_sync = now, ent_last_used = now\<rparr> ix"
  by (auto simp: ix_record_def Let_def split: prod.split)

lemma ix_touch_index:
  "fst (snd (ix_touch enc k ix w)) = ix \<or>
   (\<exists>e now. ix_get ix k = Some e \<and> fst (snd (ix_touch enc k ix w)) = put_entry k (e\<lparr>ent_last_used := now\<rparr>) ix)"
  by (auto simp: ix_touch_def ix_get_def Let_def split: prod.split option.split)

lemma ix_drop_index: "fst (snd (ix_drop enc P ix w)) = drop_entries P ix"
  by (auto simp: ix_drop_def Let_def split: prod.split)

lemma ix_delete_index: "fst (snd (ix_delete enc k ix w)) = drop_entries (\<lambda>k' _. k' = k) ix"
  by (auto simp: ix_delete_def Let_def split: prod.split)

lemmas ix_index = ix_drop_index ix_delete_index

lemma ix_ops_ok:
  assumes "index_ok ix"
  shows "index_ok (fst (snd (ix_record enc k d sz m ix w)))"
    and "index_ok (fst (snd (ix_touch enc k ix w)))"
    and "index_ok (fst (snd (ix_delete enc k ix w)))"
    and "index_ok (fst (snd (ix_drop enc P ix w)))"
proof -
  have "ix_get ix k = Some e \<Longrightarrow> ent_rel e = k" for e
    using assms by (auto simp: index_ok_def ix_get_def list_all_iff dest!: map_of_SomeD)
  then show "index_ok (fst (snd (ix_touch enc k ix w)))"
    using ix_touch_index [of enc k ix w] assms by (auto intro!: ix.ok_enter)
qed (use assms ix_record_index [of enc k d sz m ix w] in \<open>auto simp: ix_index intro!: ix.ok_enter ix.ok_drop\<close>)

lemma ix_ops_frame:
  assumes D: "below_any D (path_comps (ix_path ix))" "below_any D (path_comps (tmp_of (ix_path ix)))"
  shows "frame (below_any D) w (snd (snd (ix_record enc k d sz m ix w)))"
    and "frame (below_any D) w (snd (snd (ix_touch enc k ix w)))"
    and "frame (below_any D) w (snd (snd (ix_delete enc k ix w)))"
    and "frame (below_any D) w (snd (snd (ix_drop enc P ix w)))"
proof -
  have save: "index_save enc ix' w1 = (r, w2) \<Longrightarrow> ix_path ix' = ix_path ix \<Longrightarrow> frame (below_any D) w1 w2"
    for ix' w1 r w2
    using index_save_frame [of D ix' w1 enc] D by simp
  then show "frame (below_any D) w (snd (snd (ix_delete enc k ix w)))"
    "frame (below_any D) w (snd (snd (ix_drop enc P ix w)))"
    by (auto simp: ix_delete_def ix_drop_def Let_def split: prod.split intro!: save)
  have tsave: "time_now w = (t, w1) \<Longrightarrow> index_save enc ix' w1 = (r, w2) \<Longrightarrow>
      ix_path ix' = ix_path ix \<Longrightarrow> frame (below_any D) w w2" for t w1 ix' r w2
    by (blast intro: frame_trans [OF time_now_frame] save)
  show "frame (below_any D) w (snd (snd (ix_record enc k d sz m ix w)))"
    by (auto simp: ix_record_def Let_def split: prod.split intro!: tsave)
  show "frame (below_any D) w (snd (snd (ix_touch enc k ix w)))"
    by (auto simp: ix_touch_def Let_def split: prod.split option.split intro!: tsave)
qed

subsection \<open>Properties\<close>

text \<open>
  C26: a save replaces the index file as a whole: after one that reports success \<open>Load\<close> gives back an
  index at the same path with the same entry under every key as the one saved, after one that failed,
  wherever it failed, what \<open>Load\<close> gave before. Of the codec it is asked that the map saved here is read
  back as the same map; like \<open>encoding/json\<close> it may order the keys as it likes.
\<close>

theorem index_save_recoverable:
  assumes "good_file (ix_path ix)" and "index_save enc ix w = (r, w')" and "os_sched w' = []"
    and "\<forall>b. enc (ix_entries ix) = Inr b \<longrightarrow> (\<exists>es. dec b = Some es \<and> map_of es = map_of (ix_entries ix))"
  shows "case r of
      Inr _ \<Rightarrow> \<exists>ix'. fst (index_load dec (ix_path ix) w') = Inr ix' \<and> ix_path ix' = ix_path ix \<and>
        (\<forall>k. ix_get ix' k = ix_get ix k)
    | Inl _ \<Rightarrow> fst (index_load dec (ix_path ix) w') = fst (index_load dec (ix_path ix) (w\<lparr>os_sched := []\<rparr>))"
proof (cases r)
  case (Inl e)
  have "get (os_fs w') (path_comps (ix_path ix)) = get (os_fs w) (path_comps (ix_path ix))"
    using save_encoded_same [of ix_path ix "\<lambda>ix. enc (ix_entries ix)" w e w'] assms(1,2) Inl
    by (simp add: index_save_encoded)
  then show ?thesis using Inl assms(3) by (simp add: index_load_get split: option.split node.split)
next
  case (Inr u)
  obtain b where b: "enc (ix_entries ix) = Inr b" "file_data (os_fs w') (ix_path ix) = Some b"
    using ix_file.saved [of ix enc w w'] assms(1,2) Inr by auto
  obtain es where es: "dec b = Some es" "map_of es = map_of (ix_entries ix)" using assms(4) b(1) by blast
  have "fst (index_load dec (ix_path ix) w') = Inr \<lparr>ix_path = ix_path ix, ix_entries = es\<rparr>"
    using b(2) es(1) assms(3) by (auto simp: index_load_get file_data_def split: option.splits node.splits)
  then show ?thesis using Inr es(2) by (simp add: ix_get_def)
qed

text \<open>A codec that writes the keys in order, one line each, and an index whose keys are not.\<close>

definition plain_entry :: "string \<Rightarrow> entry" where
  "plain_entry k = \<lparr>ent_rel = k, ent_dir = False, ent_size = 1, ent_sync_mod = zero_time,
     ent_last_sync = zero_time, ent_last_used = zero_time\<rparr>"

definition lines_codec :: "entries \<Rightarrow> bytes result" where
  "lines_codec es = (if list_all (\<lambda>(k, e). e = plain_entry k) es
     then Inr (concat (map (\<lambda>k. newline # k) (sort (map fst es)))) else Inl ConfigError)"

definition lines_decode :: "bytes \<Rightarrow> entries option" where
  "lines_decode b = Some (map (\<lambda>k. (k, plain_entry k)) (tl (split_on newline b)))"

definition two_plain :: index where
  "two_plain = \<lparr>ix_path = ''/s/i'', ix_entries = [(''h/y'', plain_entry ''h/y''), (''h/x'', plain_entry ''h/x'')]\<rparr>"

definition empty_state :: os where
  "empty_state = \<lparr>os_fs = [([''s''], Dir zero_time)], os_now = zero_time, os_sched = []\<rparr>"

lemma two_plain_lines:
  "lines_codec (ix_entries two_plain) = Inr (newline # ''h/x'' @ newline # ''h/y'')"
  by (simp add: lines_codec_def two_plain_def insort_key_def sort_key_def list_less_def)

theorem index_save_recoverable_witness:
  "\<exists>ix'. fst (index_load lines_decode ''/s/i'' (snd (index_save lines_codec two_plain empty_state))) = Inr ix' \<and>
     ix_get ix' ''h/x'' = Some (plain_entry ''h/x'') \<and> ix_get ix' ''h/y'' = Some (plain_entry ''h/y'') \<and>
     ix_get ix' ''h'' = None"
proof -
  obtain r w' where r: "index_save lines_codec two_plain empty_state = (r, w')" by (metis surj_pair)
  have "fst (index_save lines_codec two_plain empty_state) = Inr ()"
    "os_sched (snd (index_save lines_codec two_plain empty_state)) = []"
    by code_simp+
  then have "r = Inr ()" "os_sched w' = []" using r by simp_all
  moreover have "good_file (ix_path two_plain)"
    by (simp add: two_plain_def good_file_def plain_def slash_def)
  moreover have "\<exists>es. lines_decode (newline # ''h/x'' @ newline # ''h/y'') = Some es \<and> map_of es = map_of (ix_entries two_plain)"
    by (auto simp: lines_decode_def newline_def two_plain_def)
  ultimately show ?thesis
    using index_save_recoverable [OF _ r, of lines_decode] r two_plain_lines
    by (auto simp: ix_get_def two_plain_def)
qed

text \<open>
  C35: with no failing call, the guard reports a local modification of a directory exactly when the
  bytes of its regular files differ from the recorded total or anything in the tree has a
  modification time more than two seconds past the recorded one, and of a file exactly when its own
  size or modification time says so; what is gone is never reported.
\<close>

theorem locally_modified_exact:
  assumes "os_sched w = []"
  shows "fst (locally_modified e file w) =
    (let p = path_comps file; fs = os_fs w; limit = time_add (ent_sync_mod e) (2 * second) in
     get fs p \<noteq> None \<and>
     (if ent_dir e then
        i64 (tree_bytes p fs) \<noteq> ent_size e \<or> limit < zero_time \<or>
        (\<exists>(q, n) \<in> set fs. prefix p q \<and> limit < mtime n)
      else size_of (the (get fs p)) \<noteq> ent_size e \<or> limit < mtime (the (get fs p))))"
  using locally_modified_diverged [OF assms] by (simp add: diverged_def Let_def)

theorem locally_modified_exact_witness:
  "fst (locally_modified
     \<lparr>ent_rel = ''h/d'', ent_dir = True, ent_size = 1, ent_sync_mod = zero_time,
      ent_last_sync = zero_time, ent_last_used = zero_time\<rparr> ''/m/h/d''
     \<lparr>os_fs = [([''m'', ''h'', ''d''], Dir zero_time), ([''m'', ''h'', ''d'', ''x''], File ''ab'' zero_time False)],
      os_now = zero_time, os_sched = []\<rparr>)"
  by (subst locally_modified_exact)
     (simp_all add: path_comps_def slash_def get_def tree_bytes_def subtree_def reg_bytes_def prefix_def
       i64_def Let_def)

end
