(* ===== verification/Mirror.thy ===== *)
theory Mirror
  imports Index Utf8
begin

text \<open>
  The mirror, \<open>internal/mirror/mirror.go\<close>: the overwrite guard, staging directories, \<open>Promote\<close> and
  garbage collection. A mirror is its root and the index of \<open>Index\<close>; every operation passes the
  mirror and the operating system through. \<open>lsof\<close> is a parameter of the garbage collection.
\<close>

record mirror =
  mir_root :: string
  mir_idx :: index

definition m_abs :: "mirror \<Rightarrow> string \<Rightarrow> string" where
  "m_abs m k = mirror_abs (mir_root m) k"

subsection \<open>The overwrite guard\<close>

fun check_entries :: "string \<Rightarrow> entry list \<Rightarrow> os \<Rightarrow> unit result \<times> os" where
  "check_entries root [] w = (Inr (), w)"
| "check_entries root (e # es) w =
     (case locally_modified e (mirror_abs root (ent_rel e)) w of
        (b, w') \<Rightarrow> if b then (Inl LocallyModifiedCopy, w') else check_entries root es w')"

definition check_overwrite :: "mirror \<Rightarrow> string \<Rightarrow> bool \<Rightarrow> os \<Rightarrow> unit result \<times> os" where
  "check_overwrite m k force w =
     (if force then (Inr (), w) else check_entries (mir_root m) (descendants k (mir_idx m)) w)"

subsection \<open>Staging\<close>

definition staging_base :: "mirror \<Rightarrow> string" where
  "staging_base m = path_join [mir_root m, staging_name]"

definition staging_dir :: "mirror \<Rightarrow> os \<Rightarrow> string result \<times> os" where
  "staging_dir m w =
     bind_os (os_mkdir_all (staging_base m) w) (\<lambda>_. os_mkdir_temp (staging_base m) ''req-'')"

fun sweep_names :: "string \<Rightarrow> gotime \<Rightarrow> string list \<Rightarrow> os \<Rightarrow> os" where
  "sweep_names base cutoff [] w = w"
| "sweep_names base cutoff (n # ns) w =
     (case os_stat (path_join [base, n]) w of
        (Inl _, w1) \<Rightarrow> sweep_names base cutoff ns w1
      | (Inr nd, w1) \<Rightarrow>
          sweep_names base cutoff ns
            (if time_before (mtime nd) cutoff then snd (os_remove_all (path_join [base, n]) w1) else w1))"

definition sweep_staging :: "mirror \<Rightarrow> int \<Rightarrow> os \<Rightarrow> os" where
  "sweep_staging m max_age w =
     (case os_read_dir (staging_base m) w of
        (Inl _, w1) \<Rightarrow> w1
      | (Inr ns, w1) \<Rightarrow>
          (case time_now w1 of
             (now, w2) \<Rightarrow> sweep_names (staging_base m) (time_add now (- max_age)) ns w2))"

subsection \<open>Promote\<close>

definition payload_name :: string where
  "payload_name = ''payload''"

text \<open>
  The replacement of the slot: the old copy is moved aside, the staged one moved in, and when that
  fails the old one moved back.
\<close>

definition exchange :: "string \<Rightarrow> string \<Rightarrow> string \<Rightarrow> os \<Rightarrow> unit result \<times> os" where
  "exchange staged dst aside w =
     (let old = path_join [aside, payload_name] in
      case os_rename dst old w of
        (Inl e, w1) \<Rightarrow> (Inl e, snd (os_remove_all aside w1))
      | (Inr _, w1) \<Rightarrow>
          (case os_rename staged dst w1 of
             (Inl e, w2) \<Rightarrow> (Inl e, snd (os_rename old dst w2))
           | (Inr _, w2) \<Rightarrow> (Inr (), snd (os_remove_all (path_dir old) w2))))"

definition swap_in :: "string \<Rightarrow> string \<Rightarrow> string \<Rightarrow> os \<Rightarrow> unit result \<times> os" where
  "swap_in base staged dst w =
     bind_os (os_mkdir_all (path_dir dst) w) (\<lambda>_ w1.
       case os_stat dst w1 of
         (Inl _, w2) \<Rightarrow> os_rename staged dst w2
       | (Inr _, w2) \<Rightarrow> bind_os (os_mkdir_temp base ''old-'' w2) (exchange staged dst))"

text \<open>The size and modification time recorded for the new copy.\<close>

definition sync_stamp :: "string \<Rightarrow> bool \<Rightarrow> os \<Rightarrow> (int \<times> gotime) \<times> os" where
  "sync_stamp dst dir w =
     (case time_now w of
        (now, w1) \<Rightarrow>
          if dir then (case dir_fingerprint dst w1 of ((sz, latest, _), w2) \<Rightarrow> ((sz, latest), w2))
          else (case os_stat dst w1 of
                  (Inr n, w2) \<Rightarrow> ((size_of n, mtime n), w2)
                | (Inl _, w2) \<Rightarrow> ((0, now), w2)))"

definition promote ::
    "(entries \<Rightarrow> bytes result) \<Rightarrow> mirror \<Rightarrow> string \<Rightarrow> string \<Rightarrow> bool \<Rightarrow> os \<Rightarrow> unit result \<times> mirror \<times> os" where
  "promote enc m staged k dir w =
     (case swap_in (staging_base m) staged (m_abs m k) w of
        (Inl e, w1) \<Rightarrow> (Inl e, m, w1)
      | (Inr _, w1) \<Rightarrow>
          (case sync_stamp (m_abs m k) dir w1 of
             ((sz, sync_mod), w2) \<Rightarrow>
               (case (if dir then delete_descendants_of enc k (mir_idx m) w2
                      else delete_ancestor_dirs_of enc k (mir_idx m) w2) of
                  (_, ix1, w3) \<Rightarrow>
                    (case ix_record enc k dir sz sync_mod ix1 w3 of
                       (r, ix2, w4) \<Rightarrow> (r, m\<lparr>mir_idx := ix2\<rparr>, w4)))))"

subsection \<open>Garbage collection\<close>

record gc_result =
  gc_removed :: "string list"
  gc_retained :: "string list"
  gc_bytes :: int

text \<open>\<open>fileInUse\<close>: \<open>lsof\<close> is the output of \<open>lsof -t -- path\<close>, or an error.\<close>

text \<open>\<open>unicode.IsSpace\<close>; what \<open>TrimSpace\<close> leaves is empty exactly when every rune is one.\<close>

definition space_rune :: "nat \<Rightarrow> bool" where
  "space_rune c \<longleftrightarrow> 0x09 \<le> c \<and> c \<le> 0x0D \<or> 0x2000 \<le> c \<and> c \<le> 0x200A \<or>
     c \<in> set [0x20, 0x85, 0xA0, 0x1680, 0x2028, 0x2029, 0x202F, 0x205F, 0x3000]"

definition file_in_use :: "(string \<Rightarrow> bytes result) \<Rightarrow> string \<Rightarrow> bool" where
  "file_in_use lsof f = (case lsof f of Inl _ \<Rightarrow> False | Inr out \<Rightarrow> list_ex (\<lambda>c. \<not> space_rune c) (runes out))"

text \<open>The label of an entry is the first component of its key.\<close>

definition label_of :: "string \<Rightarrow> string" where
  "label_of k = takeWhile (\<lambda>c. c \<noteq> slash) k"

text \<open>One turn of the loop over the candidates; \<open>total\<close> is the bytes still counted as mirrored.\<close>

definition gc_step ::
    "(entries \<Rightarrow> bytes result) \<Rightarrow> (string \<Rightarrow> bytes result) \<Rightarrow> gotime \<Rightarrow> int \<Rightarrow> int \<Rightarrow> string list \<Rightarrow>
     entry \<Rightarrow> gc_result \<times> int \<times> mirror \<times> os \<Rightarrow> gc_result \<times> int \<times> mirror \<times> os" where
  "gc_step enc lsof now ttl max_bytes pinned e st =
     (case st of
        (res, tot, m, w) \<Rightarrow>
          (let f = m_abs m (ent_rel e);
               expired = ttl < time_sub now (ent_last_used e);
               over_cap = max_bytes < tot
           in
           if \<not> expired \<and> \<not> over_cap then st
           else if label_of (ent_rel e) \<in> set pinned then st
           else
             case os_stat f w of
               (Inl _, w1) \<Rightarrow>
                 (case ix_delete enc (ent_rel e) (mir_idx m) w1 of
                    (_, ix, w2) \<Rightarrow> (res, tot, m\<lparr>mir_idx := ix\<rparr>, w2))
             | (Inr _, w1) \<Rightarrow>
                 (case locally_modified e f w1 of
                    (modified, w2) \<Rightarrow>
                      if modified then (res\<lparr>gc_retained := gc_retained res @ [ent_rel e]\<rparr>, tot, m, w2)
                      else if file_in_use lsof f then (res, tot, m, w2)
                      else
                        case os_remove_all f w2 of
                          (Inl _, w3) \<Rightarrow> (res, tot, m, w3)
                        | (Inr _, w3) \<Rightarrow>
                            (case ix_delete enc (ent_rel e) (mir_idx m) w3 of
                               (_, ix, w4) \<Rightarrow>
                                 (res\<lparr>gc_removed := gc_removed res @ [ent_rel e],
                                      gc_bytes := i64 (gc_bytes res + ent_size e)\<rparr>,
                                  i64 (tot - ent_size e), m\<lparr>mir_idx := ix\<rparr>, w4)))))"

text \<open>
  One pass of \<open>pruneEmptyDirs\<close> over the directories of the tree in the order of \<open>WalkDir\<close>; the
  staging area is skipped, wherever a directory has its name.
\<close>

definition prune_dirs :: "path \<Rightarrow> fs \<Rightarrow> path list" where
  "prune_dirs root fs =
     map fst (filter (\<lambda>(p, n). is_dir (Some n) \<and> p \<noteq> root \<and> staging_name \<notin> set (drop (length root) p))
       (walk root fs))"

definition os_path :: "path \<Rightarrow> string" where
  "os_path p = slash # join_with slash p"

text \<open>
  \<open>WalkDir\<close> reads a directory itself before it visits what is in it: when that fails it goes on with the
  entries it has read.
\<close>

definition walk_read :: "path \<Rightarrow> nat option \<Rightarrow> fs \<Rightarrow> path list \<Rightarrow> path list" where
  "walk_read p f fs ps =
     (case f of
        None \<Rightarrow> ps
      | Some k \<Rightarrow> filter (\<lambda>q. strict_prefix p q \<longrightarrow> q ! length p \<in> set (take k (children p fs))) ps)"

function prune_pass :: "path list \<Rightarrow> os \<Rightarrow> bool \<times> os" where
  "prune_pass [] w = (False, w)"
| "prune_pass (p # ps) w =
     (case os_read_dir (os_path p) w of
        (r, w1) \<Rightarrow>
          if r = Inr [] then
            (case os_remove (os_path p) w1 of
               (r, w2) \<Rightarrow> (case prune_pass ps w2 of (b, w3) \<Rightarrow> (r = Inr () \<or> b, w3)))
          else
            (case env_step w1 of (f, w2) \<Rightarrow> prune_pass (walk_read p f (os_fs w2) ps) w2))"
  by pat_completeness auto
termination
  by (relation "measure (\<lambda>(ps, w). length ps)") (auto simp: walk_read_def le_imp_less_Suc split: option.split)

definition prune_walk :: "mirror \<Rightarrow> os \<Rightarrow> bool \<times> os" where
  "prune_walk m w =
     (case os_stat (mir_root m) w of
        (Inl _, w1) \<Rightarrow> (False, w1)
      | (Inr n, w1) \<Rightarrow>
          if \<not> is_dir (Some n) then (False, w1)
          else
            let root = path_comps (mir_root m) in
            case env_step w1 of (f, w2) \<Rightarrow> prune_pass (walk_read root f (os_fs w2) (prune_dirs root (os_fs w2))) w2)"

lemma node_removed: "get fs p \<noteq> None \<Longrightarrow> length (filter (\<lambda>(q, _). q \<noteq> p) fs) < length fs"
  by (rule length_filter_less [of "(p, the (get fs p))"]) (auto simp: get_def dest: map_of_SomeD)

lemma touch_length: "length (touch p t fs) \<le> length fs"
proof -
  have "length (AList.update k v fs) \<le> length fs" if "map_of fs k \<noteq> None" for k v
    using that by (induction fs) auto
  then show ?thesis by (auto simp: touch_def put_def get_def elim!: is_dirE)
qed

lemma os_remove_length:
  assumes "os_remove s w = (r, w')"
  shows "length (os_fs w') \<le> length (os_fs w) \<and> (r = Inr () \<longrightarrow> length (os_fs w') < length (os_fs w))"
proof -
  obtain f w0 where e: "env_step w = (f, w0)" by (metis surj_pair)
  show ?thesis
    using assms node_removed [of "os_fs w" "path_comps s"] env_step_fs [OF e]
      touch_length [of "path_comps s" "os_now w0" "filter (\<lambda>(q, _). q \<noteq> path_comps s) (os_fs w)"]
    by (auto simp: os_remove_def Let_def e split: option.splits if_splits)
qed

lemma prune_pass_step:
  obtains (remove) r w1 w2 b where "os_read_dir (os_path p) w = (Inr [], w1)" "os_remove (os_path p) w1 = (r, w2)"
      "prune_pass (p # ps) w = (r = Inr () \<or> b, snd (prune_pass ps w2))" "b = fst (prune_pass ps w2)"
  | (walk) r w1 f w2 where "os_read_dir (os_path p) w = (r, w1)" "r \<noteq> Inr []" "env_step w1 = (f, w2)"
      "os_fs w2 = os_fs w" "prune_pass (p # ps) w = prune_pass (walk_read p f (os_fs w2) ps) w2"
proof -
  obtain r w1 where rd: "os_read_dir (os_path p) w = (r, w1)" by (metis surj_pair)
  then have fs: "os_fs w1 = os_fs w"
    by (auto simp: os_read_dir_def env_step_fs split: prod.splits option.splits if_splits)
  show ?thesis
  proof (cases "r = Inr []")
    case True
    obtain r' w2 where "os_remove (os_path p) w1 = (r', w2)" by (metis surj_pair)
    with rd True show ?thesis by (intro remove) (auto split: prod.split)
  next
    case False
    obtain f w2 where e: "env_step w1 = (f, w2)" by (metis surj_pair)
    show ?thesis by (rule walk [OF rd False e]) (use rd False e fs in \<open>auto simp: env_step_fs [OF e]\<close>)
  qed
qed

declare prune_pass.simps(2) [simp del]

lemma prune_pass_length:
  "length (os_fs (snd (prune_pass ps w))) \<le> length (os_fs w) \<and>
   (fst (prune_pass ps w) \<longrightarrow> length (os_fs (snd (prune_pass ps w))) < length (os_fs w))"
proof (induction "length ps" arbitrary: ps w rule: less_induct)
  case less
  show ?case
  proof (cases ps)
    case (Cons p qs)
    show ?thesis
    proof (cases rule: prune_pass_step [of p w qs])
      case (remove r w1 w2 b)
      have "os_fs w1 = os_fs w"
        using remove(1) by (auto simp: os_read_dir_def env_step_fs split: prod.splits option.splits if_splits)
      then show ?thesis using less [of qs w2] remove Cons os_remove_length [OF remove(2)] by auto
    next
      case (walk r w1 f w2)
      have "length (walk_read p f (os_fs w2) qs) < length ps"
        using Cons by (simp add: walk_read_def le_imp_less_Suc split: option.split)
      from less [OF this, of w2] show ?thesis using walk Cons by simp
    qed
  qed simp
qed

lemma prune_walk_length:
  assumes "prune_walk m w = (b, w')"
  shows "length (os_fs w') \<le> length (os_fs w) \<and> (b \<longrightarrow> length (os_fs w') < length (os_fs w))"
proof -
  obtain r w1 where 1: "os_stat (mir_root m) w = (r, w1)" by (metis surj_pair)
  have fs1: "os_fs w1 = os_fs w" using 1 by (auto simp: os_stat_def env_step_fs split: prod.splits option.splits)
  obtain f w2 where 2: "env_step w1 = (f, w2)" by (metis surj_pair)
  note fs2 = env_step_fs [OF 2]
  have "\<exists>ps. prune_pass ps w2 = (b, w') \<or> b = False \<and> w' = w1"
    using assms 1 2 by (auto simp: prune_walk_def Let_def split: sum.splits if_splits)
  then show ?thesis using prune_pass_length [of _ w2] fs1 fs2 by (metis fst_conv snd_conv order_refl)
qed

function prune_empty_dirs :: "mirror \<Rightarrow> os \<Rightarrow> os" where
  "prune_empty_dirs m w =
     (case prune_walk m w of (removed, w') \<Rightarrow> if removed then prune_empty_dirs m w' else w')"
  by pat_completeness auto
termination
  by (relation "measure (\<lambda>(m, w). length (os_fs w))") (auto dest: prune_walk_length [OF sym])

declare prune_empty_dirs.simps [simp del]

definition gc ::
    "(entries \<Rightarrow> bytes result) \<Rightarrow> (string \<Rightarrow> bytes result) \<Rightarrow> mirror \<Rightarrow> int \<Rightarrow> int \<Rightarrow> string list \<Rightarrow>
     os \<Rightarrow> gc_result \<times> mirror \<times> os" where
  "gc enc lsof m ttl max_bytes pinned w =
     (case time_now w of
        (now, w1) \<Rightarrow>
          (let w2 = sweep_staging m hour w1 in
           case fold (gc_step enc lsof now ttl max_bytes pinned) (candidates (mir_idx m))
                  (\<lparr>gc_removed = [], gc_retained = [], gc_bytes = 0\<rparr>, total_bytes (mir_idx m), m, w2) of
             (res, _, m', w3) \<Rightarrow> (res, m', prune_empty_dirs m' w3)))"

end
