(* ===== verification/Trees.thy ===== *)
theory Trees
  imports Confine FileSys
begin

text \<open>
  What the calls do to whole trees: \<open>subtree p\<close> is the list of nodes at and below \<open>p\<close> with their
  full paths, \<open>tree p\<close> the same seen from \<open>p\<close>. A call aimed elsewhere leaves a tree exactly as it
  was, times included, and a rename carries one over.
\<close>

definition tree :: "path \<Rightarrow> fs \<Rightarrow> path \<Rightarrow> node option" where
  "tree p fs = (\<lambda>r. get fs (p @ r))"

lemma tree_subtree: "subtree p fs' = subtree p fs \<Longrightarrow> tree p fs' = tree p fs"
proof
  fix r
  assume "subtree p fs' = subtree p fs"
  then have "get (subtree p fs') (p @ r) = get (subtree p fs) (p @ r)" by simp
  then show "tree p fs' r = tree p fs r" by (simp add: tree_def get_subtree)
qed

subsection \<open>Edits of the tree\<close>

lemma subtree_put: "\<not> prefix p q \<Longrightarrow> subtree p (put q n fs) = subtree p fs"
  by (induction fs) (auto simp: subtree_def put_def)

lemma subtree_touch: "\<not> prefix p q \<Longrightarrow> subtree p (touch q t fs) = subtree p fs"
proof -
  assume "\<not> prefix p q"
  then have "\<not> prefix p (butlast q)" by (metis prefix_order.trans prefixeq_butlast)
  then show ?thesis by (simp add: touch_def subtree_put)
qed

lemma subtree_filter:
  "(\<And>q. prefix p q \<Longrightarrow> P q) \<Longrightarrow> subtree p (filter (\<lambda>(q, _). P q) fs) = subtree p fs"
  by (induction fs) (auto simp: subtree_def)

lemma parallel_not_both: "p \<parallel> q \<Longrightarrow> prefix p r \<Longrightarrow> \<not> prefix q r"
  by (meson parallel_def prefix_same_cases)

lemma subtree_prune: "p \<parallel> q \<Longrightarrow> subtree p (prune q fs) = subtree p fs"
  unfolding prune_def by (rule subtree_filter) (rule parallel_not_both)

lemma subtree_move: "p \<parallel> a \<Longrightarrow> p \<parallel> b \<Longrightarrow> subtree p (move a b fs) = subtree p fs"
proof (induction fs)
  case (Cons x fs)
  obtain r n where x: "x = (r, n)" by (cases x)
  have "\<not> prefix p (b @ s)" for s
    using Cons.prems(2) by (metis parallel_not_both prefixI)
  then show ?case
    using Cons x by (auto simp: subtree_def move_def prune_def dest: parallel_not_both)
qed (simp add: subtree_def move_def prune_def)

lemma tree_move_new: "a \<parallel> b \<Longrightarrow> tree b (move a b fs) = tree a fs"
  by (auto simp: tree_def get_move parallel_def)

lemma tree_move_old: "a \<parallel> b \<Longrightarrow> tree a (move a b fs) = (\<lambda>_. None)"
proof
  fix r
  assume "a \<parallel> b"
  then have "\<not> prefix b (a @ r)" using parallel_not_both [of a b "a @ r"] by simp
  with \<open>a \<parallel> b\<close> show "tree a (move a b fs) r = None" by (simp add: tree_def get_move parallel_def)
qed

subsection \<open>Calls\<close>

lemma read_fs:
  "os_stat s w = (rn, w') \<Longrightarrow> os_fs w' = os_fs w"
  "os_read_dir s w = (rl, w') \<Longrightarrow> os_fs w' = os_fs w"
  "os_read_file s w = (rb, w') \<Longrightarrow> os_fs w' = os_fs w"
  "os_close w = (ru, w') \<Longrightarrow> os_fs w' = os_fs w"
  by (auto simp: os_stat_def os_read_dir_def os_read_file_def os_close_def env_step_fs
      split: prod.splits option.splits node.splits if_splits)

lemma mk_dirs_subtree:
  "\<forall>q \<in> set ps. \<not> prefix p q \<Longrightarrow> subtree p (snd (mk_dirs t ps fs)) = subtree p fs"
  by (induction t ps fs rule: mk_dirs.induct)
     (auto simp: subtree_touch subtree_put split: option.split node.split)

lemma mkdir_all_subtree:
  assumes "\<not> prefix p (path_comps s)" "os_mkdir_all s w = (r, w')"
  shows "subtree p (os_fs w') = subtree p (os_fs w)"
proof -
  obtain f w0 where e: "env_step w = (f, w0)" by (metis surj_pair)
  let ?ps = "map (\<lambda>i. take (Suc i) (path_comps s)) [0..<length (path_comps s)]"
  have "\<forall>q \<in> set ?ps. \<not> prefix p q"
    using assms(1) by (auto dest: prefix_order.trans [OF _ take_is_prefix])
  then have "\<forall>q \<in> set (case f of None \<Rightarrow> ?ps | Some k \<Rightarrow> take k ?ps). \<not> prefix p q"
    by (auto split: option.split dest!: in_set_takeD)
  from mk_dirs_subtree [OF this, of "os_now w0" "os_fs w"] show ?thesis
    using assms(2) env_step_fs [OF e]
    by (auto simp: os_mkdir_all_def Let_def e split: prod.splits dest: arg_cong [where f = snd])
qed

lemma decimal_digits: "c \<in> set (decimal n) \<Longrightarrow> \<exists>d < (10::nat). c = char_of (48 + d)"
proof (induction n rule: decimal.induct)
  case (1 n)
  show ?case
  proof (cases "n < 10")
    case True
    with 1 show ?thesis by (subst (asm) decimal.simps) auto
  next
    case False
    then have "c \<in> set (decimal (n div 10)) \<or> c = char_of (48 + n mod 10)"
      using "1.prems" by (subst (asm) decimal.simps) auto
    moreover have "n mod 10 < 10" by simp
    ultimately show ?thesis using "1.IH" [OF False] by blast
  qed
qed

lemma decimal_plain: "plain pre \<Longrightarrow> hd pre \<noteq> CHR ''.'' \<Longrightarrow> plain (pre @ decimal n)"
proof -
  assume pre: "plain pre" "hd pre \<noteq> CHR ''.''"
  have "slash \<notin> set (decimal n)"
  proof
    assume "slash \<in> set (decimal n)"
    then obtain d :: nat where "d < 10" "of_char slash = (of_char (char_of (48 + d)) :: nat)"
      using decimal_digits by metis
    then show False by (simp add: slash_def)
  qed
  with pre show ?thesis by (cases pre) (auto simp: plain_def)
qed

lemma mkdir_temp_result:
  assumes "os_mkdir_temp base pre w = (r, w')"
  shows "(\<exists>e. r = Inl e) \<and> os_fs w' = os_fs w \<or>
    (\<exists>n. let q = path_comps base @ [pre @ decimal n] in
       r = Inr (path_join [base, pre @ decimal n]) \<and> get (os_fs w) q = None \<and>
       is_dir (get (os_fs w') q) \<and> (\<forall>p. \<not> prefix p q \<longrightarrow> subtree p (os_fs w') = subtree p (os_fs w)))"
proof -
  obtain f w0 where e: "env_step w = (f, w0)" by (metis surj_pair)
  note fs = env_step_fs [OF e]
  show ?thesis
  proof (cases "f = None \<and> is_dir (get (os_fs w0) (path_comps base)) \<and> fresh_name (os_fs w0) (path_comps base) pre \<noteq> None")
    case False
    then show ?thesis using assms fs
      by (auto simp: os_mkdir_temp_def e Let_def split: option.splits if_splits)
  next
    case True
    then obtain n where n: "fresh_name (os_fs w0) (path_comps base) pre = Some (pre @ decimal n)"
      "get (os_fs w0) (path_comps base @ [pre @ decimal n]) = None"
      by (auto simp: fresh_name_def find_Some_iff split: option.splits)
    with True assms fs show ?thesis
      by (intro disjI2 exI [of _ n])
         (auto simp: os_mkdir_temp_def e Let_def get_touch get_put subtree_touch subtree_put)
  qed
qed

lemma rename_trees:
  assumes "os_rename a b w = (r, w')" "path_comps a \<parallel> path_comps b"
  shows "(r = Inr () \<longrightarrow> tree (path_comps b) (os_fs w') = tree (path_comps a) (os_fs w) \<and>
        tree (path_comps a) (os_fs w') = (\<lambda>_. None)) \<and>
    ((\<exists>e. r = Inl e) \<longrightarrow> os_fs w' = os_fs w) \<and>
    (\<forall>p. p \<parallel> path_comps a \<longrightarrow> p \<parallel> path_comps b \<longrightarrow> subtree p (os_fs w') = subtree p (os_fs w))"
proof -
  obtain f w0 where e: "env_step w = (f, w0)" by (metis surj_pair)
  note fs = env_step_fs [OF e]
  let ?a = "path_comps a" and ?b = "path_comps b"
  let ?fs = "touch ?a (os_now w0) (touch ?b (os_now w0) (move ?a ?b (os_fs w)))"
  have par: "\<not> prefix ?a ?b" "\<not> prefix ?b ?a" "?a \<noteq> ?b" using assms(2) by (auto simp: parallel_def)
  have ne: "?a \<noteq> []" "?b \<noteq> []" using par by auto
  have sub: "subtree p ?fs = subtree p (move ?a ?b (os_fs w))" if "\<not> prefix p ?a" "\<not> prefix p ?b" for p
    using that by (simp add: subtree_touch)
  have keep: "tree p (touch q t F) = tree p F" if "\<not> prefix p (butlast q)" for p q t F
    using that by (auto simp: tree_def get_touch fun_eq_iff dest: prefixI [OF sym])
  have bl: "\<not> prefix ?b (butlast ?b)" "\<not> prefix ?a (butlast ?a)"
    "\<not> prefix ?b (butlast ?a)" "\<not> prefix ?a (butlast ?b)"
    using ne par prefix_length_le [of ?b "butlast ?b"] prefix_length_le [of ?a "butlast ?a"]
    by (auto dest: prefix_order.trans [OF _ prefixeq_butlast] simp flip: length_greater_0_conv)
  have new: "tree ?b ?fs = tree ?a (os_fs w)" "tree ?a ?fs = (\<lambda>_. None)"
    using bl assms(2) by (simp_all add: keep tree_move_new tree_move_old)
  have other: "subtree p ?fs = subtree p (os_fs w)" if "p \<parallel> ?a" "p \<parallel> ?b" for p
    using that sub subtree_move [OF that] by (simp add: parallel_def)
  have "os_fs w' = (if r = Inr () then ?fs else os_fs w)"
    using assms(1) fs par by (auto simp: os_rename_def e Let_def split: option.splits if_splits)
  then show ?thesis using new other by (auto split: if_splits)
qed

lemma remove_all_subtree:
  assumes "os_remove_all s w = (r, w')" "p \<parallel> path_comps s"
  shows "subtree p (os_fs w') = subtree p (os_fs w)"
proof -
  obtain f w0 where e: "env_step w = (f, w0)" by (metis surj_pair)
  note fs = env_step_fs [OF e]
  have np: "\<not> prefix p (path_comps s)" using assms(2) by (simp add: parallel_def)
  show ?thesis
  proof (cases f)
    case None
    then show ?thesis using assms fs np
      by (auto simp: os_remove_all_def e Let_def subtree_touch subtree_prune split: if_splits)
  next
    case (Some k)
    let ?out = "partly_removed k (subtree (path_comps s) (os_fs w))"
    have touches: "\<forall>q \<in> set qs. \<not> prefix p q \<Longrightarrow> subtree p (fold (\<lambda>q. touch q t) qs F) = subtree p F" for qs t F
      by (induction qs arbitrary: F) (simp_all add: subtree_touch)
    have out: "\<forall>q \<in> set ?out. \<not> prefix p q"
      using partly_removed_sub parallel_not_both [OF assms(2)] by blast
    then have "subtree p (filter (\<lambda>(q, _). q \<notin> set ?out) (os_fs w)) = subtree p (os_fs w)"
      by (intro subtree_filter) blast
    then show ?thesis using assms(1) fs Some touches [OF out] by (auto simp: os_remove_all_def e Let_def)
  qed
qed

lemma write_file_subtree:
  assumes "os_write_file s d w = (r, w')" "\<not> prefix p (path_comps s)"
  shows "subtree p (os_fs w') = subtree p (os_fs w)"
  using assms by (auto simp: os_write_file_def Let_def subtree_put env_step_fs split: prod.splits if_splits)

subsection \<open>Well-formed trees\<close>

text \<open>Everything below \<open>B\<close> lies in a directory.\<close>

definition nested :: "path \<Rightarrow> fs \<Rightarrow> bool" where
  "nested B fs \<longleftrightarrow> list_all (\<lambda>(q, _). q = B \<or> is_dir (get fs (butlast q))) (subtree B fs)"

lemma nested_below:
  assumes "nested B fs" "get fs (B @ [c]) = None"
  shows "get fs (B @ c # r) = None"
proof (induction r rule: rev_induct)
  case Nil
  then show ?case using assms(2) by simp
next
  case (snoc x r)
  show ?case
  proof (rule ccontr)
    assume "get fs (B @ c # r @ [x]) \<noteq> None"
    then obtain n where "get fs (B @ c # r @ [x]) = Some n" by blast
    then have "(B @ c # r @ [x], n) \<in> set (subtree B fs)" by (auto simp: get_def subtree_def dest: map_of_SomeD)
    then have "is_dir (get fs (butlast (B @ c # r @ [x])))" using assms(1) by (auto simp: nested_def list_all_iff)
    then show False using snoc by (simp add: butlast_append)
  qed
qed

end
