(* ===== verification/Promote.thy ===== *)
theory Promote
  imports Mirror Trees
begin

text \<open>
  Facts about \<open>Promote\<close> and the overwrite guard of \<open>Mirror\<close>: the slot is replaced as a whole or
  not at all, the old copy is never lost to a failure, the index ends with no stale entry below a
  directory and no stale directory above a file, the guard passes right after a sync, and nothing
  outside the label's own tree, the staging area and the index file changes.
\<close>

subsection \<open>Slots and the staging area\<close>

definition slot_of :: "mirror \<Rightarrow> string \<Rightarrow> string \<Rightarrow> bool" where
  "slot_of m l k \<longleftrightarrow> good_root (mir_root m) \<and> valid_label l \<and> (\<exists>p. rel l p = Inr k)"

definition base_comps :: "mirror \<Rightarrow> path" where
  "base_comps m = path_comps (mir_root m) @ [staging_name]"

definition slot_comps :: "mirror \<Rightarrow> string \<Rightarrow> path" where
  "slot_comps m k = path_comps (m_abs m k)"

lemma plain_names: "plain staging_name" "plain payload_name" "plain (''old-'' @ decimal n)" "plain (''req-'' @ decimal n)"
  using decimal_plain [of "''old-''" n] decimal_plain [of "''req-''" n]
  by (simp_all add: plain_def staging_name_def payload_name_def slash_def)

lemma slot_of_comps:
  assumes "slot_of m l k"
  obtains cs where "cs \<noteq> []" "list_all plain cs" "slot_comps m k = path_comps (mir_root m) @ l # cs"
    "path_comps (path_dir (m_abs m k)) = butlast (slot_comps m k)" "slot_comps m k \<parallel> base_comps m"
proof -
  from assms obtain p where g: "good_root (mir_root m)" "valid_label l" and r: "rel l p = Inr k"
    by (auto simp: slot_of_def)
  note pl = valid_label_plain [OF g(2)]
  obtain cs where cs: "cs \<noteq> []" "list_all plain cs" "k = join_with slash (l # cs)"
    by (rule rel_comps [OF pl r])
  have all: "list_all plain (l # cs)" using pl cs by simp
  have c: "slot_comps m k = path_comps (mir_root m) @ l # cs"
    unfolding slot_comps_def m_abs_def cs(3) by (rule mirror_abs_comps [OF g(1) all]) simp
  moreover have "path_comps (path_dir (m_abs m k)) = butlast (slot_comps m k)"
    using path_dir_join2 [OF g(1) all] c cs(3) by (simp add: m_abs_def mirror_abs_def butlast_append)
  moreover have "slot_comps m k \<parallel> base_comps m"
    using c valid_label_not_staging [OF g(2)] by (auto simp: base_comps_def parallel_def)
  ultimately show thesis using cs that by blast
qed

lemma base_comps: "good_root (mir_root m) \<Longrightarrow> path_comps (staging_base m) = base_comps m"
  by (simp add: staging_base_def base_comps_def join1_comps plain_names)

lemma base_good: "good_root (mir_root m) \<Longrightarrow> good_root (staging_base m)"
  by (simp add: staging_base_def join1_good plain_names)

definition staged_path :: "mirror \<Rightarrow> string \<Rightarrow> string" where
  "staged_path m nm = path_join [path_join [staging_base m, nm], payload_name]"

lemma staged_comps:
  "good_root (mir_root m) \<Longrightarrow> plain nm \<Longrightarrow> path_comps (staged_path m nm) = base_comps m @ [nm, payload_name]"
  by (simp add: staged_path_def join1_comps join1_good base_good base_comps plain_names)

lemma parallel_below: "p \<parallel> q \<Longrightarrow> p \<parallel> q @ r"
  by (meson parallel_def prefixI prefix_order.trans prefix_same_cases)

lemma parallel_sym: "p \<parallel> q \<Longrightarrow> q \<parallel> p"
  by (auto simp: parallel_def)

subsection \<open>The swap\<close>

text \<open>
  \<open>Lstat\<close> failing, \<open>MkdirTemp\<close> failing, either rename failing, the rollback failing: in each case
  the slot holds the new tree, or the old one, or the old one lies whole under the staging area.
\<close>

definition swapped :: "path \<Rightarrow> path \<Rightarrow> path \<Rightarrow> 'a result \<Rightarrow> fs \<Rightarrow> fs \<Rightarrow> bool" where
  "swapped D B S r fs fs' \<longleftrightarrow>
     tree D fs' = tree S fs \<and> succeeds r \<or>
     \<not> succeeds r \<and> tree D fs' = tree D fs \<or>
     \<not> succeeds r \<and> tree D fs' = (\<lambda>_. None) \<and>
       (\<exists>q. strict_prefix B q \<and> q \<parallel> butlast S \<and> tree q fs' = tree D fs)"

lemma swap_aside:
  assumes par: "D \<parallel> B" "path_comps dst = D" "path_comps staged = B @ [nm, payload_name]"
    and old: "old = path_join [aside, payload_name]"
    and aside: "path_comps aside = B @ [am]" "path_comps old = B @ [am, payload_name]"
      "path_comps (path_dir old) = B @ [am]" and am: "am \<noteq> nm"
    and run: "exchange staged dst aside w = (r, w')"
  shows "swapped D B (B @ [nm, payload_name]) r (os_fs w) (os_fs w')"
proof -
  let ?S = "B @ [nm, payload_name]" and ?O = "B @ [am, payload_name]" and ?A = "B @ [am]"
  have D: "D \<parallel> ?S" "D \<parallel> ?O" "D \<parallel> ?A" using par(1) by (simp_all add: parallel_below)
  have O: "?S \<parallel> ?O" using am by (auto simp: parallel_def)
  have rm: "tree D (os_fs (snd (os_remove_all s w1))) = tree D (os_fs w1)" if "path_comps s = ?A" for s w1
    using remove_all_subtree [of s w1 _ "snd (os_remove_all s w1)" D] that D(3)
    by (metis surjective_pairing tree_subtree)
  obtain r4 w4 where 4: "os_rename dst old w = (r4, w4)" by (metis surj_pair)
  note t4 = rename_trees [OF 4, unfolded par aside, OF D(2)]
  show ?thesis
  proof (cases r4)
    case (Inl e)
    then show ?thesis using run [unfolded exchange_def Let_def, folded old] 4 t4 rm [OF aside(1)] by (auto simp: swapped_def)
  next
    case (Inr u)
    obtain r5 w5 where 5: "os_rename staged dst w4 = (r5, w5)" by (metis surj_pair)
    note t5 = rename_trees [OF 5, unfolded par, OF parallel_sym [OF D(1)]]
    have S4: "tree ?S (os_fs w4) = tree ?S (os_fs w)"
      using t4 O parallel_sym [OF D(1)] by (intro tree_subtree) blast
    have D4: "tree ?O (os_fs w4) = tree D (os_fs w)" "tree D (os_fs w4) = (\<lambda>_. None)"
      using t4 Inr by auto
    show ?thesis
    proof (cases r5)
      case (Inr u')
      then show ?thesis using run [unfolded exchange_def Let_def, folded old] 4 5 \<open>r4 = Inr u\<close> t5 S4 rm [OF aside(3)] by (auto simp: swapped_def)
    next
      case (Inl e)
      obtain r6 w6 where 6: "os_rename old dst w5 = (r6, w6)" by (metis surj_pair)
      note t6 = rename_trees [OF 6, unfolded par aside, OF parallel_sym [OF D(2)]]
      have fs5: "os_fs w5 = os_fs w4" using t5 Inl by auto
      have res: "r = Inl e" "w' = w6" using run [unfolded exchange_def Let_def, folded old] 4 5 6 Inl \<open>r4 = Inr u\<close> by auto
      have O': "strict_prefix B ?O" "?O \<parallel> butlast ?S"
        using am by (auto simp: strict_prefix_def parallel_def butlast_append)
      show ?thesis
        using t6 fs5 D4 res O' by (cases r6) (auto simp: swapped_def intro: exI [of _ ?O])
    qed
  qed
qed

lemma swap_in_swapped:
  assumes dst: "path_comps dst = D" "path_comps (path_dir dst) = butlast D" "D \<parallel> path_comps base"
    and base: "good_root base"
    and staged: "path_comps staged = path_comps base @ [nm, payload_name]"
      "get (os_fs w) (path_comps base @ [nm]) \<noteq> None"
    and run: "swap_in base staged dst w = (r, w')"
  shows "swapped D (path_comps base) (path_comps base @ [nm, payload_name]) r (os_fs w) (os_fs w')"
proof -
  let ?B = "path_comps base" and ?S = "path_comps base @ [nm, payload_name]"
  have DS: "D \<parallel> ?S" using dst(3) by (simp add: parallel_below)
  have "D \<noteq> []" using dst(3) by (auto simp: parallel_def)
  then have dir1: "\<not> prefix D (butlast D)"
    using prefix_length_le [of D "butlast D"] by (auto simp flip: length_greater_0_conv)
  have dir2: "\<not> prefix (?B @ x) (butlast D)" for x
    using dst(3) prefixeq_butlast [of D] by (meson append_prefixD parallel_def prefix_order.trans)
  note dir = dir1 dir2
  obtain r1 w1 where 1: "os_mkdir_all (path_dir dst) w = (r1, w1)" by (metis surj_pair)
  have same1: "tree D (os_fs w1) = tree D (os_fs w)" "tree ?S (os_fs w1) = tree ?S (os_fs w)"
      "tree (?B @ [nm]) (os_fs w1) = tree (?B @ [nm]) (os_fs w)"
    using mkdir_all_subtree [OF _ 1] dst(2) dir by (auto intro!: tree_subtree)
  show ?thesis
  proof (cases r1)
    case (Inl e)
    then show ?thesis using run 1 same1 by (auto simp: swap_in_def swapped_def)
  next
    case (Inr u)
    obtain r2 w2 where 2: "os_stat dst w1 = (r2, w2)" by (metis surj_pair)
    note fs2 = read_fs(1) [OF 2]
    show ?thesis
    proof (cases r2)
      case (Inl e)
      then have "os_rename staged dst w2 = (r, w')" using run 1 2 Inr by (simp add: swap_in_def)
      from rename_trees [OF this, unfolded staged dst, OF parallel_sym [OF DS]] show ?thesis
        using fs2 same1 by (cases r) (auto simp: swapped_def)
    next
      case (Inr n)
      obtain r3 w3 where 3: "os_mkdir_temp base ''old-'' w2 = (r3, w3)" by (metis surj_pair)
      show ?thesis
      proof (cases r3)
        case (Inl e)
        then have "os_fs w3 = os_fs w2" using mkdir_temp_result [OF 3] by (auto simp: Let_def)
        then show ?thesis using run 1 2 3 Inl Inr \<open>r1 = Inr u\<close> fs2 same1
          by (auto simp: swap_in_def swapped_def)
      next
        case (Inr aside)
        from mkdir_temp_result [OF 3] Inr obtain i where
          i: "aside = path_join [base, ''old-'' @ decimal i]" "get (os_fs w2) (?B @ [''old-'' @ decimal i]) = None"
          and keep: "\<And>p. \<not> prefix p (?B @ [''old-'' @ decimal i]) \<Longrightarrow> subtree p (os_fs w3) = subtree p (os_fs w2)"
          by (auto simp: Let_def)
        let ?am = "''old-'' @ decimal i"
        let ?old = "path_join [aside, payload_name]"
        note pl = plain_names(3) [of i]
        have A: "path_comps aside = ?B @ [?am]" "good_root aside"
          unfolding i(1) by (rule join1_comps [OF base pl], rule join1_good [OF base pl])
        have O: "path_comps ?old = ?B @ [?am, payload_name]"
          using join1_comps [OF A(2) plain_names(2)] A(1) by simp
        have OD: "path_comps (path_dir ?old) = ?B @ [?am]"
          using path_dir_join2 [OF A(2), of "[payload_name]"] plain_names(2) A(1) by simp
        have "get (os_fs w2) (?B @ [nm]) \<noteq> None"
          using same1(3) fs2 staged(2) by (auto simp: tree_def dest!: fun_cong [where x = "[]"])
        then have am: "?am \<noteq> nm" using i(2) by auto
        have same3: "tree D (os_fs w3) = tree D (os_fs w2)" "tree ?S (os_fs w3) = tree ?S (os_fs w2)"
          using keep parallel_below [OF dst(3), of "[?am]"] by (auto intro!: tree_subtree simp: parallel_def)
        show ?thesis
          using swap_aside [OF dst(3,1) staged(1) refl A(1) O OD am, of w3 r w'] run 1 2 3 Inr
            \<open>r1 = Inr u\<close> \<open>r2 = Inr n\<close> same3 same1 fs2
          by (simp add: swap_in_def Let_def swapped_def)
      qed
    qed
  qed
qed

subsection \<open>Bookkeeping leaves the mirror's trees alone\<close>

definition index_apart :: "mirror \<Rightarrow> bool" where
  "index_apart m \<longleftrightarrow> good_file (ix_path (mir_idx m)) \<and>
     path_comps (mir_root m) \<parallel> path_comps (ix_path (mir_idx m)) \<and>
     path_comps (mir_root m) \<parallel> path_comps (tmp_of (ix_path (mir_idx m)))"

definition ix_file_apart :: "index \<Rightarrow> path \<Rightarrow> bool" where
  "ix_file_apart ix p \<longleftrightarrow> good_file (ix_path ix) \<and>
     p \<parallel> path_comps (ix_path ix) \<and> p \<parallel> path_comps (tmp_of (ix_path ix))"

lemma ix_file_apart_ops [simp]:
  "ix_file_apart (put_entry k e ix) = ix_file_apart ix" "ix_file_apart (drop_entries P ix) = ix_file_apart ix"
  by (simp_all add: ix_file_apart_def fun_eq_iff)

lemma index_apart_slot:
  "index_apart m \<Longrightarrow> prefix (path_comps (mir_root m)) p \<Longrightarrow> ix_file_apart (mir_idx m) p"
  by (auto simp: index_apart_def ix_file_apart_def prefix_def intro: parallel_sym parallel_below)

lemma index_save_subtree:
  assumes "ix_file_apart ix p" "index_save enc ix w = (r, w')"
  shows "subtree p (os_fs w') = subtree p (os_fs w)"
proof (cases "enc (ix_entries ix)")
  case (Inl e)
  then show ?thesis using assms(2) by (simp add: index_save_def)
next
  case (Inr b)
  let ?t = "tmp_of (ix_path ix)"
  have par: "path_comps ?t \<parallel> path_comps (ix_path ix)"
    using assms(1) by (auto simp: ix_file_apart_def parallel_def elim!: good_file_comps)
  obtain r1 w1 where 1: "os_write_file ?t b w = (r1, w1)" by (metis surj_pair)
  have "subtree p (os_fs w1) = subtree p (os_fs w)"
    using write_file_subtree [OF 1, of p] assms(1) by (simp add: ix_file_apart_def parallel_def)
  moreover have "os_rename ?t (ix_path ix) w1 = (r, w') \<Longrightarrow> subtree p (os_fs w') = subtree p (os_fs w1)"
    using rename_trees [OF _ par] assms(1) by (auto simp: ix_file_apart_def)
  ultimately show ?thesis
    using assms(2) 1 Inr by (cases r1) (auto simp: index_save_def Let_def)
qed

lemma ix_ops_subtree:
  assumes "ix_file_apart ix p"
  shows "ix_record enc k d sz t ix w = (r, ix', w') \<Longrightarrow> subtree p (os_fs w') = subtree p (os_fs w)"
    and "ix_drop enc P ix w = (r, ix', w') \<Longrightarrow> subtree p (os_fs w') = subtree p (os_fs w)"
    and "ix_delete enc k ix w = (r, ix', w') \<Longrightarrow> subtree p (os_fs w') = subtree p (os_fs w)"
    and "ix_touch enc k ix w = (r, ix', w') \<Longrightarrow> subtree p (os_fs w') = subtree p (os_fs w)"
  using assms
  by (auto simp: ix_record_def ix_drop_def ix_delete_def ix_touch_def Let_def
      split: prod.splits option.splits if_splits
      dest!: time_now_fs index_save_subtree [where p = p, rotated])

lemma sync_stamp_fs: "sync_stamp dst dir w = (st, w') \<Longrightarrow> os_fs w' = os_fs w"
  by (auto simp: sync_stamp_def dir_fingerprint_def Let_def
      split: prod.splits if_splits sum.splits option.splits dest!: time_now_fs read_fs env_step_fs)

lemma promote_cases:
  assumes "promote enc m staged k dir w = (r, m', w')"
  obtains (failed) e where "swap_in (staging_base m) staged (m_abs m k) w = (Inl e, w')" "r = Inl e" "m' = m"
  | (moved) w1 sz t w2 u ix1 w3 ix2 where
      "swap_in (staging_base m) staged (m_abs m k) w = (Inr (), w1)"
      "sync_stamp (m_abs m k) dir w1 = ((sz, t), w2)"
      "ix_drop enc (if dir then (\<lambda>k' _. below k k') else (\<lambda>k' e. ent_dir e \<and> below k' k)) (mir_idx m) w2 = (u, ix1, w3)"
      "ix_record enc k dir sz t ix1 w3 = (r, ix2, w')" "m' = m\<lparr>mir_idx := ix2\<rparr>"
  using assms
  by (auto simp: promote_def delete_descendants_of_def delete_ancestor_dirs_of_def
      split: prod.splits sum.splits if_splits)

lemma ix_drop_result: "ix_drop enc P ix w = (r, ix', w') \<Longrightarrow> ix' = drop_entries P ix"
  using ix_drop_index [of enc P ix w] by simp

lemma promote_swapped:
  assumes slot: "slot_of m l k" "index_apart m" "plain nm" "get (os_fs w) (base_comps m @ [nm]) \<noteq> None"
    and run: "swap_in (staging_base m) (staged_path m nm) (m_abs m k) w = (r, w')"
  shows "swapped (slot_comps m k) (base_comps m) (base_comps m @ [nm, payload_name]) r (os_fs w) (os_fs w')"
proof -
  have g: "good_root (mir_root m)" using slot(1) by (simp add: slot_of_def)
  obtain cs where "path_comps (path_dir (m_abs m k)) = butlast (slot_comps m k)" "slot_comps m k \<parallel> base_comps m"
    by (rule slot_of_comps [OF slot(1)])
  then show ?thesis
    using swap_in_swapped [of "m_abs m k" "slot_comps m k" "staging_base m" "staged_path m nm" nm w r w']
      run slot(3,4) g
    by (simp add: base_comps base_good staged_comps slot_comps_def)
qed

lemma promote_outcome:
  assumes "slot_of m l k" and "index_apart m" and "plain nm"
    and "get (os_fs w) (base_comps m @ [nm]) \<noteq> None"
    and "promote enc m (staged_path m nm) k dir w = (r, m', w')"
  shows "tree (slot_comps m k) (os_fs w') = tree (base_comps m @ [nm, payload_name]) (os_fs w) \<or>
    \<not> succeeds r \<and> tree (slot_comps m k) (os_fs w') = tree (slot_comps m k) (os_fs w) \<or>
    \<not> succeeds r \<and> tree (slot_comps m k) (os_fs w') = (\<lambda>_. None) \<and>
      (\<exists>q. strict_prefix (base_comps m) q \<and> q \<parallel> base_comps m @ [nm] \<and> tree q (os_fs w') = tree (slot_comps m k) (os_fs w))"
  using assms(5)
proof (cases rule: promote_cases)
  case (failed e)
  then show ?thesis using promote_swapped [OF assms(1-4)] by (auto simp: swapped_def butlast_append)
next
  case (moved w1 sz t w2 u ix1 w3 ix2)
  have "prefix (path_comps (mir_root m)) (slot_comps m k)"
    by (rule slot_of_comps [OF assms(1)]) simp
  then have apart: "ix_file_apart (mir_idx m) (slot_comps m k)" by (rule index_apart_slot [OF assms(2)])
  then have "ix_file_apart ix1 (slot_comps m k)" using ix_drop_result [OF moved(3)] by simp
  with moved(3,4) apart have "subtree (slot_comps m k) (os_fs w') = subtree (slot_comps m k) (os_fs w2)"
    by (simp add: ix_ops_subtree)
  then have "tree (slot_comps m k) (os_fs w') = tree (slot_comps m k) (os_fs w2)" by (rule tree_subtree)
  then show ?thesis
    using promote_swapped [OF assms(1-4) moved(1)] sync_stamp_fs [OF moved(2)] by (simp add: swapped_def butlast_append)
qed

subsection \<open>The guard\<close>

lemma locally_modified_fs: "os_fs (snd (locally_modified e p w)) = os_fs w"
  by (auto simp: locally_modified_def dir_fingerprint_def Let_def
      split: prod.splits sum.splits option.splits if_splits node.splits dest!: read_fs env_step_fs)

lemma check_entries_iff:
  assumes "os_sched w = []"
  shows "check_entries root es w =
    (if \<exists>e \<in> set es. diverged e (path_comps (mirror_abs root (ent_rel e))) (os_fs w)
     then Inl LocallyModifiedCopy else Inr (), w)"
proof (induction es)
  case (Cons e es)
  then show ?case
    using locally_modified_diverged [OF assms, of e "mirror_abs root (ent_rel e)"]
      locally_modified_world [OF assms, of e "mirror_abs root (ent_rel e)"]
    by (cases "locally_modified e (mirror_abs root (ent_rel e)) w") auto
qed simp

lemma descendants_get:
  "index_ok ix \<Longrightarrow> set (descendants k ix) = {e. \<exists>k'. ix_get ix k' = Some e \<and> (k' = k \<or> below k k')}"
  by (auto simp: descendants_def ix_get_def index_ok_def image_iff dest: map_of_SomeD)

lemma quiet_calls:
  assumes "os_sched w = []"
  shows "os_mkdir_all s w = (ru, w') \<Longrightarrow> os_sched w' = []" "os_stat s w = (rn, w') \<Longrightarrow> os_sched w' = []"
    "os_mkdir_temp s p w = (rs, w') \<Longrightarrow> os_sched w' = []" "os_rename s q w = (ru, w') \<Longrightarrow> os_sched w' = []"
    "os_remove_all s w = (ru, w') \<Longrightarrow> os_sched w' = []" "time_now w = (t, w') \<Longrightarrow> w' = w"
    "os_write_file s b w = (ru, w') \<Longrightarrow> os_sched w' = []"
  using assms
  by (auto simp: os_call_defs time_now_def env_step_def Let_def split: prod.splits option.splits if_splits)

lemma swap_in_quiet:
  assumes "os_sched w = []" "swap_in base staged dst w = (r, w')"
  shows "os_sched w' = []"
  using assms
  by (auto simp: swap_in_def exchange_def bind_os_def Let_def split: prod.splits sum.splits
        dest!: quiet_calls [rotated])
     (metis prod.collapse quiet_calls(4,5))+

lemma stamp_not_diverged:
  assumes "os_sched w = []" "sync_stamp dst dir w = ((sz, t), w2)"
    and "subtree (path_comps dst) fs' = subtree (path_comps dst) (os_fs w)"
    and "ent_dir e = dir" "ent_size e = sz" "ent_sync_mod e = t"
  shows "\<not> diverged e (path_comps dst) fs'"
proof (cases "get (os_fs w) (path_comps dst)")
  case None
  then have "get fs' (path_comps dst) = None"
    using tree_subtree [OF assms(3)] by (auto simp: tree_def dest: fun_cong [where x = "[]"])
  then show ?thesis by (simp add: diverged_def Let_def)
next
  case (Some n)
  let ?p = "path_comps dst" and ?ts = "map (\<lambda>(_, n). mtime n) (walk (path_comps dst) (os_fs w))"
  have n': "get fs' ?p = Some n"
    using tree_subtree [OF assms(3)] Some by (auto simp: tree_def dest: fun_cong [where x = "[]"])
  have two: "u \<le> time_add u (2 * second)" for u by (simp add: time_defs second_def)
  show ?thesis
  proof (cases dir)
    case True
    have z: "zero_time \<le> fold max ?ts zero_time" and u: "u \<in> set ?ts \<Longrightarrow> u \<le> fold max ?ts zero_time" for u
      using fold_max_less [of "fold max ?ts zero_time" ?ts zero_time] by (auto simp: not_less [symmetric])
    have t: "sz = i64 (tree_bytes ?p (os_fs w))" "t = fold max ?ts zero_time"
      using assms(1,2) True dir_fingerprint_ok [OF assms(1), of dst] Some quiet_calls(6) [OF assms(1)]
      by (auto simp: sync_stamp_def split: prod.splits)
    have "mtime k \<in> set ?ts" if "(q, k) \<in> set fs'" "prefix ?p q" for q k
    proof -
      have "(q, k) \<in> set (subtree ?p fs')" using that by (simp add: subtree_def)
      then have "(q, k) \<in> set (walk ?p (os_fs w))" using assms(3) by (simp add: walk_def)
      then show ?thesis by force
    qed
    then have "\<not> time_add t (2 * second) < mtime k" if "(q, k) \<in> set fs'" "prefix ?p q" for q k
      using u that t(2) two by (meson not_less order.trans)
    moreover have "\<not> time_add t (2 * second) < zero_time" using z t(2) two by (meson not_less order.trans)
    moreover have "tree_bytes ?p fs' = tree_bytes ?p (os_fs w)" using assms(3) by (simp add: tree_bytes_def)
    ultimately show ?thesis using assms(4-6) True n' t(1) by (auto simp: diverged_def Let_def)
  next
    case False
    then have "sz = size_of n \<and> t = mtime n"
      using assms(1,2) Some quiet_calls(6) [OF assms(1)]
      by (auto simp: sync_stamp_def os_stat_def env_step_def split: prod.splits)
    then show ?thesis using assms(4-6) False n' two [of "mtime n"] by (auto simp: diverged_def Let_def not_less)
  qed
qed

lemma index_save_quiet: "index_save enc ix w = (r, w') \<Longrightarrow> os_sched w = [] \<Longrightarrow> os_sched w' = []"
  by (auto simp: index_save_def bind_os_def Let_def split: prod.splits sum.splits dest: quiet_calls [rotated])

lemma index_ops_quiet:
  assumes "os_sched w = []"
  shows "ix_record enc k d sz t ix w = (r, ix', w') \<Longrightarrow> os_sched w' = []"
    and "ix_drop enc P ix w = (r, ix', w') \<Longrightarrow> os_sched w' = []"
    and "sync_stamp dst dir w = (st, w') \<Longrightarrow> os_sched w' = []"
  using assms
  by (auto simp: ix_record_def ix_drop_def sync_stamp_def dir_fingerprint_def os_stat_def time_now_def
      env_step_def Let_def split: prod.splits if_splits option.splits sum.splits dest!: index_save_quiet)

lemma below_trans: "below p q \<Longrightarrow> below q r \<Longrightarrow> below p r"
  by (auto simp: below_def has_prefix_def prefix_def)

lemma below_irrefl: "\<not> below p p"
  by (auto simp: below_def has_prefix_def prefix_def)

lemma slot_key: "slot_of m l k \<Longrightarrow> slot_comps m k = path_comps (mir_root m) @ split_on slash k"
proof -
  assume s: "slot_of m l k"
  then obtain p where g: "good_root (mir_root m)" "valid_label l" and r: "rel l p = Inr k"
    by (auto simp: slot_of_def)
  note pl = valid_label_plain [OF g(2)]
  obtain cs where cs: "list_all plain cs" "k = join_with slash (l # cs)" by (rule rel_comps [OF pl r])
  then have "list_all plain (l # cs)" using pl by simp
  with mirror_abs_comps [OF g(1) this] cs(2) show ?thesis
    by (simp add: slot_comps_def m_abs_def split_join_plain)
qed

lemma slot_below:
  "slot_of m l k \<Longrightarrow> slot_of m l' k' \<Longrightarrow> below k k' \<Longrightarrow> \<exists>y. y \<noteq> [] \<and> slot_comps m k' = slot_comps m k @ y"
proof -
  assume s: "slot_of m l k" "slot_of m l' k'" "below k k'"
  then obtain x where "k' = k @ slash # x"
    by (auto simp: below_def has_prefix_def prefix_def slash_def)
  then show ?thesis using slot_key [OF s(1)] slot_key [OF s(2)]
    by (intro exI [of _ "split_on slash x"]) (simp add: split_on_append)
qed

text \<open>A small world for the examples: a mirror \<open>/m\<close>, its index in \<open>/s\<close>, one staged file.\<close>

definition demo_mirror :: mirror where
  "demo_mirror = \<lparr>mir_root = ''/m'', mir_idx = \<lparr>ix_path = ''/s/i'', ix_entries = []\<rparr>\<rparr>"

definition demo_os :: os where
  "demo_os = \<lparr>os_fs =
     [([''m''], Dir zero_time), ([''m'', ''h''], Dir zero_time), ([''m'', ''h'', ''x''], File ''old'' zero_time False),
      ([''m'', ''.staging''], Dir zero_time), ([''m'', ''.staging'', ''req-0''], Dir zero_time),
      ([''m'', ''.staging'', ''req-0'', ''payload''], File ''new'' zero_time False), ([''s''], Dir zero_time)],
    os_now = zero_time, os_sched = []\<rparr>"

lemma demo_slot: "slot_of demo_mirror ''h'' ''h/x''"
proof -
  have "good_root ''/m''" by (simp add: good_root_def path_comps_def slash_def plain_def)
  moreover have "valid_label ''h''" by (simp add: valid_label_iff in_cls_def label_head_def)
  moreover have "rel ''h'' ''/x'' = Inr ''h/x''" by code_simp
  ultimately show ?thesis by (auto simp: slot_of_def demo_mirror_def)
qed

lemma demo_apart: "index_apart demo_mirror"
  by (simp add: index_apart_def demo_mirror_def good_file_def tmp_of_def path_comps_def slash_def plain_def parallel_def)

lemma demo_comps:
  "base_comps demo_mirror = [''m'', ''.staging'']" "slot_comps demo_mirror ''h/x'' = [''m'', ''h'', ''x'']"
  by (simp add: base_comps_def demo_mirror_def path_comps_def slash_def staging_name_def)
     (simp add: slot_comps_def m_abs_def mirror_abs_def demo_mirror_def path_join_def path_clean_def
       path_comps_def slash_def)

lemma demo_promote: "succeeds (fst (promote (\<lambda>_. Inr ''{}'') demo_mirror (staged_path demo_mirror ''req-0'') ''h/x'' False demo_os))"
  by code_simp

subsection \<open>Properties\<close>

text \<open>
  C6: \<open>Promote\<close> replaces the slot as a whole. When it reports success the slot holds exactly the
  staged tree; whatever call failed on the way, the slot holds the staged tree, or the tree it held
  before, or it is empty and the old tree lies whole under the staging area.
\<close>

theorem promote_atomic:
  assumes "slot_of m l k" and "index_apart m" and "plain nm"
    and "get (os_fs w) (base_comps m @ [nm]) \<noteq> None"
    and "promote enc m (staged_path m nm) k dir w = (r, m', w')"
  shows "tree (slot_comps m k) (os_fs w') = tree (base_comps m @ [nm, payload_name]) (os_fs w) \<or>
    \<not> succeeds r \<and> tree (slot_comps m k) (os_fs w') = tree (slot_comps m k) (os_fs w) \<or>
    \<not> succeeds r \<and> tree (slot_comps m k) (os_fs w') = (\<lambda>_. None) \<and>
      (\<exists>q. strict_prefix (base_comps m) q \<and> tree q (os_fs w') = tree (slot_comps m k) (os_fs w))"
  using promote_outcome [OF assms] by blast

theorem promote_atomic_witness:
  "tree [''m'', ''h'', ''x''] (os_fs (snd (snd (promote (\<lambda>_. Inr ''{}'') demo_mirror
      (staged_path demo_mirror ''req-0'') ''h/x'' False demo_os)))) [] = Some (File ''new'' zero_time False)"
proof -
  obtain r m' w' where run: "promote (\<lambda>_. Inr ''{}'') demo_mirror (staged_path demo_mirror ''req-0'')
      ''h/x'' False demo_os = (r, m', w')" by (metis surj_pair)
  then have "succeeds r" using demo_promote by simp
  moreover have "plain ''req-0''" by (simp add: plain_def slash_def)
  moreover have "get (os_fs demo_os) (base_comps demo_mirror @ [''req-0'']) \<noteq> None"
    by (simp add: demo_comps demo_os_def get_def)
  ultimately have "tree (slot_comps demo_mirror ''h/x'') (os_fs w') =
      tree (base_comps demo_mirror @ [''req-0'', payload_name]) (os_fs demo_os)"
    using promote_atomic [OF demo_slot demo_apart _ _ run] by blast
  then show ?thesis
    using run by (simp add: demo_comps demo_os_def payload_name_def tree_def get_def)
qed

text \<open>
  C24: after a successful \<open>Promote\<close> the index holds an entry for the slot and stays well formed; a
  directory leaves no entry below it, a file leaves no directory entry above it, and no other entry
  changes.
\<close>

theorem promote_index:
  assumes "index_ok (mir_idx m)" and "promote enc m staged k dir w = (Inr (), m', w')"
  shows "index_ok (mir_idx m') \<and> (\<exists>e. ix_get (mir_idx m') k = Some e \<and> ent_dir e = dir) \<and>
    (\<forall>k'. k' \<noteq> k \<longrightarrow> ix_get (mir_idx m') k' =
       (case ix_get (mir_idx m) k' of
          None \<Rightarrow> None
        | Some e \<Rightarrow> if (if dir then below k k' else ent_dir e \<and> below k' k) then None else Some e))"
  using assms(2)
proof (cases rule: promote_cases)
  case (moved w1 sz t w2 u ix1 w3 ix2)
  obtain now where ix2: "ix2 = put_entry k \<lparr>ent_rel = k, ent_dir = dir, ent_size = sz, ent_sync_mod = t,
       ent_last_sync = now, ent_last_used = now\<rparr> ix1"
    using ix_record_index [of enc k dir sz t ix1 w3] moved(4) by auto
  note ix1 = ix_drop_result [OF moved(3)]
  have ok: "index_ok ix2" unfolding ix2 ix1 by (rule ix.after_ok [OF assms(1)]) simp
  have others: "ix_get ix2 k' = (case ix_get (mir_idx m) k' of
          None \<Rightarrow> None
        | Some e \<Rightarrow> if (if dir then below k k' else ent_dir e \<and> below k' k) then None else Some e)" if "k' \<noteq> k" for k'
    using ix.after_dir [OF assms(1) that] ix.after_file [OF assms(1) that] unfolding ix2 ix1
    by (cases dir) (auto split: option.split)
  show ?thesis
    using ok others ix.look_enter moved(5) by (auto simp: ix2)
qed simp

theorem promote_index_witness:
  "\<exists>e. ix_get (mir_idx (fst (snd (promote (\<lambda>_. Inr ''{}'') demo_mirror
      (staged_path demo_mirror ''req-0'') ''h/x'' False demo_os)))) ''h/x'' = Some e \<and> \<not> ent_dir e"
proof -
  obtain r m' w' where run: "promote (\<lambda>_. Inr ''{}'') demo_mirror (staged_path demo_mirror ''req-0'')
      ''h/x'' False demo_os = (r, m', w')" by (metis surj_pair)
  then have r: "r = Inr ()" using demo_promote by (cases r) auto
  have "index_ok (mir_idx demo_mirror)" by (simp add: demo_mirror_def index_ok_def)
  from promote_index [OF this run [unfolded r]] run show ?thesis by auto
qed

text \<open>
  C15: with no failing call, the overwrite guard refuses exactly when \<open>force\<close> is off and some entry
  at or below the slot has diverged on disk from what was synced; nothing is changed by asking.
\<close>

theorem check_overwrite_exact:
  assumes "os_sched w = []" and "index_ok (mir_idx m)"
  shows "check_overwrite m k force w =
    (if \<not> force \<and> (\<exists>k' e. ix_get (mir_idx m) k' = Some e \<and> (k' = k \<or> below k k') \<and>
          diverged e (path_comps (m_abs m k')) (os_fs w))
     then Inl LocallyModifiedCopy else Inr (), w)"
proof -
  have "ix_get (mir_idx m) k' = Some e \<Longrightarrow> ent_rel e = k'" for k' e
    using assms(2) by (auto simp: index_ok_def ix_get_def list_all_iff dest: map_of_SomeD)
  then have "(\<exists>e \<in> set (descendants k (mir_idx m)). diverged e (path_comps (mirror_abs (mir_root m) (ent_rel e))) (os_fs w)) \<longleftrightarrow>
      (\<exists>k' e. ix_get (mir_idx m) k' = Some e \<and> (k' = k \<or> below k k') \<and> diverged e (path_comps (m_abs m k')) (os_fs w))"
    unfolding descendants_get [OF assms(2)] m_abs_def by blast
  then show ?thesis by (simp add: check_overwrite_def check_entries_iff [OF assms(1)])
qed

definition demo_entry :: "string \<Rightarrow> bool \<Rightarrow> entry" where
  "demo_entry k d = \<lparr>ent_rel = k, ent_dir = d, ent_size = 3, ent_sync_mod = zero_time,
     ent_last_sync = zero_time, ent_last_used = zero_time\<rparr>"

text \<open>A directory synced as a whole whose file \<open>x\<close> was edited an hour later.\<close>

definition edited_mirror :: mirror where
  "edited_mirror = \<lparr>mir_root = ''/m'', mir_idx = \<lparr>ix_path = ''/s/i'', ix_entries = [(''h/d'', demo_entry ''h/d'' True)]\<rparr>\<rparr>"

definition edited_os :: os where
  "edited_os = \<lparr>os_fs =
     [([''m''], Dir zero_time), ([''m'', ''h''], Dir zero_time), ([''m'', ''h'', ''d''], Dir zero_time),
      ([''m'', ''h'', ''d'', ''x''], File ''new'' (time_add zero_time hour) False)],
    os_now = time_add zero_time hour, os_sched = []\<rparr>"

theorem check_overwrite_exact_witness:
  "check_overwrite edited_mirror ''h/d'' False edited_os = (Inl LocallyModifiedCopy, edited_os)"
proof -
  have "diverged (demo_entry ''h/d'' True) (path_comps (m_abs edited_mirror ''h/d'')) (os_fs edited_os)"
    by code_simp
  moreover have "index_ok (mir_idx edited_mirror)"
    by (simp add: index_ok_def edited_mirror_def demo_entry_def)
  moreover have "ix_get (mir_idx edited_mirror) ''h/d'' = Some (demo_entry ''h/d'' True)"
    by (simp add: ix_get_def edited_mirror_def)
  moreover have "os_sched edited_os = []" by (simp add: edited_os_def)
  ultimately show ?thesis using check_overwrite_exact by fastforce
qed

text \<open>
  C38: the guard looks at the slot and below it only. Once a directory has been synced as a whole no
  path inside it has an entry of its own, so for each of them the guard passes in every later state
  of the disk, whatever was edited there; also in a state in which it refuses the directory itself.
\<close>

theorem guard_misses_enclosing_dir:
  assumes "index_ok (mir_idx m)" and "promote enc m staged k True w = (Inr (), m', w')" and "below k k'"
  shows "check_overwrite m' k' False later = (Inr (), later) \<and>
    (\<exists>e. ix_get (mir_idx m') k = Some e \<and>
       (os_sched later = [] \<and> diverged e (path_comps (m_abs m' k)) (os_fs later) \<longrightarrow>
        check_overwrite m' k False later = (Inl LocallyModifiedCopy, later)))"
  using assms(2)
proof (cases rule: promote_cases)
  case (moved w1 sz t w2 u ix1 w3 ix2)
  obtain now where ix2: "ix2 = put_entry k \<lparr>ent_rel = k, ent_dir = True, ent_size = sz, ent_sync_mod = t,
       ent_last_sync = now, ent_last_used = now\<rparr> ix1" (is "_ = put_entry k ?e ix1")
    using ix_record_index [of enc k True sz t ix1 w3] moved(4) by auto
  have ix1: "ix1 = drop_entries (\<lambda>k' _. below k k') (mir_idx m)" using ix_drop_result [OF moved(3)] by simp
  have ok: "index_ok ix2" unfolding ix2 ix1 by (rule ix.after_ok [OF assms(1)]) simp
  have "ix_get ix2 q = None" if "q = k' \<or> below k' q" for q
  proof -
    have "below k q" using that assms(3) below_trans by blast
    then have "q \<noteq> k" "below k q" by (auto simp: below_irrefl)
    then show ?thesis using ix.after_dir [OF assms(1) \<open>q \<noteq> k\<close>] by (simp add: ix2 ix1 split: option.split)
  qed
  then have "set (descendants k' ix2) = {}" unfolding descendants_get [OF ok, of k'] by auto
  then have "check_overwrite m' k' False later = (Inr (), later)"
    using moved(5) by (simp add: check_overwrite_def)
  moreover have get: "ix_get ix2 k = Some ?e" unfolding ix2 by (simp add: ix.look_enter)
  then have "?e \<in> set (descendants k ix2)" using descendants_get [OF ok, of k] by blast
  then have "os_sched later = [] \<and> diverged ?e (path_comps (m_abs m' k)) (os_fs later) \<longrightarrow>
      check_overwrite m' k False later = (Inl LocallyModifiedCopy, later)"
    using moved(5) by (auto simp: check_overwrite_def check_entries_iff m_abs_def)
  ultimately show ?thesis using get moved(5) by auto
qed simp

definition staged_dir_os :: os where
  "staged_dir_os = \<lparr>os_fs =
     [([''m''], Dir zero_time), ([''m'', ''.staging''], Dir zero_time), ([''m'', ''.staging'', ''req-0''], Dir zero_time),
      ([''m'', ''.staging'', ''req-0'', ''payload''], Dir zero_time),
      ([''m'', ''.staging'', ''req-0'', ''payload'', ''x''], File ''new'' zero_time False), ([''s''], Dir zero_time)],
    os_now = zero_time, os_sched = []\<rparr>"

lemma demo_dir_promote:
  "succeeds (fst (promote (\<lambda>_. Inr ''{}'') demo_mirror (staged_path demo_mirror ''req-0'') ''h/d'' True staged_dir_os))"
  by code_simp

lemma demo_dir_guard:
  "fst (check_overwrite (fst (snd (promote (\<lambda>_. Inr ''{}'') demo_mirror (staged_path demo_mirror ''req-0'') ''h/d'' True staged_dir_os)))
     ''h/d'' False edited_os) = Inl LocallyModifiedCopy"
  by code_simp

theorem guard_misses_enclosing_dir_witness:
  "case promote (\<lambda>_. Inr ''{}'') demo_mirror (staged_path demo_mirror ''req-0'') ''h/d'' True staged_dir_os of (_, m', _) \<Rightarrow>
     check_overwrite m' ''h/d/x'' False edited_os = (Inr (), edited_os) \<and>
     fst (check_overwrite m' ''h/d'' False edited_os) = Inl LocallyModifiedCopy"
proof -
  obtain r m' w' where run: "promote (\<lambda>_. Inr ''{}'') demo_mirror (staged_path demo_mirror ''req-0'')
      ''h/d'' True staged_dir_os = (r, m', w')" by (metis surj_pair)
  then have r: "r = Inr ()" using demo_dir_promote by (cases r) auto
  have "index_ok (mir_idx demo_mirror)" by (simp add: demo_mirror_def index_ok_def)
  moreover have "below ''h/d'' ''h/d/x''" by (simp add: below_def has_prefix_def)
  ultimately have "check_overwrite m' ''h/d/x'' False edited_os = (Inr (), edited_os)"
    using guard_misses_enclosing_dir [OF _ run [unfolded r]] by blast
  then show ?thesis using run demo_dir_guard by simp
qed

text \<open>
  C25: right after a successful \<open>Promote\<close> in which no call failed, the guard lets the same slot be
  overwritten again: what the program wrote itself is never taken for a local modification, also
  with entries of an older copy still in the index.
\<close>

theorem promote_then_guard_passes:
  assumes "slot_of m l k" and "index_apart m" and "index_ok (mir_idx m)"
    and "\<forall>k' e. ix_get (mir_idx m) k' = Some e \<longrightarrow> (\<exists>l'. slot_of m l' k')"
    and "plain nm" and "get (os_fs w) (base_comps m @ [nm]) \<noteq> None" and "os_sched w = []"
    and "dir \<or> (\<forall>q. q \<noteq> [] \<longrightarrow> tree (base_comps m @ [nm, payload_name]) (os_fs w) q = None)"
    and "promote enc m (staged_path m nm) k dir w = (Inr (), m', w')"
  shows "check_overwrite m' k False w' = (Inr (), w')"
  using assms(9)
proof (cases rule: promote_cases)
  case (moved w1 sz t w2 u ix1 w3 ix2)
  let ?D = "slot_comps m k"
  note ix1 = ix_drop_result [OF moved(3)]
  obtain now where ix2: "ix2 = put_entry k \<lparr>ent_rel = k, ent_dir = dir, ent_size = sz, ent_sync_mod = t,
       ent_last_sync = now, ent_last_used = now\<rparr> ix1"
    using ix_record_index [of enc k dir sz t ix1 w3] moved(4) by auto
  note quiet1 = swap_in_quiet [OF assms(7) moved(1)]
  note quiet2 = index_ops_quiet(1) [OF index_ops_quiet(2) [OF index_ops_quiet(3) [OF quiet1 moved(2)] moved(3)] moved(4)]
  note quiet = quiet1 quiet2
  have "prefix (path_comps (mir_root m)) ?D" by (rule slot_of_comps [OF assms(1)]) simp
  then have apart: "ix_file_apart (mir_idx m) ?D" by (rule index_apart_slot [OF assms(2)])
  then have "ix_file_apart ix1 ?D" using ix1 by simp
  with moved(3,4) apart sync_stamp_fs [OF moved(2)] have same: "subtree ?D (os_fs w') = subtree ?D (os_fs w1)"
    by (simp add: ix_ops_subtree)
  have calm: "\<not> diverged e (path_comps (m_abs m' k')) (os_fs w')"
    if e: "ix_get ix2 k' = Some e" "k' = k \<or> below k k'" for k' e
  proof (cases "k' = k")
    case True
    have "\<not> diverged e (path_comps (m_abs m k)) (os_fs w')"
      by (rule stamp_not_diverged [OF quiet(1) moved(2)])
         (use same e(1) True ix.look_enter in \<open>auto simp: slot_comps_def ix2\<close>)
    then show ?thesis using moved(5) True by (simp add: m_abs_def)
  next
    case False
    with e have b: "below k k'" by simp
    have old: "ix_get (mir_idx m) k' = Some e" "\<not> dir"
      using e(1) False b ix.after_dir [OF assms(3) False] ix.after_file [OF assms(3) False]
      unfolding ix2 ix1 by (auto split: if_splits option.splits)
    then obtain l' where "slot_of m l' k'" using assms(4) by blast
    with slot_below [OF assms(1) _ b] obtain y where y: "y \<noteq> []" "slot_comps m k' = ?D @ y" by blast
    have "tree ?D (os_fs w') = tree ?D (os_fs w1)" by (rule tree_subtree [OF same])
    also have "\<dots> = tree (base_comps m @ [nm, payload_name]) (os_fs w)"
      using promote_swapped [OF assms(1,2,5,6) moved(1)] by (simp add: swapped_def)
    finally have "get (os_fs w') (slot_comps m k') = None"
      using assms(8) old(2) y by (auto simp: tree_def dest: fun_cong [where x = y])
    then show ?thesis using moved(5) by (simp add: slot_comps_def m_abs_def diverged_def Let_def)
  qed
  have "index_ok ix2" unfolding ix2 ix1 by (rule ix.after_ok [OF assms(3)]) simp
  moreover have "ix_get ix2 k' = Some e \<Longrightarrow> ent_rel e = k'" for k' e
    using \<open>index_ok ix2\<close> by (auto simp: index_ok_def ix_get_def list_all_iff dest: map_of_SomeD)
  ultimately show ?thesis
    using calm quiet(2) moved(5) descendants_get [of ix2 k]
    by (auto simp: check_overwrite_def check_entries_iff m_abs_def)
qed simp

theorem promote_then_guard_passes_witness:
  "case promote (\<lambda>_. Inr ''{}'') demo_mirror (staged_path demo_mirror ''req-0'') ''h/x'' False demo_os of
     (_, m', w') \<Rightarrow> check_overwrite m' ''h/x'' False w' = (Inr (), w')"
proof -
  obtain r m' w' where run: "promote (\<lambda>_. Inr ''{}'') demo_mirror (staged_path demo_mirror ''req-0'')
      ''h/x'' False demo_os = (r, m', w')" by (metis surj_pair)
  then have r: "r = Inr ()" using demo_promote by (cases r) auto
  have "check_overwrite m' ''h/x'' False w' = (Inr (), w')"
    by (rule promote_then_guard_passes [OF demo_slot demo_apart _ _ _ _ _ _ run [unfolded r]])
       (simp_all add: demo_comps demo_os_def get_def tree_def plain_def slash_def payload_name_def,
        simp_all add: demo_mirror_def index_ok_def ix_get_def)
  then show ?thesis using run by simp
qed

end
