(* ===== verification/Gc_Steps.thy ===== *)
theory Gc_Steps
  imports Promote
begin

text \<open>
  The steps of a collection, seen from the file system: how one turn of the loop over the candidates
  and one pass over the empty directories can go, and what all of them have in common when no call
  fails, that they only ever remove.
\<close>

subsection \<open>How a step goes\<close>

lemma read_dir_empty:
  assumes "os_read_dir f w = (Inr [], w')"
  shows "os_fs w' = os_fs w" "is_dir (get (os_fs w) (path_comps f))"
  using assms by (auto simp: os_read_dir_def env_step_fs split: prod.splits option.splits if_splits)

lemma prune_walk_cases:
  assumes "prune_walk m w = (b, w')"
  obtains (none) "os_fs w' = os_fs w" "\<not> b"
  | (pass) ps u where "os_fs u = os_fs w" "prune_pass ps u = (b, w')"
proof -
  obtain r w1 where 1: "os_stat (mir_root m) w = (r, w1)" by (metis surj_pair)
  obtain f w2 where 2: "env_step w1 = (f, w2)" by (metis surj_pair)
  have fs: "os_fs w1 = os_fs w" "os_fs w2 = os_fs w" using read_fs(1) [OF 1] env_step_fs [OF 2] by simp_all
  then show ?thesis using assms 1 2 pass [of w2] none
    by (auto simp: prune_walk_def Let_def split: sum.splits if_splits)
qed

lemma ix_delete_result: "ix_delete enc k ix w = (r, ix', w') \<Longrightarrow> ix' = drop_entries (\<lambda>k' _. k' = k) ix"
  using ix_delete_index [of enc k ix w] by simp

lemma gc_step_cases:
  assumes "gc_step enc lsof now ttl mx pinned e (res, tot, m, w) = (res', tot', m', w')"
  obtains (kept) "os_fs w' = os_fs w" "m' = m" "gc_removed res' = gc_removed res"
      "set (gc_retained res) \<subseteq> set (gc_retained res')"
  | (gone) w1 r ix where "os_fs w1 = os_fs w" "ix_delete enc (ent_rel e) (mir_idx m) w1 = (r, ix, w')"
      "m' = m\<lparr>mir_idx := ix\<rparr>" "res' = res" "label_of (ent_rel e) \<notin> set pinned"
  | (stuck) e' w1 where "os_fs w1 = os_fs w" "os_remove_all (m_abs m (ent_rel e)) w1 = (Inl e', w')" "m' = m"
      "res' = res" "label_of (ent_rel e) \<notin> set pinned"
  | (evicted) w1 w2 r ix where "os_fs w1 = os_fs w" "os_remove_all (m_abs m (ent_rel e)) w1 = (Inr (), w2)"
      "ix_delete enc (ent_rel e) (mir_idx m) w2 = (r, ix, w')" "m' = m\<lparr>mir_idx := ix\<rparr>"
      "gc_removed res' = gc_removed res @ [ent_rel e]" "gc_retained res' = gc_retained res" "label_of (ent_rel e) \<notin> set pinned"
proof (cases "(\<not> ttl < time_sub now (ent_last_used e) \<and> \<not> mx < tot) \<or> label_of (ent_rel e) \<in> set pinned")
  case True
  then have "(res', tot', m', w') = (res, tot, m, w)"
    using assms by (auto simp: gc_step_def Let_def split: if_splits)
  then show ?thesis by (intro kept) simp_all
next
  case False
  let ?f = "m_abs m (ent_rel e)"
  obtain r1 w1 where 1: "os_stat ?f w = (r1, w1)" by (metis surj_pair)
  note fs1 = read_fs(1) [OF 1]
  have pin: "label_of (ent_rel e) \<notin> set pinned" using False by simp
  have live: "(\<not> ttl < time_sub now (ent_last_used e) \<and> \<not> mx < tot) = False" using False by simp
  show ?thesis
  proof (cases r1)
    case (Inl x)
    obtain r ix w2 where 2: "ix_delete enc (ent_rel e) (mir_idx m) w1 = (r, ix, w2)" by (metis prod_cases3)
    have "(res', tot', m', w') = (res, tot, m\<lparr>mir_idx := ix\<rparr>, w2)"
      using assms pin live 1 2 Inl by (simp add: gc_step_def Let_def)
    with 2 fs1 pin show ?thesis by (intro gone) simp_all
  next
    case (Inr n)
    obtain b w2 where 2: "locally_modified e ?f w1 = (b, w2)" by (metis surj_pair)
    have fs2: "os_fs w2 = os_fs w" using locally_modified_fs [of e ?f w1] 2 fs1 by simp
    show ?thesis
    proof (cases "b \<or> file_in_use lsof ?f")
      case True
      then have "m' = m \<and> w' = w2 \<and> gc_removed res' = gc_removed res \<and> set (gc_retained res) \<subseteq> set (gc_retained res')"
        using assms pin live 1 2 Inr by (auto simp: gc_step_def Let_def split: if_splits)
      with fs2 show ?thesis by (intro kept) simp_all
    next
      case calm: False
      obtain r3 w3 where 3: "os_remove_all ?f w2 = (r3, w3)" by (metis surj_pair)
      show ?thesis
      proof (cases r3)
        case (Inl x)
        then have "(res', tot', m', w') = (res, tot, m, w3)"
          using assms pin live 1 2 3 Inr calm by (simp add: gc_step_def Let_def)
        with 3 Inl fs2 pin show ?thesis by (intro stuck [of w2 x]) simp_all
      next
        case (Inr u)
        obtain r ix w4 where 4: "ix_delete enc (ent_rel e) (mir_idx m) w3 = (r, ix, w4)" by (metis prod_cases3)
        have "m' = m\<lparr>mir_idx := ix\<rparr> \<and> w' = w4 \<and> gc_removed res' = gc_removed res @ [ent_rel e] \<and> gc_retained res' = gc_retained res"
          using assms pin live 1 2 3 4 \<open>r1 = Inr n\<close> Inr calm by (auto simp: gc_step_def Let_def)
        with 3 4 Inr fs2 pin show ?thesis by (intro evicted [of w2 w3 r ix]) simp_all
      qed
    qed
  qed
qed

subsection \<open>A turn in which no call fails\<close>

lemma gc_step_quiet:
  assumes q: "os_sched w = []"
    and run: "gc_step enc lsof now ttl mx pinned e (res, tot, m, w) = (res', tot', m', w')"
  obtains (kept) "w' = w" "m' = m" "tot' = tot" "gc_removed res' = gc_removed res"
      "set (gc_retained res) \<subseteq> set (gc_retained res')"
      "(\<not> ttl < time_sub now (ent_last_used e) \<and> \<not> mx < tot) \<or> label_of (ent_rel e) \<in> set pinned \<or>
       file_in_use lsof (m_abs m (ent_rel e)) \<or>
       diverged e (slot_comps m (ent_rel e)) (os_fs w) \<and> ent_rel e \<in> set (gc_retained res')"
  | (gone) r ix where "get (os_fs w) (slot_comps m (ent_rel e)) = None"
      "ix_delete enc (ent_rel e) (mir_idx m) w = (r, ix, w')" "m' = m\<lparr>mir_idx := ix\<rparr>" "res' = res" "tot' = tot"
      "label_of (ent_rel e) \<notin> set pinned"
  | (evicted) w1 r ix where "get (os_fs w) (slot_comps m (ent_rel e)) \<noteq> None"
      "os_remove_all (m_abs m (ent_rel e)) w = (Inr (), w1)"
      "ix_delete enc (ent_rel e) (mir_idx m) w1 = (r, ix, w')" "m' = m\<lparr>mir_idx := ix\<rparr>"
      "gc_removed res' = gc_removed res @ [ent_rel e]" "gc_retained res' = gc_retained res"
      "label_of (ent_rel e) \<notin> set pinned"
proof -
  let ?f = "m_abs m (ent_rel e)" and ?k = "ent_rel e"
  let ?idle = "\<not> ttl < time_sub now (ent_last_used e) \<and> \<not> mx < tot"
  have stat: "os_stat ?f w = ((case get (os_fs w) (slot_comps m ?k) of None \<Rightarrow> Inl NotExist | Some n \<Rightarrow> Inr n), w)"
    using q by (simp add: os_stat_def env_step_def slot_comps_def split: option.split)
  have lm: "locally_modified e ?f w = (diverged e (slot_comps m ?k) (os_fs w), w)"
    using locally_modified_diverged [OF q] locally_modified_world [OF q] by (simp add: prod_eq_iff slot_comps_def)
  obtain w1 where rm: "os_remove_all ?f w = (Inr (), w1)"
    using q by (simp add: os_remove_all_def env_step_def Let_def)
  show thesis
  proof (cases "?idle \<or> label_of ?k \<in> set pinned")
    case True
    then have "(res', tot', m', w') = (res, tot, m, w)" using run by (auto simp: gc_step_def Let_def split: if_splits)
    then show thesis by (intro kept) (use True in auto)
  next
    case live: False
    then have idle: "?idle = False" and pin: "label_of ?k \<notin> set pinned" by simp_all
    show thesis
    proof (cases "get (os_fs w) (slot_comps m ?k)")
      case None
      obtain r ix w2 where d: "ix_delete enc ?k (mir_idx m) w = (r, ix, w2)" by (metis prod_cases3)
      have "(res', tot', m', w') = (res, tot, m\<lparr>mir_idx := ix\<rparr>, w2)"
        using run idle pin d stat None by (simp add: gc_step_def Let_def)
      with d None pin show thesis by (intro gone) simp_all
    next
      case (Some n)
      show thesis
      proof (cases "diverged e (slot_comps m ?k) (os_fs w) \<or> file_in_use lsof ?f")
        case True
        then have "w' = w \<and> m' = m \<and> tot' = tot \<and> gc_removed res' = gc_removed res \<and>
            gc_retained res' = (if diverged e (slot_comps m ?k) (os_fs w) then gc_retained res @ [?k] else gc_retained res)"
          using run idle pin stat Some lm by (auto simp: gc_step_def Let_def split: if_splits)
        with True show thesis by (intro kept) auto
      next
        case False
        obtain r ix w2 where d: "ix_delete enc ?k (mir_idx m) w1 = (r, ix, w2)" by (metis prod_cases3)
        have "m' = m\<lparr>mir_idx := ix\<rparr> \<and> w' = w2 \<and> gc_removed res' = gc_removed res @ [?k] \<and> gc_retained res' = gc_retained res"
          using run idle pin stat Some lm False rm d by (auto simp: gc_step_def Let_def)
        with rm d Some pin show thesis by (intro evicted [of w1 r ix]) simp_all
      qed
    qed
  qed
qed

subsection \<open>A collection only removes\<close>

text \<open>
  What no failing call can do below \<open>R\<close>: a node stays, goes, or is a directory that takes the present
  time; when an entry of a directory goes, the directory takes the time; and a directory that still
  has an entry stays.
\<close>

definition shrink_node :: "gotime \<Rightarrow> node option \<Rightarrow> node option \<Rightarrow> bool" where
  "shrink_node now n n' \<longleftrightarrow> n' = None \<or> n' = n \<or> is_dir n \<and> n' = Some (Dir now)"

definition stamped :: "gotime \<Rightarrow> node option \<Rightarrow> bool" where
  "stamped now n \<longleftrightarrow> (is_dir n \<longrightarrow> n = Some (Dir now))"

definition shrinks :: "path \<Rightarrow> os \<Rightarrow> os \<Rightarrow> bool" where
  "shrinks R w w' \<longleftrightarrow> os_now w' = os_now w \<and> os_sched w' = [] \<and>
     (\<forall>q. prefix R q \<longrightarrow> shrink_node (os_now w) (get (os_fs w) q) (get (os_fs w') q)) \<and>
     (\<forall>q. strict_prefix R q \<longrightarrow>
        (get (os_fs w) q \<noteq> None \<and> get (os_fs w') q = None \<longrightarrow> stamped (os_now w) (get (os_fs w') (butlast q))) \<and>
        (get (os_fs w') q \<noteq> None \<and> is_dir (get (os_fs w) (butlast q)) \<longrightarrow> is_dir (get (os_fs w') (butlast q))))"

lemma strict_prefix_butlast: "strict_prefix R q \<Longrightarrow> prefix R (butlast q) \<and> q \<noteq> []"
  by (auto simp: strict_prefix_def prefix_def butlast_append)

lemma shrinks_refl: "os_sched w = [] \<Longrightarrow> shrinks R w w"
  by (auto simp: shrinks_def shrink_node_def)

lemma shrinks_quiet: "shrinks R w w' \<Longrightarrow> os_sched w' = []"
  by (simp add: shrinks_def)

lemma shrinks_absent: "shrinks R w w' \<Longrightarrow> prefix R q \<Longrightarrow> get (os_fs w) q = None \<Longrightarrow> get (os_fs w') q = None"
  unfolding shrinks_def shrink_node_def by (metis is_dir_simps(2))

lemma shrinks_trans:
  assumes "shrinks R w u" "shrinks R u v"
  shows "shrinks R w v"
proof -
  have now: "os_now u = os_now w" "os_now v = os_now w" using assms by (simp_all add: shrinks_def)
  have node: "shrink_node (os_now w) (get (os_fs w) q) (get (os_fs u) q)"
    "shrink_node (os_now w) (get (os_fs u) q) (get (os_fs v) q)" if "prefix R q" for q
    using assms that now by (simp_all add: shrinks_def)
  have "stamped (os_now w) (get (os_fs v) (butlast q))"
    if q: "strict_prefix R q" "get (os_fs w) q \<noteq> None" "get (os_fs v) q = None" for q
  proof (cases "get (os_fs u) q")
    case None
    then have "stamped (os_now w) (get (os_fs u) (butlast q))" using assms(1) q by (simp add: shrinks_def)
    then show ?thesis using node(2) [of "butlast q"] strict_prefix_butlast [OF q(1)]
      by (auto simp: shrink_node_def stamped_def)
  next
    case (Some n)
    then show ?thesis using assms(2) q now by (simp add: shrinks_def)
  qed
  moreover have "is_dir (get (os_fs v) (butlast q))"
    if q: "strict_prefix R q" "get (os_fs v) q \<noteq> None" "is_dir (get (os_fs w) (butlast q))" for q
  proof -
    have "prefix R q" using q(1) by (simp add: strict_prefix_def)
    then have "get (os_fs u) q \<noteq> None" using shrinks_absent [OF assms(2)] q(2) by metis
    then show ?thesis using assms q by (simp add: shrinks_def)
  qed
  moreover have "shrink_node (os_now w) (get (os_fs w) q) (get (os_fs v) q)" if "prefix R q" for q
    using node [OF that] by (auto simp: shrink_node_def)
  ultimately show ?thesis using assms(2) now by (simp add: shrinks_def)
qed

lemma shrinks_subtree:
  assumes "subtree R (os_fs w') = subtree R (os_fs w)" "os_now w' = os_now w" "os_sched w' = []"
  shows "shrinks R w w'"
proof -
  have same: "get (os_fs w') q = get (os_fs w) q" if "prefix R q" for q
    using tree_subtree [OF assms(1)] that by (auto simp: tree_def prefix_def fun_eq_iff)
  have same': "get (os_fs w') q = get (os_fs w) q" "get (os_fs w') (butlast q) = get (os_fs w) (butlast q)"
    if "strict_prefix R q" for q
    using same [of q] same [of "butlast q"] that strict_prefix_butlast [OF that] by (simp_all add: strict_prefix_def)
  show ?thesis
    unfolding shrinks_def using assms(2,3) by (auto simp: same same' shrink_node_def)
qed

lemma shrinks_remove_all:
  assumes "os_sched w = []" "os_remove_all s w = (r, w')"
  shows "shrinks R w w'"
proof (cases "get (os_fs w) (path_comps s)")
  case None
  then have "w' = w" using assms by (simp add: os_remove_all_def env_step_def Let_def)
  then show ?thesis using shrinks_refl [OF assms(1)] by simp
next
  case (Some n)
  let ?s = "path_comps s"
  have w': "w' = w\<lparr>os_fs := touch ?s (os_now w) (prune ?s (os_fs w))\<rparr>"
    using assms Some by (simp add: os_remove_all_def env_step_def Let_def)
  have get': "get (os_fs w') q = (if ?s \<noteq> [] \<and> q = butlast ?s \<and> is_dir (get (os_fs w) q) \<and> \<not> prefix ?s q
      then Some (Dir (os_now w)) else if prefix ?s q then None else get (os_fs w) q)" for q
    by (auto simp: w' get_touch get_prune)
  have up: "prefix ?s (butlast q) \<Longrightarrow> prefix ?s q" for q
    by (metis prefix_order.trans prefixeq_butlast)
  have gone: "?s = q \<or> prefix ?s (butlast q)" if "prefix ?s q" for q
    using that by (cases q rule: rev_cases) auto
  show ?thesis
    unfolding shrinks_def
  proof (intro conjI allI impI)
    fix q assume "strict_prefix R q" "get (os_fs w) q \<noteq> None \<and> get (os_fs w') q = None"
    then show "stamped (os_now w) (get (os_fs w') (butlast q))"
      using gone [of q] strict_prefix_butlast [of R q] by (auto simp: get' stamped_def split: if_splits)
  next
    fix q assume "strict_prefix R q" "get (os_fs w') q \<noteq> None \<and> is_dir (get (os_fs w) (butlast q))"
    then show "is_dir (get (os_fs w') (butlast q))" using up [of q] by (auto simp: get' split: if_splits)
  qed (use assms(1) in \<open>auto simp: w' get_touch get_prune shrink_node_def\<close>)
qed

lemma shrinks_remove:
  assumes "os_sched w = []" "os_remove s w = (r, w')"
  shows "shrinks R w w'"
proof (cases "get (os_fs w) (path_comps s) = None \<or> children (path_comps s) (os_fs w) \<noteq> []")
  case True
  then have "w' = w" using assms by (auto simp: os_remove_def env_step_def Let_def split: if_splits)
  then show ?thesis using shrinks_refl [OF assms(1)] by simp
next
  case False
  let ?s = "path_comps s"
  have w': "w' = w\<lparr>os_fs := touch ?s (os_now w) (filter (\<lambda>(q, _). q \<noteq> ?s) (os_fs w))\<rparr>"
    using assms False by (auto simp: os_remove_def env_step_def Let_def)
  have get': "get (os_fs w') q = (if ?s \<noteq> [] \<and> q = butlast ?s \<and> is_dir (get (os_fs w) q) \<and> q \<noteq> ?s
      then Some (Dir (os_now w)) else if q = ?s then None else get (os_fs w) q)" for q
    using get_filter_keys [of "\<lambda>q. q \<noteq> ?s" "os_fs w"] by (auto simp: w' get_touch)
  have leaf: "get (os_fs w) q = None" if "butlast q = ?s" "q \<noteq> []" for q
  proof (rule ccontr)
    assume "get (os_fs w) q \<noteq> None"
    then obtain n where "(q, n) \<in> set (os_fs w)" by (auto simp: get_def dest: map_of_SomeD)
    then have "last q \<in> set (children ?s (os_fs w))" using that by (force simp: children_def)
    then show False using False by simp
  qed
  have ne: "q \<noteq> [] \<Longrightarrow> butlast q \<noteq> q" for q :: path by (cases q rule: rev_cases) auto
  show ?thesis
    unfolding shrinks_def
  proof (intro conjI allI impI)
    fix q assume "strict_prefix R q" "get (os_fs w) q \<noteq> None \<and> get (os_fs w') q = None"
    then show "stamped (os_now w) (get (os_fs w') (butlast q))"
      using strict_prefix_butlast [of R q] ne [of q] by (auto simp: get' stamped_def split: if_splits)
  next
    fix q assume "strict_prefix R q" "get (os_fs w') q \<noteq> None \<and> is_dir (get (os_fs w) (butlast q))"
    then show "is_dir (get (os_fs w') (butlast q))"
      using leaf [of q] strict_prefix_butlast [of R q] by (auto simp: get' split: if_splits elim!: is_dirE)
  qed (use assms(1) in \<open>auto simp: get' shrink_node_def\<close>, (simp_all add: w')[2])
qed

lemma index_save_now: "os_sched w = [] \<Longrightarrow> index_save enc ix w = (r, w') \<Longrightarrow> os_now w' = os_now w"
  by (auto simp: index_save_def bind_os_def os_write_file_def os_rename_def env_step_def Let_def
      split: prod.splits sum.splits option.splits if_splits)

lemma shrinks_delete:
  assumes "os_sched w = []" "ix_file_apart ix R" "ix_delete enc k ix w = (r, ix', w')"
  shows "shrinks R w w'"
proof (rule shrinks_subtree)
  show "subtree R (os_fs w') = subtree R (os_fs w)" by (rule ix_ops_subtree(3) [OF assms(2,3)])
  show "os_now w' = os_now w" "os_sched w' = []"
    using assms(1,3) by (auto simp: ix_delete_def Let_def split: prod.splits dest: index_save_now index_save_quiet)
qed

text \<open>The state of the loop: the index file lies outside \<open>R\<close>, and nothing fails.\<close>

definition gc_ok :: "mirror \<Rightarrow> gc_result \<times> int \<times> mirror \<times> os \<Rightarrow> bool" where
  "gc_ok m0 st = (case st of (_, _, m, w) \<Rightarrow> index_ok (mir_idx m) \<and> mir_root m = mir_root m0 \<and>
     ix_path (mir_idx m) = ix_path (mir_idx m0) \<and> os_sched w = [])"

lemma gc_step_shrinks:
  assumes "gc_ok m0 (res, tot, m, w)" "ix_file_apart (mir_idx m0) R"
    and "gc_step enc lsof now ttl mx pinned e (res, tot, m, w) = (res', tot', m', w')"
  shows "gc_ok m0 (res', tot', m', w') \<and> shrinks R w w'"
proof -
  have q: "os_sched w = []" and ok: "index_ok (mir_idx m)"
    and apart: "ix_file_apart (mir_idx m) R" using assms(1,2) by (simp_all add: gc_ok_def ix_file_apart_def)
  from q assms(3) show ?thesis
  proof (cases rule: gc_step_quiet)
    case kept
    then show ?thesis using assms(1) shrinks_refl [OF q] by (simp add: gc_ok_def)
  next
    case (gone r ix)
    then show ?thesis
      using shrinks_delete [OF q apart gone(2)] ix_delete_result [OF gone(2)] assms(1)
      by (auto simp: gc_ok_def shrinks_def intro!: ix.ok_drop)
  next
    case (evicted w1 r ix)
    note rm = shrinks_remove_all [OF q evicted(2)]
    from shrinks_trans [OF rm shrinks_delete [OF shrinks_quiet [OF rm] apart evicted(3)]]
    show ?thesis using evicted(4) ix_delete_result [OF evicted(3)] assms(1)
      by (auto simp: gc_ok_def shrinks_def intro!: ix.ok_drop)
  qed
qed

lemma gc_fold_shrinks:
  assumes "gc_ok m0 (res, tot, m, w)" "ix_file_apart (mir_idx m0) R"
    and "fold (gc_step enc lsof now ttl mx pinned) es (res, tot, m, w) = (res', tot', m', w')"
  shows "gc_ok m0 (res', tot', m', w') \<and> shrinks R w w'"
  using assms(1,3)
proof (induction es arbitrary: res tot m w)
  case Nil
  then show ?case using shrinks_refl by (simp add: gc_ok_def)
next
  case (Cons e es)
  obtain res1 tot1 m1 w1 where 1: "gc_step enc lsof now ttl mx pinned e (res, tot, m, w) = (res1, tot1, m1, w1)"
    by (metis prod_cases4)
  note s = gc_step_shrinks [OF Cons.prems(1) assms(2) 1]
  then show ?case using Cons.IH [of res1 tot1 m1 w1] Cons.prems(2) 1 by (auto intro: shrinks_trans)
qed

lemma sweep_shrinks:
  assumes "os_sched w = []"
  shows "shrinks R w (sweep_staging m age w)"
proof -
  have names: "shrinks R w (sweep_names base c ns w)" if "os_sched w = []" for base c ns w
    using that
  proof (induction ns arbitrary: w)
    case Nil
    then show ?case by (simp add: shrinks_refl)
  next
    case (Cons n ns)
    have "fst (os_stat f w, w) = (fst (os_stat f w), w)" for f
      using Cons.prems by (simp add: os_stat_def env_step_def split: option.split)
    then have st: "os_stat f w = (r, w1) \<Longrightarrow> w1 = w" for f r w1 by (metis fst_conv prod.inject)
    have rm: "shrinks R w (snd (os_remove_all f w))" for f
      using shrinks_remove_all [OF Cons.prems surjective_pairing] .
    have "shrinks R w (sweep_names base c ns (snd (os_remove_all f w)))" for f
      using shrinks_trans [OF rm Cons.IH [OF shrinks_quiet [OF rm]]] .
    then show ?case using Cons by (auto split: prod.split sum.split dest!: st)
  qed
  have rd: "os_read_dir f w = (r, w1) \<Longrightarrow> w1 = w" for f r w1
    using assms by (auto simp: os_read_dir_def env_step_def split: if_splits)
  show ?thesis
    using names [OF assms] shrinks_refl [OF assms] quiet_calls(6) [OF assms]
    by (auto simp: sweep_staging_def split: prod.split sum.split dest!: rd)
qed

subsection \<open>Removing empty directories\<close>

lemma os_read_dir_quiet:
  "os_sched w = [] \<Longrightarrow> os_read_dir s w =
     (if is_dir (get (os_fs w) (path_comps s)) then Inr (children (path_comps s) (os_fs w)) else Inl NotExist, w)"
  by (simp add: os_read_dir_def env_step_def)

lemma prune_pass_quiet:
  assumes "os_sched w = []"
  shows "prune_pass (p # ps) w =
    (if is_dir (get (os_fs w) (path_comps (os_path p))) \<and> children (path_comps (os_path p)) (os_fs w) = []
     then (True, snd (prune_pass ps (snd (os_remove (os_path p) w)))) else prune_pass ps w)"
proof (cases "is_dir (get (os_fs w) (path_comps (os_path p))) \<and> children (path_comps (os_path p)) (os_fs w) = []")
  case True
  obtain w1 where "os_remove (os_path p) w = (Inr (), w1)"
    using assms True by (auto simp: os_remove_def env_step_def Let_def elim!: is_dirE)
  then show ?thesis using True assms by (simp add: prune_pass.simps(2) os_read_dir_quiet split: prod.split)
next
  case False
  then show ?thesis using assms
    by (auto simp: prune_pass.simps(2) os_read_dir_quiet env_step_def walk_read_def)
qed

lemma prune_pass_shrinks:
  "os_sched w = [] \<Longrightarrow> shrinks R w (snd (prune_pass ps w))"
proof (induction ps arbitrary: w)
  case Nil
  then show ?case by (simp add: shrinks_refl)
next
  case (Cons p ps)
  have rm: "shrinks R w (snd (os_remove (os_path p) w))"
    using shrinks_remove [OF Cons.prems surjective_pairing] .
  show ?case
    using Cons shrinks_trans [OF rm Cons.IH [OF shrinks_quiet [OF rm]]] by (simp add: prune_pass_quiet)
qed

lemma prune_pass_none:
  assumes "os_sched w = []" "\<not> fst (prune_pass ps w)" "p \<in> set ps"
  shows "\<not> (is_dir (get (os_fs w) (path_comps (os_path p))) \<and> children (path_comps (os_path p)) (os_fs w) = []) \<and>
    snd (prune_pass ps w) = w"
  using assms
proof (induction ps)
  case (Cons a ps)
  have same: "\<not> fst (prune_pass qs w) \<Longrightarrow> snd (prune_pass qs w) = w" for qs
    using assms(1) by (induction qs) (auto simp: prune_pass_quiet split: if_splits)
  show ?case using Cons same by (auto simp: prune_pass_quiet split: if_splits)
qed simp

lemma prune_walk_quiet:
  "os_sched w = [] \<Longrightarrow> prune_walk m w =
     (if is_dir (get (os_fs w) (path_comps (mir_root m)))
      then prune_pass (prune_dirs (path_comps (mir_root m)) (os_fs w)) w else (False, w))"
  by (auto simp: prune_walk_def os_stat_def env_step_def walk_read_def Let_def split: option.split)

lemma prune_walk_none: "os_sched w = [] \<Longrightarrow> prune_walk m w = (False, w') \<Longrightarrow> w' = w"
proof -
  assume q: "os_sched w = []" and run: "prune_walk m w = (False, w')"
  have "\<not> fst (prune_pass ps w) \<Longrightarrow> snd (prune_pass ps w) = w" for ps
    using prune_pass_none [OF q, of ps] by (cases ps) auto
  then show "w' = w" using run by (auto simp: prune_walk_quiet [OF q] prod_eq_iff split: if_splits)
qed

lemma prune_empty_quiet:
  assumes "os_sched w = []"
  shows "shrinks R w (prune_empty_dirs m w) \<and> \<not> fst (prune_walk m (prune_empty_dirs m w))"
  using assms
proof (induction m w rule: prune_empty_dirs.induct)
  case (1 m w)
  obtain b w1 where p: "prune_walk m w = (b, w1)" by (metis surj_pair)
  have s: "shrinks R w w1"
    using p shrinks_refl [OF 1(2)] prune_pass_shrinks [OF 1(2), of R] by (auto simp: prune_walk_quiet [OF 1(2)] prod_eq_iff split: if_splits)
  show ?case
  proof (cases b)
    case True
    from 1(1) [OF p [symmetric] True shrinks_quiet [OF s]] show ?thesis
      using s p True shrinks_trans by (subst (1 2) prune_empty_dirs.simps) auto
  next
    case False
    then have "prune_empty_dirs m w = w" using prune_walk_none [OF 1(2)] p by (subst prune_empty_dirs.simps) simp
    then show ?thesis using p False shrinks_refl [OF 1(2)] by simp
  qed
qed

lemma children_get: "children p fs \<noteq> [] \<longleftrightarrow> (\<exists>c. get fs (p @ [c]) \<noteq> None)"
proof -
  have "children p fs \<noteq> [] \<longleftrightarrow> (\<exists>q \<in> fst ` set fs. q \<noteq> [] \<and> butlast q = p)"
    by (auto simp: children_def filter_empty_conv image_iff) (metis fst_conv)+
  also have "\<dots> \<longleftrightarrow> (\<exists>c. p @ [c] \<in> fst ` set fs)"
    by (metis append_butlast_last_id butlast_snoc snoc_eq_iff_butlast)
  also have "\<dots> \<longleftrightarrow> (\<exists>c. get fs (p @ [c]) \<noteq> None)"
    by (simp add: get_def map_of_eq_None_iff)
  finally show ?thesis .
qed

text \<open>After the last pass every directory that is not skipped has an entry.\<close>

lemma prune_empty_dirs_done:
  assumes "os_sched w = []" "w' = prune_empty_dirs m w" "is_dir (get (os_fs w') (path_comps (mir_root m)))"
    and "strict_prefix (path_comps (mir_root m)) p" "staging_name \<notin> set (drop (length (path_comps (mir_root m))) p)"
    and "list_all plain p" "is_dir (get (os_fs w') p)"
  shows "children p (os_fs w') \<noteq> []"
proof -
  let ?R = "path_comps (mir_root m)"
  have q: "os_sched w' = []" and none: "\<not> fst (prune_walk m w')"
    using prune_empty_quiet [OF assms(1)] shrinks_quiet assms(2) by blast+
  obtain n where n: "(p, n) \<in> set (os_fs w')" "is_dir (Some n)"
    using assms(7) by (auto simp: get_def elim!: is_dirE dest: map_of_SomeD)
  then have "p \<in> set (prune_dirs ?R (os_fs w'))"
    using assms(4,5) by (force simp: prune_dirs_def walk_def subtree_def strict_prefix_def)
  then have "\<not> (is_dir (get (os_fs w') (path_comps (os_path p))) \<and> children (path_comps (os_path p)) (os_fs w') = [])"
    using prune_pass_none [OF q] none assms(3) by (simp add: prune_walk_quiet [OF q])
  moreover have "path_comps (os_path p) = p" using assms(6) by (simp add: os_path_def path_comps_slash_join)
  ultimately show ?thesis using assms(7) by simp
qed

lemma shrinks_chain:
  assumes "shrinks R w w'" "nested R (os_fs w)" "prefix R d"
  shows "get (os_fs w') (d @ r) \<noteq> None \<Longrightarrow> r \<noteq> [] \<Longrightarrow> is_dir (get (os_fs w') d)"
proof (induction r rule: rev_induct)
  case (snoc x r)
  let ?q = "d @ r @ [x]"
  have R: "strict_prefix R ?q" using assms(3) by (auto simp: strict_prefix_def prefix_def)
  then have "get (os_fs w) ?q \<noteq> None"
    using shrinks_absent [OF assms(1), of ?q] snoc.prems(1) by (auto simp: strict_prefix_def)
  then obtain n where "(?q, n) \<in> set (os_fs w)" by (auto simp: get_def dest: map_of_SomeD)
  then have "is_dir (get (os_fs w) (butlast ?q))"
    using assms(2) R by (auto simp: nested_def list_all_iff subtree_def strict_prefix_def)
  then have "is_dir (get (os_fs w') (butlast ?q))"
    using assms(1) R snoc.prems(1) by (simp add: shrinks_def)
  then have "is_dir (get (os_fs w') (d @ r))" by (simp add: butlast_append)
  then show ?case using snoc.IH by (cases "r = []") (auto elim!: is_dirE)
qed simp

end
