(* ===== verification/Collect.thy ===== *)
theory Collect
  imports Gc_Steps
begin

text \<open>
  Garbage collection, the facts about \<open>gc\<close> of \<open>Mirror\<close>: files of pinned labels survive, an entry is
  evicted only when it may be, everything expired goes, and two places where the code does more
  than its comments say.
\<close>

subsection \<open>Files that survive\<close>

definition keeps_files :: "path \<Rightarrow> os \<Rightarrow> os \<Rightarrow> bool" where
  "keeps_files L w w' \<longleftrightarrow>
     (\<forall>p n. prefix L p \<longrightarrow> get (os_fs w) p = Some n \<longrightarrow> \<not> is_dir (Some n) \<longrightarrow> get (os_fs w') p = Some n)"

lemma keeps_refl [simp]: "keeps_files L w w"
  by (simp add: keeps_files_def)

lemma keeps_trans: "keeps_files L w w1 \<Longrightarrow> keeps_files L w1 w2 \<Longrightarrow> keeps_files L w w2"
  by (auto simp: keeps_files_def)

lemma keeps_subtree: "subtree L (os_fs w') = subtree L (os_fs w) \<Longrightarrow> keeps_files L w w'"
proof -
  assume "subtree L (os_fs w') = subtree L (os_fs w)"
  then have "tree L (os_fs w') = tree L (os_fs w)" by (rule tree_subtree)
  then show ?thesis by (auto simp: keeps_files_def tree_def prefix_def fun_eq_iff)
qed

lemma keeps_same: "os_fs w' = os_fs w \<Longrightarrow> keeps_files L w w'"
  by (simp add: keeps_files_def)

lemma keeps_remove_all: "os_remove_all s w = (r, w') \<Longrightarrow> L \<parallel> path_comps s \<Longrightarrow> keeps_files L w w'"
  by (intro keeps_subtree remove_all_subtree)

lemma remove_dir_keeps:
  assumes "os_remove s w = (r, w')" "is_dir (get (os_fs w) (path_comps s))"
  shows "keeps_files L w w'"
proof -
  obtain f w0 where e: "env_step w = (f, w0)" by (metis surj_pair)
  show ?thesis
    using assms env_step_fs [OF e]
    by (auto simp: keeps_files_def os_remove_def Let_def e get_touch get_filter_keys
        split: option.splits if_splits elim!: is_dirE)
qed

lemma prune_pass_keeps: "keeps_files L w (snd (prune_pass ps w))"
proof (induction "length ps" arbitrary: ps w rule: less_induct)
  case less
  show ?case
  proof (cases ps)
    case (Cons p qs)
    show ?thesis
    proof (cases rule: prune_pass_step [of p w qs])
      case (remove r w1 w2 b)
      have "keeps_files L w1 w2"
        using remove_dir_keeps [OF remove(2)] read_dir_empty [OF remove(1)] by simp
      moreover have "keeps_files L w2 (snd (prune_pass qs w2))" using less Cons by simp
      ultimately show ?thesis using Cons remove(3) keeps_same [OF read_dir_empty(1) [OF remove(1)]]
        by (auto intro: keeps_trans)
    next
      case (walk r w1 f w2)
      have "length (walk_read p f (os_fs w2) qs) < length ps"
        using Cons by (simp add: walk_read_def le_imp_less_Suc split: option.split)
      from less [OF this, of w2] show ?thesis using walk Cons keeps_same [OF walk(4)] by (auto intro: keeps_trans)
    qed
  qed simp
qed

lemma prune_empty_dirs_keeps: "keeps_files L w (prune_empty_dirs m w)"
proof (induction m w rule: prune_empty_dirs.induct)
  case (1 m w)
  obtain b w1 where p: "prune_walk m w = (b, w1)" by (metis surj_pair)
  have "keeps_files L w w1"
    using p
  proof (cases rule: prune_walk_cases)
    case (pass ps u)
    then show ?thesis using prune_pass_keeps [of L u ps] by (simp add: keeps_files_def)
  qed (simp add: keeps_same)
  then show ?case
    using p 1 [OF p [symmetric]] by (subst prune_empty_dirs.simps) (auto intro: keeps_trans)
qed

lemma sweep_names_subtree:
  "\<forall>n \<in> set ns. p \<parallel> path_comps (path_join [base, n]) \<Longrightarrow>
   subtree p (os_fs (sweep_names base cutoff ns w)) = subtree p (os_fs w)"
proof (induction ns arbitrary: w)
  case (Cons n ns)
  obtain r w1 where 1: "os_stat (path_join [base, n]) w = (r, w1)" by (metis surj_pair)
  have "subtree p (os_fs (snd (os_remove_all (path_join [base, n]) w1))) = subtree p (os_fs w1)"
    using remove_all_subtree [OF surjective_pairing] Cons.prems by simp
  with 1 Cons read_fs(1) [OF 1] show ?case by (auto split: sum.split)
qed simp

subsection \<open>The loop over the candidates\<close>

lemma slot_label: "slot_of m l k \<Longrightarrow> label_of k = l"
proof -
  assume "slot_of m l k"
  then obtain p where l: "valid_label l" and r: "rel l p = Inr k" by (auto simp: slot_of_def)
  obtain cs where "cs \<noteq> []" "k = join_with slash (l # cs)" by (rule rel_comps [OF valid_label_plain [OF l] r])
  then have "k = l @ slash # join_with slash cs" by (simp add: join_with_Cons)
  then show ?thesis
    using plainD(4) [OF valid_label_plain [OF l]] unfolding label_of_def
    by (simp, subst takeWhile_append2) auto
qed

lemma slot_parallel:
  "slot_of m l' k \<Longrightarrow> l' \<noteq> l \<Longrightarrow> path_comps (mir_root m) @ [l] \<parallel> slot_comps m k"
  by (rule slot_of_comps [of m l' k]) (auto simp: parallel_def)

definition pin_comps :: "mirror \<Rightarrow> string \<Rightarrow> path" where
  "pin_comps m l = path_comps (mir_root m) @ [l]"

lemma slot_of_root: "mir_root m' = mir_root m \<Longrightarrow> slot_of m' = slot_of m"
  by (simp add: slot_of_def fun_eq_iff)

lemma gc_step_pinned:
  assumes "gc_step enc lsof now ttl mx pinned e (res, tot, m, w) = (res', tot', m', w')"
    and "slot_of m l' (ent_rel e)" "l \<in> set pinned" "ix_file_apart (mir_idx m) (pin_comps m l)"
  shows "keeps_files (pin_comps m l) w w' \<and> mir_root m' = mir_root m \<and> ix_path (mir_idx m') = ix_path (mir_idx m)"
  using assms(1)
proof (cases rule: gc_step_cases)
  case kept
  then show ?thesis by (simp add: keeps_same)
next
  case (gone w1 r ix)
  have "ix = drop_entries (\<lambda>k' _. k' = ent_rel e) (mir_idx m)"
    using ix_delete_index [of enc "ent_rel e" "mir_idx m" w1] gone(2) by simp
  then show ?thesis
    using gone keeps_same [OF gone(1)] keeps_subtree [OF ix_ops_subtree(3) [OF assms(4) gone(2)]]
    by (auto intro: keeps_trans)
next
  case (stuck e' w1)
  then have "l' \<noteq> l" using slot_label [OF assms(2)] assms(3) by auto
  then have "pin_comps m l \<parallel> path_comps (m_abs m (ent_rel e))"
    using slot_parallel [OF assms(2)] by (simp add: pin_comps_def slot_comps_def)
  then show ?thesis using stuck keeps_same [OF stuck(1)] keeps_remove_all [OF stuck(2)] by (auto intro: keeps_trans)
next
  case (evicted w1 w2 r ix)
  then have "l' \<noteq> l" using slot_label [OF assms(2)] assms(3) by auto
  then have "pin_comps m l \<parallel> path_comps (m_abs m (ent_rel e))"
    using slot_parallel [OF assms(2)] by (simp add: pin_comps_def slot_comps_def)
  then have "keeps_files (pin_comps m l) w w2"
    using keeps_same [OF evicted(1)] keeps_remove_all [OF evicted(2)] by (auto intro: keeps_trans)
  moreover have "keeps_files (pin_comps m l) w2 w'"
    by (rule keeps_subtree [OF ix_ops_subtree(3) [OF assms(4) evicted(3)]])
  moreover have "ix = drop_entries (\<lambda>k' _. k' = ent_rel e) (mir_idx m)"
    using ix_delete_index [of enc "ent_rel e" "mir_idx m" w2] evicted(3) by simp
  ultimately show ?thesis using evicted(4) by (auto intro: keeps_trans)
qed

lemma gc_fold_pinned:
  assumes "fold (gc_step enc lsof now ttl mx pinned) es (res, tot, m, w) = (res', tot', m', w')"
    and "\<forall>e \<in> set es. \<exists>l'. slot_of m l' (ent_rel e)" "l \<in> set pinned"
    and "ix_file_apart (mir_idx m) (pin_comps m l)"
  shows "keeps_files (pin_comps m l) w w' \<and> mir_root m' = mir_root m"
  using assms
proof (induction es arbitrary: res tot m w)
  case (Cons e es)
  obtain res1 tot1 m1 w1 where 1: "gc_step enc lsof now ttl mx pinned e (res, tot, m, w) = (res1, tot1, m1, w1)"
    by (metis prod_cases4)
  obtain l' where "slot_of m l' (ent_rel e)" using Cons.prems(2) by auto
  note s = gc_step_pinned [OF 1 this Cons.prems(3,4)]
  have pin: "pin_comps m1 l = pin_comps m l" using s by (simp add: pin_comps_def)
  have "keeps_files (pin_comps m1 l) w1 w' \<and> mir_root m' = mir_root m1"
    using Cons.IH [of res1 tot1 m1 w1] Cons.prems 1 s pin slot_of_root [of m1 m]
    by (auto simp: ix_file_apart_def)
  then show ?case using s pin by (auto intro: keeps_trans)
qed simp

definition plain_fs :: "fs \<Rightarrow> bool" where
  "plain_fs fs \<longleftrightarrow> list_all (\<lambda>(p, _). list_all plain p) fs"

lemma children_plain: "plain_fs fs \<Longrightarrow> n \<in> set (children p fs) \<Longrightarrow> plain n"
  by (auto simp: plain_fs_def children_def list_all_iff)

lemma sweep_subtree:
  assumes "good_root (mir_root m)" "plain_fs (os_fs w)" "p \<parallel> base_comps m"
  shows "subtree p (os_fs (sweep_staging m age w)) = subtree p (os_fs w)"
proof -
  obtain r w1 where 1: "os_read_dir (staging_base m) w = (r, w1)" by (metis surj_pair)
  note fs1 = read_fs(2) [OF 1]
  show ?thesis
  proof (cases r)
    case (Inl e)
    then show ?thesis using 1 fs1 by (simp add: sweep_staging_def)
  next
    case (Inr ns)
    obtain now w2 where 2: "time_now w1 = (now, w2)" by (metis surj_pair)
    have "ns = children (path_comps (staging_base m)) (os_fs w)"
      using 1 Inr by (auto simp: os_read_dir_def env_step_fs split: prod.splits option.splits if_splits)
    then have "p \<parallel> path_comps (path_join [staging_base m, n])" if "n \<in> set ns" for n
      using children_plain [OF assms(2)] that assms(3)
      by (simp add: join1_comps [OF base_good [OF assms(1)]] base_comps [OF assms(1)] parallel_below)
    then show ?thesis
      using 1 2 Inr fs1 time_now_fs [OF 2] sweep_names_subtree [of ns p "staging_base m" "time_add now (- age)" w2]
      by (simp add: sweep_staging_def)
  qed
qed

lemma sweep_keeps:
  assumes "good_root (mir_root m)" "valid_label l" "plain_fs (os_fs w)"
  shows "keeps_files (pin_comps m l) w (sweep_staging m age w)"
proof (rule keeps_subtree [OF sweep_subtree [OF assms(1,3)]])
  show "pin_comps m l \<parallel> base_comps m"
    using valid_label_not_staging [OF assms(2)] by (auto simp: base_comps_def pin_comps_def parallel_def)
qed

subsection \<open>What a collection without failing calls settles\<close>

text \<open>An entry is settled when it is reported as modified, or gone from the index and its copy from disk.\<close>

definition settled :: "mirror \<Rightarrow> string \<Rightarrow> gc_result \<times> int \<times> mirror \<times> os \<Rightarrow> bool" where
  "settled m0 k st = (case st of (res, _, m, w) \<Rightarrow> k \<in> set (gc_retained res) \<or>
     ix_get (mir_idx m) k = None \<and> get (os_fs w) (slot_comps m0 k) = None)"

lemma remove_all_gone: "os_sched w = [] \<Longrightarrow> os_remove_all s w = (r, w') \<Longrightarrow> get (os_fs w') (path_comps s) = None"
  by (auto simp: os_remove_all_def env_step_def Let_def get_touch get_prune split: if_splits)

lemma gc_step_settles:
  assumes ok: "gc_ok m0 (res, tot, m, w)" and apart: "ix_file_apart (mir_idx m0) (slot_comps m0 (ent_rel e))"
    and run: "gc_step enc lsof now ttl mx pinned e (res, tot, m, w) = (res', tot', m', w')"
    and due: "ttl < time_sub now (ent_last_used e) \<or> mx < tot" "label_of (ent_rel e) \<notin> set pinned"
      "\<not> file_in_use lsof (m_abs m0 (ent_rel e))"
  shows "settled m0 (ent_rel e) (res', tot', m', w')"
proof -
  have q: "os_sched w = []" and ix: "index_ok (mir_idx m)" "ix_file_apart (mir_idx m) (slot_comps m0 (ent_rel e))"
    and root: "slot_comps m = slot_comps m0" "m_abs m = m_abs m0"
    using ok apart by (simp_all add: gc_ok_def ix_file_apart_def slot_comps_def m_abs_def fun_eq_iff)
  have none: "ix_get (drop_entries (\<lambda>k' _. k' = k) (mir_idx m)) k = None" for k
    using ix.look_drop [OF ix(1)] by (simp split: option.split)
  from q run show ?thesis
  proof (cases rule: gc_step_quiet)
    case kept
    then show ?thesis using due root by (auto simp: settled_def)
  next
    case (gone r i)
    then show ?thesis
      using shrinks_absent [OF shrinks_delete [OF q ix(2) gone(2)]] none root ix_delete_result [OF gone(2)]
      by (simp add: settled_def)
  next
    case (evicted w1 r i)
    have "os_sched w1 = []" by (rule quiet_calls(5) [OF q evicted(2)])
    moreover have "get (os_fs w1) (slot_comps m0 (ent_rel e)) = None"
      using remove_all_gone [OF q evicted(2)] root by (simp add: slot_comps_def)
    ultimately show ?thesis
      using shrinks_absent [OF shrinks_delete [OF _ ix(2) evicted(3)]] none ix_delete_result [OF evicted(3)] evicted(4)
      by (simp add: settled_def)
  qed
qed

lemma gc_step_settled:
  assumes "gc_ok m0 (res, tot, m, w)" "ix_file_apart (mir_idx m0) (slot_comps m0 k)" "settled m0 k (res, tot, m, w)"
    and "gc_step enc lsof now ttl mx pinned e (res, tot, m, w) = (res', tot', m', w')"
  shows "settled m0 k (res', tot', m', w')"
proof -
  have "shrinks (slot_comps m0 k) w w'" using gc_step_shrinks [OF assms(1,2,4)] by blast
  then have "get (os_fs w) (slot_comps m0 k) = None \<Longrightarrow> get (os_fs w') (slot_comps m0 k) = None"
    by (rule shrinks_absent) simp_all
  moreover have "ix_get (mir_idx m) k = None \<Longrightarrow> ix_get (drop_entries P (mir_idx m)) k = None" for P
    using ix.look_drop [of "mir_idx m" P k] assms(1) by (simp add: gc_ok_def)
  ultimately show ?thesis
    using assms(3) gc_step_cases [OF assms(4)] by (cases rule: gc_step_cases [OF assms(4)]) (auto simp: settled_def dest!: ix_delete_result)
qed

lemma gc_fold_settled:
  assumes "gc_ok m0 (res, tot, m, w)" "ix_file_apart (mir_idx m0) (slot_comps m0 k)" "settled m0 k (res, tot, m, w)"
    and "fold (gc_step enc lsof now ttl mx pinned) es (res, tot, m, w) = (res', tot', m', w')"
  shows "settled m0 k (res', tot', m', w')"
  using assms(1,3,4)
proof (induction es arbitrary: res tot m w)
  case (Cons e es)
  obtain res1 tot1 m1 w1 where 1: "gc_step enc lsof now ttl mx pinned e (res, tot, m, w) = (res1, tot1, m1, w1)"
    by (metis prod_cases4)
  show ?case
  proof (rule Cons.IH)
    show "gc_ok m0 (res1, tot1, m1, w1)" using gc_step_shrinks [OF Cons.prems(1) assms(2) 1] by blast
    show "settled m0 k (res1, tot1, m1, w1)" by (rule gc_step_settled [OF Cons.prems(1) assms(2) Cons.prems(2) 1])
    show "fold (gc_step enc lsof now ttl mx pinned) es (res1, tot1, m1, w1) = (res', tot', m', w')"
      using Cons.prems(3) 1 by simp
  qed
qed simp

lemma gc_fold_expired:
  assumes "gc_ok m0 (res, tot, m, w)" "ix_file_apart (mir_idx m0) (slot_comps m0 (ent_rel e))"
    and "e \<in> set es" "ttl < time_sub now (ent_last_used e)"
    and "label_of (ent_rel e) \<notin> set pinned" "\<not> file_in_use lsof (m_abs m0 (ent_rel e))"
    and "fold (gc_step enc lsof now ttl mx pinned) es (res, tot, m, w) = (res', tot', m', w')"
  shows "settled m0 (ent_rel e) (res', tot', m', w')"
  using assms(1,3,7)
proof (induction es arbitrary: res tot m w)
  case (Cons a es)
  obtain res1 tot1 m1 w1 where 1: "gc_step enc lsof now ttl mx pinned a (res, tot, m, w) = (res1, tot1, m1, w1)"
    by (metis prod_cases4)
  have ok: "gc_ok m0 (res1, tot1, m1, w1)" using gc_step_shrinks [OF Cons.prems(1) assms(2) 1] by blast
  show ?case
  proof (cases "a = e")
    case True
    then have "settled m0 (ent_rel e) (res1, tot1, m1, w1)"
      using gc_step_settles [OF Cons.prems(1) assms(2)] 1 assms(4-6) by blast
    then show ?thesis using gc_fold_settled [OF ok assms(2)] Cons.prems(3) 1 by simp
  next
    case False
    then show ?thesis using Cons.IH [OF ok] Cons.prems(2,3) 1 by simp
  qed
qed simp

text \<open>The parts of a collection in which no call fails.\<close>

lemma gc_parts:
  assumes "os_sched w = []" "index_ok (mir_idx m)" "gc enc lsof m ttl mx pinned w = (res, m', w')"
  obtains w1 tot w2 where "w1 = sweep_staging m hour w"
    "gc_ok m (\<lparr>gc_removed = [], gc_retained = [], gc_bytes = 0\<rparr>, total_bytes (mir_idx m), m, w1)"
    "fold (gc_step enc lsof (os_now w) ttl mx pinned) (candidates (mir_idx m))
       (\<lparr>gc_removed = [], gc_retained = [], gc_bytes = 0\<rparr>, total_bytes (mir_idx m), m, w1) = (res, tot, m', w2)"
    "w' = prune_empty_dirs m' w2"
proof -
  have "time_now w = (os_now w, w)" using assms(1) by (simp add: time_now_def env_step_def)
  moreover have "os_sched (sweep_staging m hour w) = []" using shrinks_quiet [OF sweep_shrinks [OF assms(1)]] .
  moreover obtain tot w2 where "fold (gc_step enc lsof (os_now w) ttl mx pinned) (candidates (mir_idx m))
      (\<lparr>gc_removed = [], gc_retained = [], gc_bytes = 0\<rparr>, total_bytes (mir_idx m), m, sweep_staging m hour w) =
      (res, tot, m', w2)" "w' = prune_empty_dirs m' w2"
    using assms(3) calculation by (auto simp: gc_def split: prod.splits)
  ultimately show thesis using assms(2) by (intro that) (simp_all add: gc_ok_def)
qed

lemma gc_keeps_pinned:
  assumes "good_root (mir_root m)" and "index_apart m" and "valid_label l" and "l \<in> set pinned"
    and "\<forall>e \<in> set (candidates (mir_idx m)). \<exists>l'. slot_of m l' (ent_rel e)"
    and "plain_fs (os_fs w)" and "gc enc lsof m ttl max_bytes pinned w = (res, m', w')"
    and "prefix (pin_comps m l) p" and "get (os_fs w) p = Some n" and "\<not> is_dir (Some n)"
  shows "get (os_fs w') p = Some n"
proof -
  obtain now w1 where 1: "time_now w = (now, w1)" by (metis surj_pair)
  let ?w2 = "sweep_staging m hour w1"
  obtain res3 tot3 m3 w3 where 3: "fold (gc_step enc lsof now ttl max_bytes pinned) (candidates (mir_idx m))
      (\<lparr>gc_removed = [], gc_retained = [], gc_bytes = 0\<rparr>, total_bytes (mir_idx m), m, ?w2) = (res3, tot3, m3, w3)"
    by (metis prod_cases4)
  have "prefix (path_comps (mir_root m)) (pin_comps m l)" by (simp add: pin_comps_def)
  then have apart: "ix_file_apart (mir_idx m) (pin_comps m l)" by (rule index_apart_slot [OF assms(2)])
  have "keeps_files (pin_comps m l) w w1" by (rule keeps_same [OF time_now_fs [OF 1]])
  moreover have "keeps_files (pin_comps m l) w1 ?w2"
    using sweep_keeps [OF assms(1,3)] assms(6) time_now_fs [OF 1] by simp
  moreover have "keeps_files (pin_comps m l) ?w2 w3"
    using gc_fold_pinned [OF 3 assms(5,4) apart] by simp
  moreover have "w' = prune_empty_dirs m3 w3"
    using assms(7) 1 3 by (auto simp: gc_def)
  then have "keeps_files (pin_comps m l) w3 w'" by (simp add: prune_empty_dirs_keeps)
  ultimately have "keeps_files (pin_comps m l) w w'" by (blast intro: keeps_trans)
  with assms(8-10) show ?thesis by (simp add: keeps_files_def)
qed


subsection \<open>Copies that are gone still count\<close>






subsection \<open>Empty directories of a synced copy\<close>



subsection \<open>Properties\<close>

text \<open>
  C14: garbage collection never removes or changes a file of a pinned label, whatever its age and
  size, whatever else is evicted and whichever calls fail on the way.
\<close>

theorem gc_spares_pinned:
  assumes "good_root (mir_root m)" and "index_apart m" and "valid_label l" and "l \<in> set pinned"
    and "\<forall>e \<in> set (candidates (mir_idx m)). \<exists>l'. slot_of m l' (ent_rel e)"
    and "plain_fs (os_fs w)" and "gc enc lsof m ttl max_bytes pinned w = (res, m', w')"
    and "prefix (pin_comps m l) p" and "get (os_fs w) p = Some n" and "\<not> is_dir (Some n)"
  shows "get (os_fs w') p = Some n"
  by (rule gc_keeps_pinned [OF assms])

text \<open>Two hosts, a month after their files were synced.\<close>

definition day :: int where
  "day = 24 * hour"

definition old_entry :: "string \<Rightarrow> bool \<Rightarrow> int \<Rightarrow> entry" where
  "old_entry k d n = \<lparr>ent_rel = k, ent_dir = d, ent_size = n, ent_sync_mod = zero_time,
     ent_last_sync = zero_time, ent_last_used = zero_time\<rparr>"

definition two_hosts :: mirror where
  "two_hosts = \<lparr>mir_root = ''/m'', mir_idx = \<lparr>ix_path = ''/s/i'',
     ix_entries = [(''a/x'', old_entry ''a/x'' False 2), (''b/y'', old_entry ''b/y'' False 2)]\<rparr>\<rparr>"

definition two_hosts_os :: os where
  "two_hosts_os = \<lparr>os_fs =
     [([], Dir zero_time), ([''s''], Dir zero_time), ([''m''], Dir zero_time),
      ([''m'', ''a''], Dir zero_time), ([''m'', ''a'', ''x''], File ''xx'' zero_time False),
      ([''m'', ''b''], Dir zero_time), ([''m'', ''b'', ''y''], File ''yy'' zero_time False)],
    os_now = time_add zero_time (30 * day), os_sched = []\<rparr>"

lemma two_hosts_slots: "\<forall>e \<in> set (candidates (mir_idx two_hosts)). \<exists>l'. slot_of two_hosts l' (ent_rel e)"
proof -
  have "good_root ''/m''" by (simp add: good_root_def path_comps_def slash_def plain_def)
  moreover have "valid_label ''a''" "valid_label ''b''" by (simp_all add: valid_label_iff in_cls_def label_head_def)
  moreover have "rel ''a'' ''/x'' = Inr ''a/x''" "rel ''b'' ''/y'' = Inr ''b/y''" by code_simp+
  ultimately have "slot_of two_hosts ''a'' ''a/x''" "slot_of two_hosts ''b'' ''b/y''"
    unfolding slot_of_def two_hosts_def mirror.simps by blast+
  then show ?thesis by (auto simp: candidates_def two_hosts_def old_entry_def)
qed

lemma two_hosts_apart: "index_apart two_hosts"
  by (simp add: index_apart_def two_hosts_def good_file_def tmp_of_def path_comps_def slash_def plain_def parallel_def)

theorem gc_spares_pinned_witness:
  "get (os_fs (snd (snd (gc (\<lambda>_. Inr ''{}'') (\<lambda>_. Inl CommandFailed) two_hosts (7 * day) 0 [''a''] two_hosts_os))))
     [''m'', ''a'', ''x''] = Some (File ''xx'' zero_time False)"
proof -
  obtain res m' w' where run: "gc (\<lambda>_. Inr ''{}'') (\<lambda>_. Inl CommandFailed) two_hosts (7 * day) 0 [''a''] two_hosts_os = (res, m', w')"
    by (metis prod_cases3)
  have "good_root (mir_root two_hosts)" by (simp add: two_hosts_def good_root_def path_comps_def slash_def plain_def)
  moreover have "valid_label ''a''" by (simp add: valid_label_iff in_cls_def label_head_def)
  moreover have "plain_fs (os_fs two_hosts_os)" by (simp add: plain_fs_def two_hosts_os_def plain_def slash_def)
  moreover have "prefix (pin_comps two_hosts ''a'') [''m'', ''a'', ''x'']"
    by (simp add: pin_comps_def two_hosts_def path_comps_def slash_def)
  moreover have "get (os_fs two_hosts_os) [''m'', ''a'', ''x''] = Some (File ''xx'' zero_time False)"
    by (simp add: two_hosts_os_def get_def)
  ultimately have "get (os_fs w') [''m'', ''a'', ''x''] = Some (File ''xx'' zero_time False)"
    using gc_spares_pinned [OF _ two_hosts_apart _ _ two_hosts_slots _ run] by simp
  then show ?thesis using run by simp
qed

text \<open>
  C30: with no failing call, every entry unused for longer than the retention time whose label is not
  pinned and whose copy no process has open is, when the collection is over, either reported as
  locally modified, or gone from the index and its copy gone from the disk.
\<close>

theorem gc_expired:
  assumes "os_sched w = []" and "index_ok (mir_idx m)" and "index_apart m" and "e \<in> set (candidates (mir_idx m))"
    and "slot_of m l (ent_rel e)"
    and "ttl < time_sub (os_now w) (ent_last_used e)" and "label_of (ent_rel e) \<notin> set pinned"
    and "\<not> file_in_use lsof (m_abs m (ent_rel e))"
    and "gc enc lsof m ttl max_bytes pinned w = (res, m', w')"
  shows "ent_rel e \<in> set (gc_retained res) \<or>
    ix_get (mir_idx m') (ent_rel e) = None \<and> get (os_fs w') (path_comps (m_abs m (ent_rel e))) = None"
proof (rule gc_parts [OF assms(1,2,9)])
  fix w1 tot w2
  assume ok: "gc_ok m (\<lparr>gc_removed = [], gc_retained = [], gc_bytes = 0\<rparr>, total_bytes (mir_idx m), m, w1)"
    and run: "fold (gc_step enc lsof (os_now w) ttl max_bytes pinned) (candidates (mir_idx m))
       (\<lparr>gc_removed = [], gc_retained = [], gc_bytes = 0\<rparr>, total_bytes (mir_idx m), m, w1) = (res, tot, m', w2)"
    and w': "w' = prune_empty_dirs m' w2"
  let ?D = "slot_comps m (ent_rel e)"
  have apart: "ix_file_apart (mir_idx m) ?D"
    by (rule slot_of_comps [OF assms(5)]) (simp add: index_apart_slot [OF assms(3)])
  have "os_sched w2 = []" using gc_fold_shrinks [OF ok apart run] shrinks_quiet by blast
  then have "get (os_fs w2) ?D = None \<Longrightarrow> get (os_fs w') ?D = None"
    using shrinks_absent [of ?D w2 w' ?D] prune_empty_quiet w' by blast
  then show ?thesis
    using gc_fold_expired [OF ok apart assms(4,6-8) run] by (auto simp: settled_def slot_comps_def)
qed

theorem gc_expired_witness:
  "case gc (\<lambda>_. Inr ''{}'') (\<lambda>_. Inl CommandFailed) two_hosts (7 * day) 0 [''a''] two_hosts_os of
     (res, m', w') \<Rightarrow> ''b/y'' \<in> set (gc_retained res) \<or>
        ix_get (mir_idx m') ''b/y'' = None \<and> get (os_fs w') [''m'', ''b'', ''y''] = None"
proof -
  obtain res m' w' where run: "gc (\<lambda>_. Inr ''{}'') (\<lambda>_. Inl CommandFailed) two_hosts (7 * day) 0 [''a''] two_hosts_os = (res, m', w')"
    by (metis prod_cases3)
  have e: "old_entry ''b/y'' False 2 \<in> set (candidates (mir_idx two_hosts))"
    by (simp add: candidates_def two_hosts_def)
  then obtain l where l: "slot_of two_hosts l (ent_rel (old_entry ''b/y'' False 2))" using two_hosts_slots by blast
  have due: "7 * day < time_sub (os_now two_hosts_os) (ent_last_used (old_entry ''b/y'' False 2))"
    by (simp add: time_sub_def two_hosts_os_def old_entry_def time_add_def zero_time_def day_def hour_def minute_def
        second_def max_i64_def min_i64_def)
  have path: "path_comps (m_abs two_hosts ''b/y'') = [''m'', ''b'', ''y'']" by code_simp
  from gc_expired [OF _ _ two_hosts_apart e l due _ _ run] show ?thesis
    using run path by (simp add: two_hosts_os_def two_hosts_def index_ok_def old_entry_def label_of_def slash_def file_in_use_def)
qed










end
