(* ===== verification/Slot_Region.thy ===== *)
theory Slot_Region
  imports Promote
begin

text \<open>
  The part of the file system a request of one host may touch: the directory of its label in the
  mirror, the staging area, and the index file with its temporary. Every mirror operation a request
  uses stays inside it; the facts rest on the \<open>region\<close> interface of \<open>FileSys\<close>.
\<close>

definition label_comps :: "mirror \<Rightarrow> string \<Rightarrow> path" where
  "label_comps m l = path_comps (mir_root m) @ [l]"

definition slot_region :: "mirror \<Rightarrow> string \<Rightarrow> path \<Rightarrow> bool" where
  "slot_region m l = below_any {label_comps m l, base_comps m,
     path_comps (ix_path (mir_idx m)), path_comps (tmp_of (ix_path (mir_idx m)))}"

interpretation slot: region "slot_region m l" for m l
  unfolding slot_region_def by (rule below.region_axioms)

lemma slot_region_parts:
  "slot_region m l (label_comps m l @ x)" "slot_region m l (base_comps m @ x)"
  "slot_region m l (path_comps (ix_path (mir_idx m)))" "slot_region m l (path_comps (tmp_of (ix_path (mir_idx m))))"
  by (simp_all add: slot_region_def below_any_def)

lemma frame_same: "os_fs w' = os_fs w \<Longrightarrow> frame R w w'"
  by (simp add: frame_def)

lemma slot_of_region:
  assumes "slot_of m l k"
  shows "slot_region m l (slot_comps m k)" "slot_region m l (path_comps (path_dir (m_abs m k)))"
proof -
  obtain cs where cs: "cs \<noteq> []" "slot_comps m k = path_comps (mir_root m) @ l # cs"
    "path_comps (path_dir (m_abs m k)) = butlast (slot_comps m k)"
    by (rule slot_of_comps [OF assms])
  then have "slot_comps m k = label_comps m l @ cs" "path_comps (path_dir (m_abs m k)) = label_comps m l @ butlast cs"
    by (simp_all add: label_comps_def butlast_append)
  then show "slot_region m l (slot_comps m k)" "slot_region m l (path_comps (path_dir (m_abs m k)))"
    by (simp_all add: slot_region_parts)
qed

lemma staging_dir_below:
  assumes "good_root (mir_root m)" "below_any D (base_comps m)" "anchored (below_any D) w" "staging_dir m w = (r, w')"
  shows "frame (below_any D) w w'"
proof -
  note b = base_comps [OF assms(1)]
  have "below_any D (base_comps m @ [nm])" for nm by (rule below.closed [OF assms(2)]) simp
  then have "frame (below_any D) w (snd (bind_os (os_mkdir_all (staging_base m) w) (\<lambda>_. os_mkdir_temp (staging_base m) ''req-'')))"
    using assms(2,3)
    by (intro bind_os_frame below.mkdir_all_frame [where q = "base_comps m"] mkdir_temp_frame) (simp_all add: b)
  then show ?thesis using assms(4) by (simp add: staging_dir_def)
qed

lemma staging_dir_frame:
  assumes "good_root (mir_root m)" "anchored (slot_region m l) w" "staging_dir m w = (r, w')"
  shows "frame (slot_region m l) w w'"
proof -
  have "slot_region m l (base_comps m)" using slot_region_parts(2) [of m l "[]"] by simp
  then show ?thesis
    using assms(2) unfolding slot_region_def by (rule staging_dir_below [OF assms(1) _ _ assms(3)])
qed

lemma staging_dir_result:
  assumes "good_root (mir_root m)" "staging_dir m w = (Inr d, w')"
  obtains nm where "plain nm" "d = path_join [staging_base m, nm]"
    "is_dir (get (os_fs w') (base_comps m @ [nm]))"
proof -
  obtain w1 where "os_mkdir_temp (staging_base m) ''req-'' w1 = (Inr d, w')"
    using assms(2) by (auto simp: staging_dir_def bind_os_def split: prod.splits sum.splits)
  from mkdir_temp_result [OF this] that plain_names(4) show thesis
    by (auto simp: Let_def base_comps [OF assms(1)])
qed

lemma swap_in_below:
  assumes s: "slot_of m l k" and D: "below_any D (label_comps m l)" "below_any D (base_comps m)"
    and a: "anchored (below_any D) w" and nm: "plain nm"
    and run: "swap_in (staging_base m) (staged_path m nm) (m_abs m k) w = (r, w')"
  shows "frame (below_any D) w w'"
proof -
  let ?R = "below_any D"
  have parts: "?R (label_comps m l @ x)" "?R (base_comps m @ x)" for x
    by (rule below.closed [OF D(1)], simp) (rule below.closed [OF D(2)], simp)
  obtain cs where cs: "slot_comps m k = label_comps m l @ cs" "path_comps (path_dir (m_abs m k)) = label_comps m l @ butlast cs"
    by (rule slot_of_comps [OF s]) (simp add: label_comps_def butlast_append)
  have g: "good_root (mir_root m)" using s by (simp add: slot_of_def)
  note base = base_comps [OF g] base_good [OF g]
  have dst: "?R (path_comps (m_abs m k))" using cs(1) parts(1) by (simp add: slot_comps_def)
  have st: "?R (path_comps (staged_path m nm))"
    by (simp add: staged_comps [OF g nm] parts)
  have move_in: "frame ?R w1 (snd (os_rename (staged_path m nm) (m_abs m k) w1))" for w1
    using st dst by (rule below.rename_frame)
  have aside: "frame ?R w3 (snd (exchange (staged_path m nm) (m_abs m k) d w3))"
    if "os_mkdir_temp (staging_base m) ''old-'' w2 = (Inr d, w3)" for d w2 w3
  proof -
    from mkdir_temp_result [OF that] obtain i where d: "d = path_join [staging_base m, ''old-'' @ decimal i]"
      by (auto simp: Let_def)
    note pl = plain_names(3) [of i]
    have A: "path_comps d = base_comps m @ [''old-'' @ decimal i]" "good_root d"
      unfolding d using join1_comps [OF base(2) pl] join1_good [OF base(2) pl] base(1) by simp_all
    have O: "?R (path_comps (path_join [d, payload_name]))" "?R (path_comps d)"
      "?R (path_comps (path_dir (path_join [d, payload_name])))"
      using join1_comps [OF A(2) plain_names(2)] path_dir_join2 [OF A(2), of "[payload_name]"] plain_names(2) A(1)
      by (simp_all add: parts)
    show ?thesis
      unfolding exchange_def Let_def
      using below.rename_frame [OF dst O(1), of w3] move_in below.rename_frame [OF O(1) dst]
        below.remove_all_frame [OF O(2)] below.remove_all_frame [OF O(3)]
      by (auto split: prod.split sum.split) (metis frame_trans snd_conv)+
  qed
  have "frame ?R w (snd (swap_in (staging_base m) (staged_path m nm) (m_abs m k) w))"
    unfolding swap_in_def
  proof (rule bind_os_frame)
    show "frame ?R w (snd (os_mkdir_all (path_dir (m_abs m k)) w))"
      using a parts(1) by (rule below.mkdir_all_frame [where q = "label_comps m l @ butlast cs"]) (simp add: cs)
  next
    fix x w1
    have temp: "frame ?R w2 (snd (bind_os (os_mkdir_temp (staging_base m) ''old-'' w2)
        (exchange (staged_path m nm) (m_abs m k))))" for w2
      by (intro bind_os_frame mkdir_temp_frame aside) (simp_all add: base parts)
    obtain r2 w2 where 2: "os_stat (m_abs m k) w1 = (r2, w2)" by (metis surj_pair)
    have "frame ?R w1 w2" by (rule frame_same [OF read_fs(1) [OF 2]])
    then show "frame ?R w1 (snd (case os_stat (m_abs m k) w1 of
         (Inl _, w2) \<Rightarrow> os_rename (staged_path m nm) (m_abs m k) w2
       | (Inr _, w2) \<Rightarrow> bind_os (os_mkdir_temp (staging_base m) ''old-'' w2)
           (exchange (staged_path m nm) (m_abs m k))))"
      using 2 move_in temp by (cases r2) (auto intro: frame_trans)
  qed
  then show ?thesis using run by simp
qed

lemma swap_in_frame:
  assumes "slot_of m l k" "anchored (slot_region m l) w" "plain nm"
    and "swap_in (staging_base m) (staged_path m nm) (m_abs m k) w = (r, w')"
  shows "frame (slot_region m l) w w'"
  using assms slot_region_parts(1,2) [of m l "[]"] unfolding slot_region_def
  by (intro swap_in_below [OF assms(1) _ _ _ assms(3,4)]) simp_all

lemma promote_frame:
  assumes "slot_of m l k" "anchored (slot_region m l) w" "plain nm"
    and "promote enc m (staged_path m nm) k dir w = (r, m', w')"
  shows "frame (slot_region m l) w w'"
  using assms(4)
proof (cases rule: promote_cases)
  case (failed e)
  then show ?thesis using swap_in_frame [OF assms(1-3)] by blast
next
  case (moved w1 sz t w2 u ix1 w3 ix2)
  have D: "slot_region m l (path_comps (ix_path (mir_idx m)))"
    "slot_region m l (path_comps (tmp_of (ix_path (mir_idx m))))"
    by (simp_all add: slot_region_parts)
  have "frame (slot_region m l) w w1" by (rule swap_in_frame [OF assms(1-3) moved(1)])
  moreover have "frame (slot_region m l) w1 w2" by (rule frame_same [OF sync_stamp_fs [OF moved(2)]])
  moreover have "frame (slot_region m l) w2 w3"
    using ix_ops_frame(4) [OF D [unfolded slot_region_def]] moved(3) unfolding slot_region_def by (metis snd_conv)
  moreover have "ix_path ix1 = ix_path (mir_idx m)" using ix_drop_result [OF moved(3)] by simp
  then have "frame (slot_region m l) w3 w'"
    using ix_ops_frame(1) [of _ ix1] D moved(4) unfolding slot_region_def by (metis snd_conv)
  ultimately show ?thesis by (blast intro: frame_trans)
qed

end
