(* ===== verification/Tarstream.thy ===== *)
theory Tarstream
  imports Trees Index
begin

text \<open>
  Directory transfer, \<open>internal/tarstream/tarstream.go\<close>: \<open>Pack\<close> and \<open>Unpack\<close>. The tar format itself
  (\<open>archive/tar\<close>) is not modelled: an archive is the sequence of members its reader delivers and
  its writer accepts. A member's data may be shorter than its header says and may end in an error,
  and the reader may report an error instead of a member, so the sequence stands for any byte
  stream a peer may send.
\<close>

datatype typeflag = TypeDir | TypeReg | TypeOther

record tar_header =
  th_name :: string
  th_type :: typeflag
  th_size :: int
  th_mode :: nat

text \<open>A call of \<open>Next\<close>: a header with the data that follows and the error it ends in, or an error.\<close>

datatype member = Member tar_header bytes "error option" | Broken error

subsection \<open>Unpack\<close>

text \<open>\<open>io.CopyN\<close> from the member's data to the open file: the bytes copied and the error.\<close>

definition copy_n :: "string \<Rightarrow> bytes \<Rightarrow> error option \<Rightarrow> int \<Rightarrow> os \<Rightarrow> (int \<times> error option) \<times> os" where
  "copy_n f body berr n w =
     (let d = take (nat n) body;
          short = (if int (length d) = n then None
                   else Some (case berr of None \<Rightarrow> EndOfFile | Some e \<Rightarrow> e))
      in if d = [] then ((0, short), w)
         else case os_append f d w of
                ((k, Some e), w') \<Rightarrow> ((int k, Some e), w')
              | ((k, None), w') \<Rightarrow> ((int k, short), w'))"

text \<open>\<open>errors.Is(err, io.EOF)\<close>: the end of the stream, also inside an error that wraps it.\<close>

fun is_eof :: "error \<Rightarrow> bool" where
  "is_eof EndOfFile = True"
| "is_eof (ReadingChunkHeader e) = is_eof e"
| "is_eof _ = False"

text \<open>One regular member: the bytes written, or the error that ends the extraction.\<close>

definition unpack_file :: "string \<Rightarrow> tar_header \<Rightarrow> bytes \<Rightarrow> error option \<Rightarrow> int \<Rightarrow> os \<Rightarrow> int result \<times> os" where
  "unpack_file target hdr body berr remaining w =
     (if th_size hdr < 0 \<or> remaining < th_size hdr then (Inl BudgetExceeded, w)
      else
        bind_os (os_mkdir_all (path_dir target) w) (\<lambda>_ w1.
          bind_os (os_create_excl target (bit (th_mode hdr) 6) w1) (\<lambda>_ w2.
            case copy_n target body berr (th_size hdr) w2 of
              ((n, cerr), w3) \<Rightarrow>
                (case os_close w3 of
                   (closed, w4) \<Rightarrow>
                     (let err = (if cerr = None then (case closed of Inl e \<Rightarrow> Some e | Inr _ \<Rightarrow> None) else cerr)
                      in if err \<noteq> None \<and> \<not> is_eof (the err) then (Inl (the err), w4) else (Inr n, w4))))))"

fun unpack_members ::
    "string \<Rightarrow> int \<Rightarrow> member list \<Rightarrow> int \<Rightarrow> int \<Rightarrow> int \<Rightarrow> os \<Rightarrow> (int \<times> error option) \<times> os" where
  "unpack_members dest max_entries [] entries remaining skipped w = ((skipped, None), w)"
| "unpack_members dest max_entries (Broken e # ms) entries remaining skipped w = ((skipped, Some e), w)"
| "unpack_members dest max_entries (Member hdr body berr # ms) entries remaining skipped w =
     (if max_entries < entries + 1 then ((skipped, Some BudgetExceeded), w)
      else
        case safe_join dest (th_name hdr) of
          Inl e \<Rightarrow> ((skipped, Some (RejectedEntry (th_name hdr) e)), w)
        | Inr target \<Rightarrow>
            (case th_type hdr of
               TypeDir \<Rightarrow>
                 (case os_mkdir_all target w of
                    (Inl e, w1) \<Rightarrow> ((skipped, Some e), w1)
                  | (Inr _, w1) \<Rightarrow> unpack_members dest max_entries ms (entries + 1) remaining skipped w1)
             | TypeReg \<Rightarrow>
                 (case unpack_file target hdr body berr remaining w of
                    (Inl e, w1) \<Rightarrow> ((skipped, Some e), w1)
                  | (Inr n, w1) \<Rightarrow> unpack_members dest max_entries ms (entries + 1) (remaining - n) skipped w1)
             | TypeOther \<Rightarrow> unpack_members dest max_entries ms (entries + 1) remaining (skipped + 1) w))"

definition unpack :: "member list \<Rightarrow> string \<Rightarrow> int \<Rightarrow> int \<Rightarrow> os \<Rightarrow> (int \<times> error option) \<times> os" where
  "unpack ms dest max_bytes max_entries w =
     (case os_mkdir_all dest w of
        (Inl e, w1) \<Rightarrow> ((0, Some e), w1)
      | (Inr _, w1) \<Rightarrow> unpack_members dest max_entries ms 0 max_bytes 0 w1)"

subsection \<open>Pack\<close>

text \<open>
  The callback of the walk for one node: its type is \<open>n\<close>, seen when its directory was read, \<open>sub\<close> its
  path below the packed directory. The file is read after its size was taken, and must not have
  become shorter. The modification time in the header is not kept: \<open>Unpack\<close> ignores it.
\<close>

definition pack_node :: "string \<Rightarrow> path \<Rightarrow> node \<Rightarrow> os \<Rightarrow> member list result \<times> os" where
  "pack_node f sub n w =
     bind_os (os_stat f w) (\<lambda>info w1.
       case n of
         Dir _ \<Rightarrow>
           (Inr [Member \<lparr>th_name = join_with slash sub @ ''/'', th_type = TypeDir, th_size = 0, th_mode = 0x1ED\<rparr> [] None], w1)
       | File _ _ _ \<Rightarrow>
           bind_os (os_read_file f w1) (\<lambda>c w2.
             if int (length c) < size_of info then (Inl UnexpectedEof, w2)
             else
               (Inr [Member \<lparr>th_name = join_with slash sub, th_type = TypeReg, th_size = size_of info,
                             th_mode = (case info of File _ _ True \<Rightarrow> 0x1ED | _ \<Rightarrow> 0x1A4)\<rparr>
                       (take (nat (size_of info)) c) None], w2))
       | Special _ _ \<Rightarrow> (Inr [], w1))"

fun pack_nodes :: "path \<Rightarrow> (path \<times> node) list \<Rightarrow> os \<Rightarrow> (int \<times> member list) \<times> error option \<times> os" where
  "pack_nodes root [] w = ((0, []), None, w)"
| "pack_nodes root ((p, n) # ns) w =
     (if p = root then pack_nodes root ns w
      else
        case pack_node (slash # join_with slash p) (drop (length root) p) n w of
          (Inl e, w1) \<Rightarrow> ((0, []), Some e, w1)
        | (Inr ms, w1) \<Rightarrow>
            (case pack_nodes root ns w1 of
               ((s, ms'), e, w2) \<Rightarrow> ((if ms = [] then s + 1 else s, ms @ ms'), e, w2)))"

definition pack :: "string \<Rightarrow> os \<Rightarrow> (int \<times> member list) \<times> error option \<times> os" where
  "pack dir w =
     (if get (os_fs w) (path_comps dir) = None then ((0, []), Some NotExist, w)
      else pack_nodes (path_comps dir) (walk (path_comps dir) (os_fs w)) w)"

subsection \<open>What an extraction can do\<close>

text \<open>
  \<open>Q w n w'\<close> relates the world before and after an extraction that wrote \<open>n\<close> bytes of file data. A
  relation that composes and holds of each call \<open>Unpack\<close> makes on an acceptable target holds of the
  whole extraction, with \<open>n\<close> within the budget.
\<close>

locale extraction =
  fixes Q :: "os \<Rightarrow> int \<Rightarrow> os \<Rightarrow> bool"
    and good :: "string \<Rightarrow> bool"
  assumes refl: "Q w 0 w"
    and trans: "Q w a w1 \<Longrightarrow> Q w1 b w2 \<Longrightarrow> Q w (a + b) w2"
    and mkdir: "good p \<Longrightarrow> Q w 0 (snd (os_mkdir_all p w))"
    and mkparent: "good p \<Longrightarrow> Q w 0 (snd (os_mkdir_all (path_dir p) w))"
    and create: "good p \<Longrightarrow> Q w 0 (snd (os_create_excl p x w))"
    and append: "good p \<Longrightarrow> os_append p d w = ((k, e), w') \<Longrightarrow> Q w (int k) w'"
    and closing: "Q w 0 (snd (os_close w))"
begin

lemma trans0: "Q w a w1 \<Longrightarrow> Q w1 0 w2 \<Longrightarrow> Q w a w2"
  using trans [of w a w1 0 w2] by simp

lemma Q0_trans: "Q w 0 w1 \<Longrightarrow> Q w1 b w2 \<Longrightarrow> Q w b w2"
  using trans [of w 0 w1 b w2] by simp

lemma copy_n:
  assumes "good p" "copy_n p body berr n w = ((k, e), w')" "0 \<le> n"
  shows "0 \<le> k \<and> k \<le> n \<and> Q w k w'"
proof (cases "take (nat n) body = []")
  case True
  then show ?thesis using assms by (simp add: copy_n_def Let_def refl split: if_splits)
next
  case False
  obtain j e' w1 where a: "os_append p (take (nat n) body) w = ((j, e'), w1)" by (metis surj_pair)
  then have "j \<le> length (take (nat n) body)"
    by (auto simp: os_append_def Let_def split: prod.splits option.splits node.splits)
  then have "j \<le> nat n" by simp
  then have "int j \<le> n" using assms(3) by linarith
  moreover have "k = int j \<and> w' = w1"
    using assms(2) a False by (cases e') (auto simp: copy_n_def Let_def split: if_splits)
  ultimately show ?thesis using append [OF assms(1) a] by simp
qed

lemma one_file:
  assumes "good p" "unpack_file p hdr body berr remaining w = (r, w')" "0 \<le> remaining"
  shows "\<exists>k. 0 \<le> k \<and> k \<le> remaining \<and> Q w k w' \<and> (\<forall>n. r = Inr n \<longrightarrow> k = n)"
proof (cases "th_size hdr < 0 \<or> remaining < th_size hdr")
  case True
  then show ?thesis using assms refl by (intro exI [of _ 0]) (auto simp: unpack_file_def)
next
  case False
  obtain r1 w1 where 1: "os_mkdir_all (path_dir p) w = (r1, w1)" by (metis surj_pair)
  have q1: "Q w 0 w1" using mkparent [OF assms(1), of w] 1 by simp
  show ?thesis
  proof (cases r1)
    case (Inl e)
    then show ?thesis using False 1 q1 assms by (intro exI [of _ 0]) (auto simp: unpack_file_def)
  next
    case (Inr u)
    obtain r2 w2 where 2: "os_create_excl p (bit (th_mode hdr) 6) w1 = (r2, w2)" by (metis surj_pair)
    have q2: "Q w 0 w2" using Q0_trans [OF q1] create [OF assms(1), of w1] 2 by (metis snd_conv)
    show ?thesis
    proof (cases r2)
      case (Inl e)
      then show ?thesis using False 1 2 q2 assms Inr by (intro exI [of _ 0]) (auto simp: unpack_file_def)
    next
      case (Inr u')
      obtain k e w3 where 3: "copy_n p body berr (th_size hdr) w2 = ((k, e), w3)" by (metis surj_pair)
      obtain c w4 where 4: "os_close w3 = (c, w4)" by (metis surj_pair)
      have k: "0 \<le> k" "k \<le> th_size hdr" "Q w2 k w3" using copy_n [OF assms(1) 3] False by auto
      have "Q w k w4"
        using Q0_trans [OF q2 k(3)] closing [of w3] 4 by (metis trans0 snd_conv)
      then show ?thesis
        using False 1 2 3 4 k \<open>r1 = Inr u\<close> Inr assms(2)
        by (intro exI [of _ k]) (auto simp: unpack_file_def Let_def split: if_splits)
    qed
  qed
qed

lemma members:
  assumes "\<forall>h b e t. Member h b e \<in> set ms \<longrightarrow> safe_join dest (th_name h) = Inr t \<longrightarrow> good t" "0 \<le> remaining"
  shows "\<exists>n. 0 \<le> n \<and> n \<le> remaining \<and> Q w n (snd (unpack_members dest max_entries ms entries remaining skipped w))"
  using assms
proof (induction dest max_entries ms entries remaining skipped w rule: unpack_members.induct)
  case (3 dest max_entries hdr body berr ms entries remaining skipped w)
  have rest: "\<forall>h b e t. Member h b e \<in> set ms \<longrightarrow> safe_join dest (th_name h) = Inr t \<longrightarrow> good t"
    using "3.prems"(1) by simp
  have still0: "\<exists>n. 0 \<le> n \<and> n \<le> remaining \<and> Q w n w" by (rule exI [where x = 0]) (simp add: refl "3.prems"(2))
  show ?case
  proof (cases "max_entries < entries + 1 \<or> (\<exists>e. safe_join dest (th_name hdr) = Inl e)")
    case True
    then have still: "snd (unpack_members dest max_entries (Member hdr body berr # ms) entries remaining skipped w) = w"
      by auto
    show ?thesis unfolding still by (rule still0)
  next
    case False
    then obtain t where t: "safe_join dest (th_name hdr) = Inr t" and le: "\<not> max_entries < entries + 1"
      by (cases "safe_join dest (th_name hdr)") auto
    then have g: "good t" using "3.prems"(1) by auto
    show ?thesis
    proof (cases "th_type hdr")
      case TypeDir
      obtain r1 w1 where 1: "os_mkdir_all t w = (r1, w1)" by (metis surj_pair)
      have q: "Q w 0 w1" using mkdir [OF g, of w] 1 by simp
      show ?thesis
      proof (cases r1)
        case (Inl e)
        then show ?thesis using t le TypeDir 1 q "3.prems"(2) by auto
      next
        case (Inr u)
        have "\<exists>n. 0 \<le> n \<and> n \<le> remaining \<and>
            Q w1 n (snd (unpack_members dest max_entries ms (entries + 1) remaining skipped w1))"
          using "3.IH"(1) [OF le t TypeDir 1 [symmetric] Inr rest "3.prems"(2)] .
        then show ?thesis using t le TypeDir 1 Inr Q0_trans [OF q] by auto
      qed
    next
      case TypeReg
      obtain r1 w1 where 1: "unpack_file t hdr body berr remaining w = (r1, w1)" by (metis surj_pair)
      obtain k where k: "0 \<le> k" "k \<le> remaining" "Q w k w1" "\<And>n. r1 = Inr n \<Longrightarrow> k = n"
        using one_file [OF g 1 "3.prems"(2)] by blast
      show ?thesis
      proof (cases r1)
        case (Inl e)
        then show ?thesis using t le TypeReg 1 k by auto
      next
        case (Inr n)
        have "\<exists>j. 0 \<le> j \<and> j \<le> remaining - n \<and>
            Q w1 j (snd (unpack_members dest max_entries ms (entries + 1) (remaining - n) skipped w1))"
          using "3.IH"(2) [OF le t TypeReg 1 [symmetric] Inr rest] k(2) k(4) [OF Inr] by simp
        then obtain j where j: "0 \<le> j" "j \<le> remaining - n"
          "Q w1 j (snd (unpack_members dest max_entries ms (entries + 1) (remaining - n) skipped w1))" by blast
        then show ?thesis using t le TypeReg 1 Inr k(4) [OF Inr] k(1) trans [OF k(3) j(3)]
          by (intro exI [of _ "n + j"]) auto
      qed
    next
      case TypeOther
      then show ?thesis using "3.IH"(3) [OF le t TypeOther rest "3.prems"(2)] t le TypeOther by simp
    qed
  qed
qed (use refl in \<open>auto intro: exI [of _ 0]\<close>)

lemma whole:
  assumes "\<forall>h b e t. Member h b e \<in> set ms \<longrightarrow> safe_join dest (th_name h) = Inr t \<longrightarrow> good t"
    and "Q w 0 (snd (os_mkdir_all dest w))" "0 \<le> max_bytes"
  shows "\<exists>n. 0 \<le> n \<and> n \<le> max_bytes \<and> Q w n (snd (unpack ms dest max_bytes max_entries w))"
proof -
  obtain r1 w1 where 1: "os_mkdir_all dest w = (r1, w1)" by (metis surj_pair)
  have "Q w 0 w1" using assms(2) 1 by simp
  then show ?thesis
    using 1 members [OF assms(1,3), of w1 max_entries 0 0] assms(3) Q0_trans
    by (cases r1) (auto simp: unpack_def)
qed

end

subsection \<open>Three instances: where, how much, what\<close>

definition confined :: "path set \<Rightarrow> os \<Rightarrow> int \<Rightarrow> os \<Rightarrow> bool" where
  "confined D w n w' \<longleftrightarrow> (anchored (below_any D) w \<longrightarrow> frame (below_any D) w w')"

definition inside :: "path set \<Rightarrow> string \<Rightarrow> bool" where
  "inside D p \<longleftrightarrow> below_any D (path_comps p) \<and> prefix (path_comps (path_dir p)) (path_comps p)"

lemma safe_join_inside:
  "good_root dest \<Longrightarrow> below_any D (path_comps dest) \<Longrightarrow> safe_join dest n = Inr t \<Longrightarrow> inside D t"
  using sj.join_under [of dest n t] safe_join_dir [of dest n t] below.closed
  by (auto simp: inside_def under_def)

interpretation conf: extraction "confined D" "inside D" for D
proof
  fix w a w1 b w2
  assume "confined D w a w1" "confined D w1 b w2"
  then show "confined D w (a + b) w2"
    unfolding confined_def using frame_anchored frame_trans by blast
next
  fix p d w k e w'
  assume "inside D p" "os_append p d w = ((k, e), w')"
  then show "confined D w (int k) w'"
    using below.append_frame [of D p w d] by (simp add: confined_def inside_def)
next
  fix p w
  assume "inside D p"
  then show "confined D w 0 (snd (os_mkdir_all (path_dir p) w))"
    using below.mkdir_all_frame [of D w "path_comps p" "path_dir p"] by (simp add: confined_def inside_def)
  from \<open>inside D p\<close> show "confined D w 0 (snd (os_mkdir_all p w))"
    using below.mkdir_all_frame [of D w "path_comps p" p] by (simp add: confined_def inside_def)
qed (simp_all add: confined_def inside_def below.create_excl_frame below.close_frame)

text \<open>The bytes of regular files grow by what was written.\<close>

lemma tree_bytes_put_new: "get fs q = None \<Longrightarrow> tree_bytes p (put q n fs) = tree_bytes p fs + (if prefix p q then reg_bytes n else 0)"
  by (induction fs) (auto simp: tree_bytes_def subtree_def put_def get_def split: if_splits)

lemma tree_bytes_put: "get fs q = Some n0 \<Longrightarrow>
    tree_bytes p (put q n fs) = tree_bytes p fs + (if prefix p q then reg_bytes n - reg_bytes n0 else 0)"
  by (induction fs) (auto simp: tree_bytes_def subtree_def put_def get_def split: if_splits)

lemma tree_bytes_touch: "tree_bytes p (touch q t fs) = tree_bytes p fs"
  by (auto simp: touch_def tree_bytes_put reg_bytes_def elim!: is_dirE)

lemma tree_bytes_mk_dirs: "tree_bytes p (snd (mk_dirs t ps fs)) = tree_bytes p fs"
  by (induction t ps fs rule: mk_dirs.induct)
     (auto simp: tree_bytes_touch tree_bytes_put_new reg_bytes_def split: option.split node.split)

definition grows :: "path \<Rightarrow> os \<Rightarrow> int \<Rightarrow> os \<Rightarrow> bool" where
  "grows p w n w' \<longleftrightarrow> tree_bytes p (os_fs w') \<le> tree_bytes p (os_fs w) + n"

lemma mkdir_all_snd:
  "\<exists>t ps. os_fs (snd (os_mkdir_all s w)) = snd (mk_dirs t ps (os_fs w))"
proof -
  obtain f w0 where e: "env_step w = (f, w0)" by (metis surj_pair)
  show ?thesis using env_step_fs [OF e] by (auto simp: os_mkdir_all_def Let_def e split: prod.split) (metis snd_conv)+
qed

interpretation bytes: extraction "grows p" "\<lambda>_. True" for p
proof
  fix q d w k e w'
  assume "os_append q d w = ((k, e), w')"
  then show "grows p w (int k) w'"
    by (auto simp: grows_def os_append_def Let_def env_step_fs tree_bytes_put reg_bytes_def
        split: prod.splits option.splits node.splits)
next
  fix q x w
  show "grows p w 0 (snd (os_create_excl q x w))"
    by (auto simp: grows_def os_create_excl_def Let_def env_step_fs tree_bytes_touch tree_bytes_put_new reg_bytes_def
        split: prod.split option.split)
next
  fix q w
  show "grows p w 0 (snd (os_mkdir_all q w))" "grows p w 0 (snd (os_mkdir_all (path_dir q) w))"
    using mkdir_all_snd [of q w] mkdir_all_snd [of "path_dir q" w] by (auto simp: grows_def tree_bytes_mk_dirs)
qed (auto simp: grows_def os_close_def env_step_fs split: prod.split)

text \<open>Only files and directories appear.\<close>

definition no_special :: "os \<Rightarrow> int \<Rightarrow> os \<Rightarrow> bool" where
  "no_special w n w' \<longleftrightarrow> (\<forall>p t k. get (os_fs w') p = Some (Special t k) \<longrightarrow> get (os_fs w) p = Some (Special t k))"

lemma mk_dirs_special:
  "get (snd (mk_dirs t ps fs)) p = Some (Special u k) \<Longrightarrow> get fs p = Some (Special u k)"
  by (induction t ps fs rule: mk_dirs.induct) (auto simp: get_touch get_put split: option.splits node.splits if_splits)

interpretation kinds: extraction no_special "\<lambda>_. True"
proof
  fix q w
  show "no_special w 0 (snd (os_mkdir_all q w))" "no_special w 0 (snd (os_mkdir_all (path_dir q) w))"
    using mkdir_all_snd [of q w] mkdir_all_snd [of "path_dir q" w] by (auto simp: no_special_def dest: mk_dirs_special)
qed (auto simp: no_special_def os_create_excl_def os_append_def os_close_def Let_def env_step_fs get_touch get_put
    split: prod.splits option.splits node.splits if_splits)

subsection \<open>What success means\<close>

fun acceptable :: "string \<Rightarrow> int \<Rightarrow> member \<Rightarrow> bool" where
  "acceptable dest budget (Broken e) = False"
| "acceptable dest budget (Member hdr body berr) =
     ((\<exists>t. safe_join dest (th_name hdr) = Inr t) \<and>
      (th_type hdr = TypeReg \<longrightarrow> 0 \<le> th_size hdr \<and> th_size hdr \<le> budget \<and> (case berr of Some e \<Rightarrow> is_eof e \<or> th_size hdr \<le> int (length body) | None \<Rightarrow> True)))"

fun is_other :: "member \<Rightarrow> bool" where
  "is_other (Broken e) = False"
| "is_other (Member hdr body berr) = (th_type hdr = TypeOther)"

lemma acceptable_mono: "acceptable dest b m \<Longrightarrow> b \<le> c \<Longrightarrow> acceptable dest c m"
  by (cases m) auto

lemma unpack_file_ok:
  assumes "unpack_file t hdr body berr remaining w = (Inr n, w')"
  shows "0 \<le> th_size hdr \<and> th_size hdr \<le> remaining \<and> 0 \<le> n \<and>
    (case berr of Some e \<Rightarrow> is_eof e \<or> th_size hdr \<le> int (length body) | None \<Rightarrow> True)"
proof -
  obtain w1 w2 c w3 where size: "0 \<le> th_size hdr" "th_size hdr \<le> remaining"
    and c: "copy_n t body berr (th_size hdr) w2 = ((n, c), w3)" "c = None \<or> is_eof (the c)"
    using assms by (auto simp: unpack_file_def bind_os_def Let_def split: prod.splits sum.splits if_splits)
  have "0 \<le> n \<and> (case berr of Some e \<Rightarrow> is_eof e \<or> th_size hdr \<le> int (length body) | None \<Rightarrow> True)"
  proof (rule ccontr)
    assume "\<not> ?thesis"
    with c size show False
      by (auto simp: copy_n_def Let_def os_append_def split: prod.splits option.splits if_splits node.splits)
  qed
  with size show ?thesis by simp
qed

lemma unpack_members_ok:
  "unpack_members dest max_entries ms entries remaining skipped w = ((s, None), w') \<Longrightarrow>
   list_all (acceptable dest remaining) ms \<and> (ms = [] \<or> entries + int (length ms) \<le> max_entries) \<and>
   s = skipped + int (length (filter is_other ms))"
proof (induction dest max_entries ms entries remaining skipped w rule: unpack_members.induct)
  case (3 dest max_entries hdr body berr ms entries remaining skipped w)
  from "3.prems" obtain t where le: "\<not> max_entries < entries + 1" and t: "safe_join dest (th_name hdr) = Inr t"
    by (auto split: if_splits sum.splits)
  show ?case
  proof (cases "th_type hdr")
    case TypeDir
    with "3.prems" le t obtain u w1 where 1: "os_mkdir_all t w = (Inr u, w1)"
      "unpack_members dest max_entries ms (entries + 1) remaining skipped w1 = ((s, None), w')"
      by (auto split: prod.splits sum.splits)
    from "3.IH"(1) [OF le t TypeDir 1(1) [symmetric] refl 1(2)] show ?thesis using TypeDir t le by auto
  next
    case TypeReg
    with "3.prems" le t obtain n w1 where 1: "unpack_file t hdr body berr remaining w = (Inr n, w1)"
      "unpack_members dest max_entries ms (entries + 1) (remaining - n) skipped w1 = ((s, None), w')"
      by (auto split: prod.splits sum.splits)
    note n = unpack_file_ok [OF 1(1)]
    from "3.IH"(2) [OF le t TypeReg 1(1) [symmetric] refl 1(2)] show ?thesis using TypeReg t le n
      by (auto simp: list_all_iff intro: acceptable_mono [of dest "remaining - n"])
  next
    case TypeOther
    with "3.prems" le t have "unpack_members dest max_entries ms (entries + 1) remaining (skipped + 1) w = ((s, None), w')"
      by simp
    from "3.IH"(3) [OF le t TypeOther this] show ?thesis using TypeOther t le by auto
  qed
qed auto

subsection \<open>Properties\<close>

text \<open>A hostile archive for the examples: an escape, a link and a file with a false size.\<close>

definition demo_member :: "string \<Rightarrow> typeflag \<Rightarrow> int \<Rightarrow> member" where
  "demo_member n ty k = Member \<lparr>th_name = n, th_type = ty, th_size = k, th_mode = 0x1A4\<rparr> ''data'' None"

definition hostile :: "member list" where
  "hostile = [demo_member ''d/'' TypeDir 0, demo_member ''d/f'' TypeReg 4, demo_member ''l'' TypeOther 0,
     demo_member ''../x'' TypeReg 4]"

definition stage_os :: os where
  "stage_os = \<lparr>os_fs = [([], Dir zero_time), ([''st''], Dir zero_time)], os_now = zero_time, os_sched = []\<rparr>"

lemma stage_anchored: "anchored (below_any {path_comps ''/st/p''}) stage_os"
  by (rule anchored_below) (auto simp: path_comps_def slash_def stage_os_def get_def less_Suc_eq)

text \<open>
  C7: whatever the archive holds and whichever call fails, \<open>Unpack\<close> touches nothing outside the
  destination: every file, link or device elsewhere is as it was, and directories elsewhere are
  still directories.
\<close>

theorem unpack_confined:
  assumes "good_root dest" and "0 \<le> max_bytes" and "anchored (below_any {path_comps dest}) w"
    and "unpack ms dest max_bytes max_entries w = (r, w')"
  shows "frame (below_any {path_comps dest}) w w'"
proof -
  let ?D = "{path_comps dest}"
  have D: "below_any ?D (path_comps dest)" by (simp add: below_any_def)
  then have "confined ?D w 0 (snd (os_mkdir_all dest w))"
    using below.mkdir_all_frame [of ?D w "path_comps dest" dest] by (simp add: confined_def)
  then obtain n where "confined ?D w n (snd (unpack ms dest max_bytes max_entries w))"
    using conf.whole [of ms dest ?D w max_bytes max_entries] safe_join_inside [OF assms(1) D] assms(2) by blast
  then show ?thesis using assms(3,4) by (simp add: confined_def)
qed

theorem unpack_confined_witness:
  "frame (below_any {path_comps ''/st/p''}) stage_os (snd (unpack hostile ''/st/p'' 10 100 stage_os))"
proof -
  have "good_root ''/st/p''" by (simp add: good_root_def path_comps_def slash_def plain_def)
  from unpack_confined [OF this _ stage_anchored surjective_pairing] show ?thesis by simp
qed

text \<open>
  C16: the regular files under the destination grow by at most the byte budget, however many members
  the archive has and whatever sizes their headers declare.
\<close>

theorem unpack_budget:
  assumes "0 \<le> max_bytes" and "unpack ms dest max_bytes max_entries w = (r, w')"
  shows "tree_bytes (path_comps dest) (os_fs w') \<le> tree_bytes (path_comps dest) (os_fs w) + max_bytes"
  using bytes.whole [of ms dest "path_comps dest" w max_bytes max_entries] bytes.mkdir assms by (auto simp: grows_def)

theorem unpack_budget_witness:
  "tree_bytes [''st'', ''p''] (os_fs (snd (unpack hostile ''/st/p'' 10 100 stage_os))) \<le> 10"
proof -
  have p: "path_comps ''/st/p'' = [''st'', ''p'']" by (simp add: path_comps_def slash_def)
  have z: "tree_bytes [''st'', ''p''] (os_fs stage_os) = 0"
    by (simp add: tree_bytes_def subtree_def stage_os_def)
  have "tree_bytes (path_comps ''/st/p'') (os_fs (snd (unpack hostile ''/st/p'' 10 100 stage_os)))
      \<le> tree_bytes (path_comps ''/st/p'') (os_fs stage_os) + 10"
    by (rule unpack_budget [OF _ surjective_pairing]) simp
  then show ?thesis by (simp only: p z add_0)
qed

text \<open>
  No link, device or other special file ever appears: after any extraction every special node
  was already there before.
\<close>

theorem unpack_no_links:
  assumes "0 \<le> max_bytes" and "unpack ms dest max_bytes max_entries w = (r, w')"
    and "get (os_fs w') p = Some (Special t k)"
  shows "get (os_fs w) p = Some (Special t k)"
proof -
  obtain n where "no_special w n (snd (unpack ms dest max_bytes max_entries w))"
    using kinds.whole [of ms dest w max_bytes max_entries] kinds.mkdir [where p = dest and w = w] assms(1) by blast
  then show ?thesis using assms(2,3) by (simp add: no_special_def)
qed

theorem unpack_no_links_witness:
  "\<not> (\<exists>t k. get (os_fs (snd (unpack hostile ''/st/p'' 10 100 stage_os))) [''st'', ''p'', ''l''] = Some (Special t k))"
proof
  assume "\<exists>t k. get (os_fs (snd (unpack hostile ''/st/p'' 10 100 stage_os))) [''st'', ''p'', ''l''] = Some (Special t k)"
  then obtain t k where "get (os_fs (snd (unpack hostile ''/st/p'' 10 100 stage_os))) [''st'', ''p'', ''l''] = Some (Special t k)"
    by blast
  from unpack_no_links [OF _ surjective_pairing this] have "get (os_fs stage_os) [''st'', ''p'', ''l''] = Some (Special t k)"
    by simp
  then show False by (simp add: stage_os_def get_def)
qed

text \<open>
  An extraction that reports success saw no broken member and no more members than the cap,
  every name was safe, every regular member declared a size within the budget and none broke off,
  and the count returned is the number of links, devices and other special members skipped.
\<close>

theorem unpack_success:
  assumes "unpack ms dest max_bytes max_entries w = ((s, None), w')"
  shows "list_all (acceptable dest max_bytes) ms \<and> (ms = [] \<or> int (length ms) \<le> max_entries) \<and>
    s = int (length (filter is_other ms))"
  using assms unpack_members_ok [of dest max_entries ms 0 max_bytes 0]
  by (auto simp: unpack_def split: prod.splits sum.splits)

theorem unpack_success_witness:
  "int (length (filter is_other (take 3 hostile))) = fst (fst (unpack (take 3 hostile) ''/st/p'' 10 100 stage_os))"
proof -
  have "snd (fst (unpack (take 3 hostile) ''/st/p'' 10 100 stage_os)) = None" by code_simp
  then obtain s w' where r: "unpack (take 3 hostile) ''/st/p'' 10 100 stage_os = ((s, None), w')"
    by (metis surjective_pairing)
  show ?thesis using unpack_success [OF r] r by simp
qed

end
