(* ===== verification/Config.thy ===== *)
theory Config
  imports Persist Protocol
begin

text \<open>
  The configuration, \<open>internal/config/config.go\<close>: the enrolled hosts, the defaults and checks of
  \<open>fill\<close>, enrolling a host, looking one up, loading and saving, and the derived paths. The JSON
  codec, the home directory, the environment variables and the operating system's name are
  parameters; an integer is an \<open>int64\<close> value.
\<close>

record host =
  h_label :: string
  h_dest :: string
  h_port :: int
  h_keep :: bool

record config =
  c_hosts :: "host list"
  c_mirror_dir :: string
  c_state_dir :: string
  c_ttl_days :: int
  c_max_mirror :: int
  c_max_payload :: int
  c_allow_inline :: "bool option"
  c_path :: string

definition no_config :: config where
  "no_config = \<lparr>c_hosts = [], c_mirror_dir = [], c_state_dir = [], c_ttl_days = 0, c_max_mirror = 0,
     c_max_payload = 0, c_allow_inline = None, c_path = []\<rparr>"

definition default_ttl_days :: int where "default_ttl_days = 7"
definition default_max_mirror :: int where "default_max_mirror = 2 * 2 ^ 30"
definition default_max_payload_bytes :: int where "default_max_payload_bytes = 500 * 2 ^ 20"
definition default_remote_port :: int where "default_remote_port = 47654"

text \<open>What the configuration reads of its surroundings.\<close>

record environ =
  en_home :: "string result"
  en_windows :: bool
  en_var :: "string \<Rightarrow> string"

subsection \<open>ssh destinations\<close>

definition dest_head :: "(char \<times> char) list" where
  "dest_head = [(CHR ''A'', CHR ''Z''), (CHR ''a'', CHR ''z''), (CHR ''0'', CHR ''9''),
     (CHR ''.'', CHR ''.''), (CHR ''_'', CHR ''_'')]"

definition dest_tail :: "(char \<times> char) list" where
  "dest_tail = dest_head @ [(CHR ''-'', CHR ''-'')]"

definition dest_part :: re where
  "dest_part = Seq (Cls dest_head) (Star (Cls dest_tail))"

definition dest_re :: re where
  "dest_re = Seq (Opt (Seq dest_part (Cls [(CHR ''@'', CHR ''@'')]))) dest_part"

definition valid_dest :: "string \<Rightarrow> bool" where
  "valid_dest s = re_match dest_re s"

subsection \<open>Enrolling and looking up hosts\<close>

definition host_by_label :: "config \<Rightarrow> string \<Rightarrow> host option" where
  "host_by_label c l = find (\<lambda>h. h_label h = l) (c_hosts c)"

definition add_host :: "config \<Rightarrow> host \<Rightarrow> config result" where
  "add_host c h =
     (if \<not> re_match label_re (h_label h) then Inl (InvalidHostLabel (h_label h))
      else if \<not> valid_dest (h_dest h) then Inl (InvalidDest (h_dest h))
      else if list_ex (\<lambda>e. h_label e = h_label h) (c_hosts c) then Inl (DuplicateLabel (h_label h))
      else Inr (c\<lparr>c_hosts := c_hosts c @ [h]\<rparr>))"

definition inline_allowed :: "config \<Rightarrow> bool" where
  "inline_allowed c = (case c_allow_inline c of None \<Rightarrow> True | Some b \<Rightarrow> b)"

subsection \<open>Defaults and checks\<close>

fun fill_hosts :: "string list \<Rightarrow> host list \<Rightarrow> host list result" where
  "fill_hosts seen [] = Inr []"
| "fill_hosts seen (h # hs) =
     (if \<not> re_match label_re (h_label h) then Inl (InvalidHostLabel (h_label h))
      else if h_label h \<in> set seen then Inl (DuplicateLabel (h_label h))
      else if \<not> valid_dest (h_dest h) then Inl (InvalidDest (h_dest h))
      else
        let h' = (if h_port h = 0 then h\<lparr>h_port := default_remote_port\<rparr> else h) in
        if h_port h' < 1 \<or> 65535 < h_port h' then Inl (InvalidPort (h_label h) (h_port h'))
        else case fill_hosts (h_label h # seen) hs of Inl e \<Rightarrow> Inl e | Inr hs' \<Rightarrow> Inr (h' # hs'))"

definition is_dir_at :: "string \<Rightarrow> os \<Rightarrow> bool \<times> os" where
  "is_dir_at p w = (case os_stat p w of (Inr n, w') \<Rightarrow> (is_dir (Some n), w') | (Inl _, w') \<Rightarrow> (False, w'))"

definition default_state_dir :: "environ \<Rightarrow> string \<Rightarrow> os \<Rightarrow> string \<times> os" where
  "default_state_dir en home w =
     (if en_windows en then
        (let d = en_var en ''LOCALAPPDATA'' in
         (if d \<noteq> [] then path_join [d, ''lopen''] else path_join [home, ''AppData'', ''Local'', ''lopen''], w))
      else
        let darwin = path_join [home, ''Library'', ''Application Support''] in
        case is_dir_at darwin w of
          (True, w') \<Rightarrow> (path_join [darwin, ''lopen''], w')
        | (False, w') \<Rightarrow>
            (let d = en_var en ''XDG_STATE_HOME'' in
             (if d \<noteq> [] then path_join [d, ''lopen'']
              else path_join [home, ''.local'', ''state'', ''lopen''], w')))"

definition fill :: "environ \<Rightarrow> config \<Rightarrow> os \<Rightarrow> config result \<times> os" where
  "fill en c w =
     (case en_home en of
        Inl e \<Rightarrow> (Inl e, w)
      | Inr home \<Rightarrow>
          (let c1 = (if c_mirror_dir c = [] then c\<lparr>c_mirror_dir := path_join [home, ''lopen'']\<rparr> else c) in
           case (if c_state_dir c1 = [] then default_state_dir en home w else (c_state_dir c1, w)) of
             (sd, w') \<Rightarrow>
               (let c2 = c1\<lparr>c_state_dir := sd\<rparr>;
                    c3 = (if c_ttl_days c2 = 0 then c2\<lparr>c_ttl_days := default_ttl_days\<rparr> else c2);
                    c4 = (if c_max_mirror c3 = 0 then c3\<lparr>c_max_mirror := default_max_mirror\<rparr> else c3);
                    c5 = (if c_max_payload c4 = 0 then c4\<lparr>c_max_payload := default_max_payload_bytes\<rparr> else c4)
                in case fill_hosts [] (c_hosts c5) of
                     Inl e \<Rightarrow> (Inl e, w')
                   | Inr hs \<Rightarrow> (Inr (c5\<lparr>c_hosts := hs\<rparr>), w'))))"

subsection \<open>Loading and saving\<close>

definition default_path :: "environ \<Rightarrow> string" where
  "default_path en =
     path_join [case en_home en of Inl _ \<Rightarrow> [] | Inr h \<Rightarrow> h, ''.config/lopen/config.json'']"

definition config_load :: "environ \<Rightarrow> (bytes \<Rightarrow> config option) \<Rightarrow> string \<Rightarrow> os \<Rightarrow> config result \<times> os" where
  "config_load en dec path w =
     (let p = (if path = [] then default_path en else path) in
      case os_read_file p w of
        (Inl e, w') \<Rightarrow> (Inl e, w')
      | (Inr b, w') \<Rightarrow>
          (case dec b of
             None \<Rightarrow> (Inl ConfigError, w')
           | Some c \<Rightarrow> fill en (c\<lparr>c_path := p\<rparr>) w'))"

definition config_load_raw :: "environ \<Rightarrow> (bytes \<Rightarrow> config option) \<Rightarrow> string \<Rightarrow> os \<Rightarrow> config result \<times> os" where
  "config_load_raw en dec path w =
     (let p = (if path = [] then default_path en else path) in
      case os_read_file p w of
        (Inl e, w') \<Rightarrow> (if e = NotExist then Inr (no_config\<lparr>c_path := p\<rparr>) else Inl e, w')
      | (Inr b, w') \<Rightarrow>
          (case dec b of None \<Rightarrow> (Inl ConfigError, w') | Some c \<Rightarrow> (Inr (c\<lparr>c_path := p\<rparr>), w')))"

definition config_file :: "environ \<Rightarrow> config \<Rightarrow> string" where
  "config_file en c = (if c_path c = [] then default_path en else c_path c)"

definition config_save :: "environ \<Rightarrow> (config \<Rightarrow> bytes result) \<Rightarrow> config \<Rightarrow> os \<Rightarrow> unit result \<times> os" where
  "config_save en enc c w =
     (let c' = c\<lparr>c_path := config_file en c\<rparr> in
      bind_os (os_mkdir_all (path_dir (c_path c')) w) (\<lambda>_ w1.
        case enc c' of
          Inl e \<Rightarrow> (Inl e, w1)
        | Inr b \<Rightarrow>
            bind_os (os_write_file (tmp_of (c_path c')) b w1) (\<lambda>_. os_rename (tmp_of (c_path c')) (c_path c'))))"

subsection \<open>Derived paths\<close>

definition socket_dir :: "config \<Rightarrow> string" where
  "socket_dir c = path_join [c_state_dir c, ''hosts'']"
definition index_path :: "config \<Rightarrow> string" where
  "index_path c = path_join [c_state_dir c, ''index.json'']"
definition control_dir :: "config \<Rightarrow> string" where
  "control_dir c = path_join [c_state_dir c, ''ctl'']"
definition tokens_path :: "config \<Rightarrow> string" where
  "tokens_path c = path_join [c_state_dir c, ''tokens.json'']"
definition lock_path :: "config \<Rightarrow> string" where
  "lock_path c = path_join [c_state_dir c, ''lopend.lock'']"

subsection \<open>Lemmas\<close>

lemma valid_label_re: "re_match label_re s = valid_label s"
  by (simp add: valid_label_def)

lemma dest_part_lang: "s \<in> re_lang dest_part \<longleftrightarrow> (\<exists>c cs. s = c # cs \<and> in_cls dest_head c \<and> list_all (in_cls dest_tail) cs)"
  using match_head_star by (simp add: dest_part_def re_match_lang del: re_lang.simps)

lemma conc_optional:
  "s \<in> conc (insert [] (conc P {[a]})) P \<longleftrightarrow> s \<in> P \<or> (\<exists>u h. s = u @ a # h \<and> u \<in> P \<and> h \<in> P)" (is "?L \<longleftrightarrow> ?R")
proof
  assume ?L
  then obtain x h where x: "s = x @ h" "h \<in> P" "x = [] \<or> x \<in> conc P {[a]}" by (auto simp: conc_def)
  then show ?R by (auto simp: conc_def)
next
  assume ?R
  then show ?L
  proof
    assume "s \<in> P"
    then have "s = [] @ s" "[] \<in> insert [] (conc P {[a]})" by simp_all
    with \<open>s \<in> P\<close> show ?L unfolding conc_def by blast
  next
    assume "\<exists>u h. s = u @ a # h \<and> u \<in> P \<and> h \<in> P"
    then obtain u h where "s = (u @ [a]) @ h" "u @ [a] \<in> conc P {[a]}" "h \<in> P" by (auto simp: conc_def)
    then show ?L unfolding conc_def by blast
  qed
qed

lemma valid_dest_iff:
  "valid_dest s \<longleftrightarrow> s \<in> re_lang dest_part \<or>
     (\<exists>u h. s = u @ CHR ''@'' # h \<and> u \<in> re_lang dest_part \<and> h \<in> re_lang dest_part)"
proof -
  have "in_cls [(a, a)] c \<longleftrightarrow> c = a" for a c
    by (auto simp: in_cls_def dest: antisym)
  then have "re_lang (Cls [(CHR ''@'', CHR ''@'')]) = {''@''}" by simp
  then show ?thesis
    unfolding valid_dest_def re_match_lang dest_re_def
    by (simp add: conc_optional del: re_lang.simps(3))
qed

text \<open>The characters of a destination, one by one.\<close>

definition dest_alphabet :: "char set" where
  "dest_alphabet = set ''ABCDEFGHIJKLMNOPQRSTUVWXYZabcdefghijklmnopqrstuvwxyz0123456789._-''"

lemma alphabet_codes: "of_char ` dest_alphabet = set ([65..<91] @ [97..<123] @ [48..<58] @ [46, 95, 45 :: nat])"
proof -
  have "map of_char ''ABCDEFGHIJKLMNOPQRSTUVWXYZabcdefghijklmnopqrstuvwxyz0123456789._-'' =
      [65..<91] @ [97..<123] @ [48..<58] @ [46, 95, 45 :: nat]"
    by code_simp
  from arg_cong [OF this, of set] show ?thesis unfolding dest_alphabet_def set_map .
qed

lemma dest_chars:
  "in_cls dest_tail c \<longleftrightarrow> c \<in> dest_alphabet" "in_cls dest_head c \<longleftrightarrow> c \<in> dest_alphabet \<and> c \<noteq> CHR ''-''"
proof -
  define n where "n = (of_char c :: nat)"
  have "c \<in> dest_alphabet \<longleftrightarrow> n \<in> of_char ` dest_alphabet" by (auto simp: n_def)
  then have mem: "c \<in> dest_alphabet \<longleftrightarrow> 65 \<le> n \<and> n < 91 \<or> 97 \<le> n \<and> n < 123 \<or> 48 \<le> n \<and> n < 58 \<or> n = 46 \<or> n = 95 \<or> n = 45"
    by (simp only: alphabet_codes set_append set_upt list.set Un_iff atLeastLessThan_iff insert_iff empty_iff
        conj_assoc disj_assoc simp_thms)
  have head: "in_cls dest_head c \<longleftrightarrow> 65 \<le> n \<and> n \<le> 90 \<or> 97 \<le> n \<and> n \<le> 122 \<or> 48 \<le> n \<and> n \<le> 57 \<or> n = 46 \<or> n = 95"
    by (simp add: in_cls_def dest_head_def n_def eq_iff conj_commute)
  have tail: "in_cls dest_tail c \<longleftrightarrow> in_cls dest_head c \<or> n = 45"
    by (simp add: in_cls_def dest_tail_def n_def eq_iff conj_commute)
  have dash: "c = CHR ''-'' \<longleftrightarrow> n = 45"
  proof -
    have "c = CHR ''-'' \<longleftrightarrow> n = of_char (CHR ''-'')" unfolding n_def by (simp only: of_char_eq_iff)
    then show ?thesis by simp
  qed
  show "in_cls dest_tail c \<longleftrightarrow> c \<in> dest_alphabet" unfolding tail head mem by linarith
  show "in_cls dest_head c \<longleftrightarrow> c \<in> dest_alphabet \<and> c \<noteq> CHR ''-''" unfolding head mem dash by linarith
qed

lemma at_most_two:
  assumes "\<And>u. Q u \<Longrightarrow> d \<notin> set u"
  shows "Q s \<or> (\<exists>u h. s = u @ d # h \<and> Q u \<and> Q h) \<longleftrightarrow> length (split_on d s) \<le> 2 \<and> list_all Q (split_on d s)"
    (is "?L \<longleftrightarrow> ?R")
proof
  assume ?L
  then show ?R using assms by (auto simp: split_on_append split_on_free)
next
  assume R: ?R
  have s: "s = join_with d (split_on d s)" by simp
  show ?L
  proof (cases "split_on d s")
    case (Cons u us)
    show ?thesis
    proof (cases us)
      case Nil
      then show ?thesis using R s Cons by simp
    next
      case (Cons v vs)
      then have "vs = []" using R \<open>split_on d s = u # us\<close> by simp
      then have "s = u @ d # v" "Q u" "Q v" using R s \<open>split_on d s = u # us\<close> Cons by auto
      then show ?thesis by blast
    qed
  qed simp
qed

definition port_of :: "host \<Rightarrow> int" where
  "port_of h = (if h_port h = 0 then default_remote_port else h_port h)"

definition fill_port :: "host \<Rightarrow> host" where
  "fill_port h = h\<lparr>h_port := port_of h\<rparr>"

definition host_ok :: "host \<Rightarrow> bool" where
  "host_ok h \<longleftrightarrow> valid_label (h_label h) \<and> valid_dest (h_dest h) \<and> 1 \<le> port_of h \<and> port_of h \<le> 65535"

lemma fill_hosts_iff:
  "fill_hosts seen hs = Inr hs' \<longleftrightarrow>
     list_all host_ok hs \<and> distinct (map h_label hs) \<and> set (map h_label hs) \<inter> set seen = {} \<and>
     hs' = map fill_port hs"
proof (induction seen hs arbitrary: hs' rule: fill_hosts.induct)
  case (2 seen h hs)
  let ?h = "if h_port h = 0 then h\<lparr>h_port := default_remote_port\<rparr> else h"
  have h: "?h = fill_port h" "h_port ?h = port_of h" by (auto simp: fill_port_def port_of_def)
  show ?case
  proof (cases "host_ok h \<and> h_label h \<notin> set seen")
    case True
    then have ok: "valid_label (h_label h)" "valid_dest (h_dest h)" "\<not> h_port ?h < 1" "\<not> 65535 < h_port ?h"
      using h by (simp_all add: host_ok_def)
    then have "fill_hosts seen (h # hs) =
        (case fill_hosts (h_label h # seen) hs of Inl e \<Rightarrow> Inl e | Inr hs' \<Rightarrow> Inr (fill_port h # hs'))"
      using h True by (simp add: valid_label_re Let_def)
    moreover have "fill_hosts (h_label h # seen) hs = Inr x \<longleftrightarrow>
        list_all host_ok hs \<and> distinct (map h_label hs) \<and> set (map h_label hs) \<inter> set (h_label h # seen) = {} \<and>
        x = map fill_port hs" for x
      using "2.IH" [OF _ _ _ refl, of x] ok True by (simp add: valid_label_re)
    ultimately show ?thesis using True by (cases "fill_hosts (h_label h # seen) hs") auto
  next
    case False
    then show ?thesis using h by (auto simp: host_ok_def valid_label_re Let_def split: sum.splits)
  qed
qed auto

lemma fill_port_fix: "fill_port (fill_port h) = fill_port h"
  by (simp add: fill_port_def port_of_def default_remote_port_def)

lemma fill_port_label: "h_label (fill_port h) = h_label h"
  by (simp add: fill_port_def)

lemma fill_port_ok: "host_ok h \<Longrightarrow> host_ok (fill_port h)"
  by (simp add: host_ok_def fill_port_def port_of_def default_remote_port_def)

lemma fill_form:
  assumes "fill en c w = (Inr c', w')"
  shows "\<exists>home. en_home en = Inr home \<and> fill_hosts [] (c_hosts c) = Inr (c_hosts c') \<and>
    c_mirror_dir c' = (if c_mirror_dir c = [] then path_join [home, ''lopen''] else c_mirror_dir c) \<and>
    c_state_dir c' = (if c_state_dir c = [] then fst (default_state_dir en home w) else c_state_dir c) \<and>
    c_ttl_days c' = (if c_ttl_days c = 0 then default_ttl_days else c_ttl_days c) \<and>
    c_max_mirror c' = (if c_max_mirror c = 0 then default_max_mirror else c_max_mirror c) \<and>
    c_max_payload c' = (if c_max_payload c = 0 then default_max_payload_bytes else c_max_payload c) \<and>
    c_allow_inline c' = c_allow_inline c \<and> c_path c' = c_path c"
  using assms by (auto simp: fill_def Let_def split: sum.splits prod.splits if_splits)

lemma default_state_dir_not_Nil: "fst (default_state_dir en home w) \<noteq> []"
  by (auto simp: default_state_dir_def Let_def path_join_not_Nil split: prod.splits bool.splits)

lemma fill_hosts_map: "fill_hosts [] hs = Inr hs' \<Longrightarrow> hs' = map fill_port hs"
  by (simp add: fill_hosts_iff)

lemma fill_filled:
  assumes "fill en c w = (Inr c', w')"
  shows "c_mirror_dir c' \<noteq> []" "c_state_dir c' \<noteq> []" "c_ttl_days c' \<noteq> 0" "c_max_mirror c' \<noteq> 0"
    "c_max_payload c' \<noteq> 0" "fill_hosts [] (c_hosts c) = Inr (c_hosts c')"
proof -
  obtain home where f: "fill_hosts [] (c_hosts c) = Inr (c_hosts c')"
    "c_mirror_dir c' = (if c_mirror_dir c = [] then path_join [home, ''lopen''] else c_mirror_dir c)"
    "c_state_dir c' = (if c_state_dir c = [] then fst (default_state_dir en home w) else c_state_dir c)"
    "c_ttl_days c' = (if c_ttl_days c = 0 then default_ttl_days else c_ttl_days c)"
    "c_max_mirror c' = (if c_max_mirror c = 0 then default_max_mirror else c_max_mirror c)"
    "c_max_payload c' = (if c_max_payload c = 0 then default_max_payload_bytes else c_max_payload c)"
    using fill_form [OF assms] by blast
  show "c_mirror_dir c' \<noteq> []" unfolding f(2) by (simp add: path_join_not_Nil)
  show "c_state_dir c' \<noteq> []" unfolding f(3) using default_state_dir_not_Nil by simp
  show "c_ttl_days c' \<noteq> 0" "c_max_mirror c' \<noteq> 0" "c_max_payload c' \<noteq> 0"
    unfolding f(4-6) by (simp_all add: default_ttl_days_def default_max_mirror_def default_max_payload_bytes_def)
  show "fill_hosts [] (c_hosts c) = Inr (c_hosts c')" by (rule f(1))
qed

subsection \<open>Properties\<close>

text \<open>
  A configuration is accepted exactly when the home directory is known, every host has a valid
  label, a valid destination and a port that is left out or between 1 and 65535, and no label
  occurs twice; the accepted one has the same hosts with the default port filled in, and every
  other setting at its default where it was zero or empty.
\<close>

theorem fill_exact:
  "case fst (fill en c w) of
     Inl e \<Rightarrow> \<not> ((\<exists>home. en_home en = Inr home) \<and> list_all host_ok (c_hosts c) \<and> distinct (map h_label (c_hosts c)))
   | Inr c' \<Rightarrow> (\<exists>home. en_home en = Inr home) \<and> list_all host_ok (c_hosts c) \<and> distinct (map h_label (c_hosts c)) \<and>
       c_hosts c' = map fill_port (c_hosts c) \<and> c_mirror_dir c' \<noteq> [] \<and> c_state_dir c' \<noteq> [] \<and>
       c_ttl_days c' \<noteq> 0 \<and> c_max_mirror c' \<noteq> 0 \<and> c_max_payload c' \<noteq> 0"
proof (cases "fst (fill en c w)")
  case (Inr c')
  then have "fill en c w = (Inr c', snd (fill en c w))" by (simp add: prod_eq_iff)
  note filled = fill_filled [OF this] and form = fill_form [OF this]
  have "list_all host_ok (c_hosts c)" "distinct (map h_label (c_hosts c))"
    using filled(6) by (simp_all add: fill_hosts_iff)
  moreover have "\<exists>home. en_home en = Inr home" using form by blast
  ultimately show ?thesis unfolding Inr sum.case using filled(1-5) fill_hosts_map [OF filled(6)] by blast
next
  case (Inl e)
  have "\<exists>c'. fst (fill en c w) = Inr c'" if "en_home en = Inr home" "fill_hosts [] (c_hosts c) = Inr hs" for home hs
    using that by (auto simp: fill_def Let_def split: prod.split)
  then show ?thesis unfolding Inl sum.case by (auto simp: fill_hosts_iff)
qed

text \<open>
  Loading is stable: what \<open>fill\<close> produces it accepts again and leaves alone, so a configuration
  written back by the program loads to itself.
\<close>

theorem fill_idempotent:
  assumes "fill en c w = (Inr c', w')"
  shows "fill en c' w2 = (Inr c', w2)"
proof -
  obtain home where home: "en_home en = Inr home" using fill_form [OF assms] by blast
  note filled = fill_filled [OF assms]
  have "map fill_port (c_hosts c') = c_hosts c'" "list_all host_ok (c_hosts c')" "distinct (map h_label (c_hosts c'))"
    using filled(6) by (auto simp: fill_hosts_iff fill_port_fix list_all_iff fill_port_ok comp_def fill_port_label)
  then have "fill_hosts [] (c_hosts c') = Inr (c_hosts c')" by (simp add: fill_hosts_iff)
  then show ?thesis using home filled(1-5) by (simp add: fill_def Let_def)
qed

text \<open>
  Enrolling a host succeeds exactly when its label and destination are valid and the label is
  new; then the new host is found under its label and every other lookup is unchanged.
\<close>

theorem add_host_lookup:
  "(case add_host c h of
      Inl e \<Rightarrow> \<not> (valid_label (h_label h) \<and> valid_dest (h_dest h) \<and> host_by_label c (h_label h) = None)
    | Inr c' \<Rightarrow>
        valid_label (h_label h) \<and> valid_dest (h_dest h) \<and> host_by_label c (h_label h) = None \<and>
        (\<forall>l. host_by_label c' l = (if l = h_label h then Some h else host_by_label c l)))"
proof -
  have "find (\<lambda>e. h_label e = l) (hs @ [h]) =
      (case find (\<lambda>e. h_label e = l) hs of None \<Rightarrow> if h_label h = l then Some h else None | Some x \<Rightarrow> Some x)" for l hs
    by (induction hs) auto
  moreover have "list_ex P hs \<longleftrightarrow> find P hs \<noteq> None" for P and hs :: "host list"
    by (induction hs) auto
  ultimately show ?thesis
    by (auto simp: add_host_def host_by_label_def valid_label_re split: option.splits)
qed

text \<open>
  Enrolment does not check the port: a host with any port above 65535 is accepted and would be
  saved, and the configuration then no longer loads.
\<close>

theorem add_host_bad_port:
  assumes "add_host c h = Inr c'" and "65535 < h_port h"
  shows "\<not> (\<exists>c''. fst (fill en c' w) = Inr c'')"
proof -
  have "h \<in> set (c_hosts c')" using assms(1) by (auto simp: add_host_def split: if_splits)
  moreover have "\<not> host_ok h" using assms(2) by (simp add: host_ok_def port_of_def)
  ultimately have "\<not> list_all host_ok (c_hosts c')" by (auto simp: list_all_iff)
  then have "\<not> (\<exists>hs. fill_hosts [] (c_hosts c') = Inr hs)" by (simp add: fill_hosts_iff)
  moreover have "\<exists>hs. fill_hosts [] (c_hosts c') = Inr hs" if "fst (fill en c' w) = Inr c''" for c''
    using fill_form [of en c' w c'' "snd (fill en c' w)"] that by (auto simp: prod_eq_iff)
  ultimately show ?thesis by blast
qed

text \<open>
  C34: the ssh destinations accepted are exactly \<open>host\<close> and \<open>user@host\<close> where each part is a word that
  does not start with a dash, over an alphabet written out here letter by letter. So one is never
  empty, never an option, and holds no blank, no quote and no character a shell gives a meaning to.
\<close>

theorem valid_dest_safe:
  "(valid_dest s \<longleftrightarrow> length (split_on (CHR ''@'') s) \<le> 2 \<and>
     list_all (\<lambda>p. p \<noteq> [] \<and> hd p \<noteq> CHR ''-'' \<and>
         set p \<subseteq> set ''ABCDEFGHIJKLMNOPQRSTUVWXYZabcdefghijklmnopqrstuvwxyz0123456789._-'')
       (split_on (CHR ''@'') s)) \<and>
   (valid_dest s \<longrightarrow> s \<noteq> [] \<and> hd s \<noteq> CHR ''-'' \<and>
     set s \<inter> set ('' ;&|<>()$*?[]#~=%{}!^'' @ [CHR 0x60, CHR 0x22, CHR 0x27, CHR 0x5C, CHR 0x0A, CHR 0x09]) = {})"
proof -
  let ?at = "CHR ''@''" and ?ok = "\<lambda>p. p \<noteq> [] \<and> hd p \<noteq> CHR ''-'' \<and> set p \<subseteq> dest_alphabet"
  have part: "u \<in> re_lang dest_part \<longleftrightarrow> ?ok u" for u
    by (cases u) (auto simp: dest_part_lang dest_chars list_all_iff)
  have free: "?at \<notin> set u" if "?ok u" for u using that by (auto simp: dest_alphabet_def)
  have iff: "valid_dest s \<longleftrightarrow> length (split_on ?at s) \<le> 2 \<and> list_all ?ok (split_on ?at s)"
    unfolding valid_dest_iff part by (rule at_most_two) (use free in blast)
  have "set s \<subseteq> insert ?at dest_alphabet" "s \<noteq> []" "hd s \<noteq> CHR ''-''" if "valid_dest s"
    using that unfolding valid_dest_iff part by (auto simp: hd_append)
  moreover have "insert ?at dest_alphabet \<inter> set ('' ;&|<>()$*?[]#~=%{}!^'' @
      [CHR 0x60, CHR 0x22, CHR 0x27, CHR 0x5C, CHR 0x0A, CHR 0x09]) = {}"
    by (simp add: dest_alphabet_def)
  ultimately show ?thesis using iff unfolding dest_alphabet_def by blast
qed

definition demo_env :: environ where
  "demo_env = \<lparr>en_home = Inr ''/home/u'', en_windows = False, en_var = (\<lambda>_. [])\<rparr>"

definition demo_host :: host where
  "demo_host = \<lparr>h_label = ''h'', h_dest = ''me@h.net'', h_port = 70000, h_keep = False\<rparr>"

definition empty_os :: os where
  "empty_os = \<lparr>os_fs = [], os_now = zero_time, os_sched = []\<rparr>"

lemma demo_dest: "valid_dest ''me@h.net''"
  by (simp add: valid_dest_def dest_re_def dest_part_def in_cls_def dest_head_def dest_tail_def)

theorem fill_idempotent_witness:
  "\<exists>c. fill demo_env (c::config) empty_os = (Inr c, empty_os) \<and> c_mirror_dir c = ''/home/u/lopen''"
proof -
  obtain sd w' where "default_state_dir demo_env ''/home/u'' empty_os = (sd, w')" by (metis surj_pair)
  then have "\<exists>c. fill demo_env no_config empty_os = (Inr c, w') \<and> c_mirror_dir c = ''/home/u/lopen''"
    by (simp add: fill_def demo_env_def no_config_def Let_def path_join_def path_clean_def path_comps_def slash_def)
  then obtain c where c: "fill demo_env no_config empty_os = (Inr c, w')" "c_mirror_dir c = ''/home/u/lopen''" by blast
  from fill_idempotent [OF c(1), of empty_os] c(2) show ?thesis by blast
qed

theorem add_host_bad_port_witness:
  "\<exists>c'. add_host no_config demo_host = Inr c' \<and> \<not> (\<exists>c''. fst (fill demo_env c' empty_os) = Inr c'')"
proof -
  have "add_host no_config demo_host = Inr (no_config\<lparr>c_hosts := [demo_host]\<rparr>)"
    using demo_dest
    by (simp add: add_host_def demo_host_def no_config_def label_re_def in_cls_def label_head_def)
  from add_host_bad_port [OF this, of demo_env empty_os] this show ?thesis by (auto simp: demo_host_def)
qed

theorem valid_dest_safe_witness: "valid_dest ''me@h.net'' \<and> hd ''me@h.net'' \<noteq> CHR ''-'' \<and> CHR '';'' \<notin> set ''me@h.net''"
  using valid_dest_safe [of "''me@h.net''"] demo_dest by simp

end
