(* ===== verification/GoText.thy ===== *)
theory GoText
  imports Prelude
begin

text \<open>
  The functions of Go's \<open>strings\<close>, \<open>strconv\<close> and \<open>fmt\<close> packages that build or take apart command
  lines, addresses and outputs: the digits of a number, \<open>TrimSpace\<close>, \<open>Trim\<close>, \<open>Cut\<close> and \<open>IndexByte\<close>.
\<close>

subsection \<open>Numbers\<close>

definition is_digit :: "char \<Rightarrow> bool" where
  "is_digit c \<longleftrightarrow> 48 \<le> (of_char c :: nat) \<and> (of_char c :: nat) \<le> 57"

lemma decimal_is_digit: "decimal n \<noteq> [] \<and> list_all is_digit (decimal n)"
proof (induction n rule: decimal.induct)
  case (1 n)
  then show ?case by (cases "n < 10") (simp_all add: decimal.simps [of n] is_digit_def)
qed

subsection \<open>Splitting\<close>

text \<open>\<open>Cut\<close> at a byte: what precedes its first occurrence, what follows, and whether it occurs.\<close>

definition cut_at :: "char \<Rightarrow> string \<Rightarrow> string \<times> string \<times> bool" where
  "cut_at d s =
     (let u = takeWhile (\<lambda>c. c \<noteq> d) s in
      if d \<in> set s then (u, drop (Suc (length u)) s, True) else (s, [], False))"

lemma cut_at_eq: "cut_at d s = (u, v, True) \<Longrightarrow> s = u @ d # v \<and> d \<notin> set u"
proof -
  assume c: "cut_at d s = (u, v, True)"
  then have d: "d \<in> set s" and u: "u = takeWhile (\<lambda>c. c \<noteq> d) s" and v: "v = drop (Suc (length u)) s"
    by (auto simp: cut_at_def Let_def split: if_splits)
  have "s = u @ dropWhile (\<lambda>c. c \<noteq> d) s" unfolding u by simp
  moreover have "dropWhile (\<lambda>c. c \<noteq> d) s \<noteq> []" "hd (dropWhile (\<lambda>c. c \<noteq> d) s) = d"
    using d hd_dropWhile [of "\<lambda>c. c \<noteq> d" s] by (auto simp: dropWhile_eq_Nil_conv)
  ultimately obtain t where t: "s = u @ d # t" by (metis list.collapse)
  have "v = t" using v t by simp
  moreover have "d \<notin> set u" unfolding u by (auto dest: set_takeWhileD)
  ultimately show ?thesis using t by simp
qed

lemma cut_at_append: "d \<notin> set u \<Longrightarrow> cut_at d (u @ d # v) = (u, v, True)"
proof -
  assume "d \<notin> set u"
  then have "takeWhile (\<lambda>c. c \<noteq> d) (u @ d # v) = u" by (induction u) auto
  then show ?thesis by (simp add: cut_at_def Let_def)
qed

definition upto_byte :: "char \<Rightarrow> string \<Rightarrow> string" where
  "upto_byte d s = takeWhile (\<lambda>c. c \<noteq> d) s"

subsection \<open>Trimming\<close>

text \<open>\<open>Trim\<close> with a set of ASCII characters.\<close>

definition trim_chars :: "char list \<Rightarrow> string \<Rightarrow> string" where
  "trim_chars cs s =
     rev (dropWhile (\<lambda>c. c \<in> set cs) (rev (dropWhile (\<lambda>c. c \<in> set cs) s)))"

text \<open>
  \<open>TrimSpace\<close> removes Unicode white space. A multi-byte space is removed as the byte sequence that
  encodes it: UTF-8 is self-synchronising, so such a sequence at either end of a string is decoded
  as that rune there.
\<close>

definition spaces :: "string list" where
  "spaces = [[CHR 0x09], [CHR 0x0A], [CHR 0x0B], [CHR 0x0C], [CHR 0x0D], [CHR 0x20],
     [CHR 0xC2, CHR 0x85], [CHR 0xC2, CHR 0xA0], [CHR 0xE1, CHR 0x9A, CHR 0x80],
     [CHR 0xE2, CHR 0x80, CHR 0x80], [CHR 0xE2, CHR 0x80, CHR 0x81], [CHR 0xE2, CHR 0x80, CHR 0x82],
     [CHR 0xE2, CHR 0x80, CHR 0x83], [CHR 0xE2, CHR 0x80, CHR 0x84], [CHR 0xE2, CHR 0x80, CHR 0x85],
     [CHR 0xE2, CHR 0x80, CHR 0x86], [CHR 0xE2, CHR 0x80, CHR 0x87], [CHR 0xE2, CHR 0x80, CHR 0x88],
     [CHR 0xE2, CHR 0x80, CHR 0x89], [CHR 0xE2, CHR 0x80, CHR 0x8A], [CHR 0xE2, CHR 0x80, CHR 0xA8],
     [CHR 0xE2, CHR 0x80, CHR 0xA9], [CHR 0xE2, CHR 0x80, CHR 0xAF], [CHR 0xE2, CHR 0x81, CHR 0x9F],
     [CHR 0xE3, CHR 0x80, CHR 0x80]]"

function trim_left :: "string list \<Rightarrow> string \<Rightarrow> string" where
  "trim_left ps s =
     (case find (\<lambda>p. p \<noteq> [] \<and> prefix p s) ps of
        None \<Rightarrow> s | Some p \<Rightarrow> trim_left ps (drop (length p) s))"
  by pat_completeness auto
termination
  by (relation "measure (\<lambda>(ps, s). length s)")
     (auto simp: find_Some_iff prefix_def)

declare trim_left.simps [simp del]

definition trim_space :: "string \<Rightarrow> string" where
  "trim_space s = rev (trim_left (map rev spaces) (rev (trim_left spaces s)))"

end
