(* ===== verification/Tunnel.thy ===== *)
theory Tunnel
  imports Config GoText
begin

text \<open>
  The tunnels, \<open>internal/daemon/tunnel.go\<close>, \<open>mux_unix.go\<close>, \<open>mux_windows.go\<close> and \<open>quote.go\<close>: the ssh
  command lines of the persistent forward, of provisioning and of a pulled transfer, the quoting of
  remote commands, and the retry loop with its backoff. Running a command is a parameter \<open>run\<close> that
  takes the argument vector and an arbitrary world; the JSON codec is a parameter of \<open>provision\<close>.
\<close>

record tunnel =
  tn_host :: host
  tn_local_sock :: string
  tn_token :: string
  tn_ssh_command :: string
  tn_timeout_override :: int

definition ssh_bin :: "tunnel \<Rightarrow> string" where
  "ssh_bin t = (if tn_ssh_command t \<noteq> [] then tn_ssh_command t else ''ssh'')"

definition conn_args :: "string list" where
  "conn_args = [''-o'', ''BatchMode=yes'', ''-o'', ''ConnectTimeout=15'',
     ''-o'', ''ServerAliveInterval=30'', ''-o'', ''ServerAliveCountMax=3'']"

definition provision_timeout :: int where
  "provision_timeout = 45 * second"

subsection \<open>Multiplexing\<close>

definition control_path :: "string \<Rightarrow> string \<Rightarrow> string" where
  "control_path ctl l = path_join [ctl, l @ ''.ctl'']"

definition control_path_opt :: "string \<Rightarrow> string \<Rightarrow> string" where
  "control_path_opt ctl l = ''ControlPath='' @ CHR 0x22 # control_path ctl l @ [CHR 0x22]"

text \<open>The options on unix; on Windows there are none.\<close>

definition master_mux_args :: "bool \<Rightarrow> string \<Rightarrow> string \<Rightarrow> string list" where
  "master_mux_args windows ctl l =
     (if windows then [] else [''-o'', ''ControlMaster=yes'', ''-o'', control_path_opt ctl l])"

definition client_mux_args :: "bool \<Rightarrow> string \<Rightarrow> string \<Rightarrow> string list" where
  "client_mux_args windows ctl l =
     (if windows then [] else [''-o'', ''ControlMaster=no'', ''-o'', control_path_opt ctl l])"

definition master_args :: "bool \<Rightarrow> tunnel \<Rightarrow> string \<Rightarrow> string list" where
  "master_args windows t ctl = conn_args @ master_mux_args windows ctl (h_label (tn_host t))"

definition client_args :: "bool \<Rightarrow> tunnel \<Rightarrow> string \<Rightarrow> string list" where
  "client_args windows t ctl = conn_args @ client_mux_args windows ctl (h_label (tn_host t))"

subsection \<open>Quoting for the remote shell\<close>

definition squote :: char where
  "squote = CHR 0x27"

fun quote_bytes :: "string \<Rightarrow> string" where
  "quote_bytes [] = []"
| "quote_bytes (c # cs) = (if c = squote then [squote, CHR 0x5C, squote, squote] else [c]) @ quote_bytes cs"

definition sh_quote :: "string \<Rightarrow> string" where
  "sh_quote s = squote # quote_bytes s @ [squote]"

text \<open>
  The words a POSIX shell makes of a simple command without expansions: blanks separate words,
  single quotes keep every byte up to the next one, a backslash outside quotes keeps the next byte.
  A byte with another meaning to the shell, outside quotes, makes the command not simple: \<open>None\<close>.
  \<open>cur\<close> is the word being read, if one has begun.
\<close>

definition sh_special :: "char \<Rightarrow> bool" where
  "sh_special c \<longleftrightarrow> c \<in> set [CHR 0x0A, CHR 0x22, CHR ''#'', CHR ''$'', CHR ''&'', CHR ''('', CHR '')'', CHR ''*'',
     CHR '';'', CHR ''<'', CHR ''>'', CHR ''?'', CHR ''['', CHR 0x60, CHR ''{'', CHR ''|'', CHR ''}'', CHR ''~'',
     CHR ''!'', CHR ''='', CHR ''%'']"

definition blank :: "char \<Rightarrow> bool" where
  "blank c \<longleftrightarrow> c = CHR '' '' \<or> c = CHR 0x09"

definition word_so_far :: "string option \<Rightarrow> string" where
  "word_so_far cur = (case cur of None \<Rightarrow> [] | Some w \<Rightarrow> w)"

definition add_word :: "string option \<Rightarrow> string list option \<Rightarrow> string list option" where
  "add_word cur r = (case cur of None \<Rightarrow> r | Some w \<Rightarrow> map_option ((#) w) r)"

fun sh_words :: "bool \<Rightarrow> string option \<Rightarrow> string \<Rightarrow> string list option" where
  "sh_words False cur [] = add_word cur (Some [])"
| "sh_words True cur [] = None"
| "sh_words True cur (c # cs) =
     (if c = squote then sh_words False cur cs else sh_words True (Some (word_so_far cur @ [c])) cs)"
| "sh_words False cur (c # cs) =
     (if c = squote then sh_words True (Some (word_so_far cur)) cs
      else if c = CHR 0x5C then
        (case cs of [] \<Rightarrow> None
         | d # ds \<Rightarrow> if d = CHR 0x0A then sh_words False cur ds else sh_words False (Some (word_so_far cur @ [d])) ds)
      else if blank c then add_word cur (sh_words False None cs)
      else if sh_special c then None
      else sh_words False (Some (word_so_far cur @ [c])) cs)"

lemma sh_words_body:
  "sh_words True cur (quote_bytes s @ squote # t) = sh_words False (if s = [] then cur else Some (word_so_far cur @ s)) t"
proof (induction s arbitrary: cur)
  case (Cons c cs)
  show ?case
    by (cases "c = squote") (simp_all add: Cons.IH word_so_far_def, simp_all add: squote_def)
qed simp

text \<open>A quoted string is read back as itself, whatever it holds, as a part of the word around it.\<close>

lemma sh_words_quote: "sh_words False cur (sh_quote s @ t) = sh_words False (Some (word_so_far cur @ s)) t"
  by (simp add: sh_quote_def sh_words_body word_so_far_def)

definition plain_bytes :: "string \<Rightarrow> bool" where
  "plain_bytes s = list_all (\<lambda>c. c \<noteq> squote \<and> c \<noteq> CHR 0x5C \<and> \<not> blank c \<and> \<not> sh_special c) s"

lemma sh_words_plain:
  "plain_bytes s \<Longrightarrow> s \<noteq> [] \<Longrightarrow> sh_words False cur (s @ t) = sh_words False (Some (word_so_far cur @ s)) t"
proof (induction s arbitrary: cur)
  case (Cons c cs)
  then show ?case by (cases "cs = []") (simp_all add: plain_bytes_def word_so_far_def)
qed simp

lemma sh_words_blank: "sh_words False cur (CHR '' '' # t) = add_word cur (sh_words False None t)"
  by (simp add: squote_def blank_def)

declare sh_words.simps(3,4) [simp del]

subsection \<open>Provisioning, the forward, and commands on the host\<close>

definition provision_command :: "bytes \<Rightarrow> string" where
  "provision_command blob =
     ''umask 077 && mkdir -p ~/.lopen && chmod 700 ~/.lopen && printf %s '' @ sh_quote blob @
     '' > ~/.lopen/agent.json.tmp && chmod 600 ~/.lopen/agent.json.tmp && mv -f ~/.lopen/agent.json.tmp ~/.lopen/agent.json''"

definition provision_limit :: "tunnel \<Rightarrow> int" where
  "provision_limit t = (if 0 < tn_timeout_override t then tn_timeout_override t else provision_timeout)"

text \<open>\<open>run\<close> is given the deadline of the command (\<open>None\<close> for none), its name and its arguments.\<close>

type_synonym 'w runner = "int option \<Rightarrow> string \<Rightarrow> string list \<Rightarrow> 'w \<Rightarrow> error option \<times> 'w"

definition provision :: "(agent_config \<Rightarrow> bytes result) \<Rightarrow> 'w runner \<Rightarrow> tunnel \<Rightarrow> 'w \<Rightarrow> error option \<times> 'w" where
  "provision enc run t w =
     (case enc \<lparr>ag_label = h_label (tn_host t), ag_port = h_port (tn_host t), ag_token = tn_token t\<rparr> of
        Inl e \<Rightarrow> (Some e, w)
      | Inr blob \<Rightarrow>
          run (Some (provision_limit t)) (ssh_bin t)
            (conn_args @ [''--'', h_dest (tn_host t), provision_command blob]) w)"

definition forward_spec :: "tunnel \<Rightarrow> string" where
  "forward_spec t = ''127.0.0.1:'' @ itoa (h_port (tn_host t)) @ '':'' @ tn_local_sock t"

definition once ::
    "bool \<Rightarrow> (agent_config \<Rightarrow> bytes result) \<Rightarrow> 'w runner \<Rightarrow> tunnel \<Rightarrow> string \<Rightarrow> 'w \<Rightarrow> error option \<times> 'w" where
  "once windows enc run t ctl w =
     (case provision enc run t w of
        (Some e, w') \<Rightarrow> (Some (ProvisionFailed e), w')
      | (None, w') \<Rightarrow>
          run None (ssh_bin t)
            (master_args windows t ctl @
              [''-N'', ''-o'', ''ExitOnForwardFailure=yes'', ''-R'', forward_spec t, ''--'', h_dest (tn_host t)]) w')"

definition exec_argv :: "bool \<Rightarrow> tunnel \<Rightarrow> string \<Rightarrow> string \<Rightarrow> string list" where
  "exec_argv windows t ctl cmd = client_args windows t ctl @ [''--'', h_dest (tn_host t), cmd]"

subsection \<open>The retry loop\<close>

text \<open>
  One attempt as the loop sees it: how long \<open>once\<close> took, whether the context was cancelled by
  then, and whether it was cancelled during the wait that follows. The loop is over the attempts;
  its value is the list of waits it makes.
\<close>

record attempt =
  at_elapsed :: int
  at_cancelled :: bool
  at_stopped :: bool

definition max_backoff :: int where
  "max_backoff = 60 * second"

definition backoff_wait :: "int \<Rightarrow> int \<Rightarrow> int" where
  "backoff_wait b elapsed = (if 2 * minute < elapsed then second else b)"

definition backoff_next :: "int \<Rightarrow> int" where
  "backoff_next b = (let d = i64 (b * 2) in if max_backoff < d then max_backoff else d)"

fun tunnel_waits :: "int \<Rightarrow> attempt list \<Rightarrow> int list" where
  "tunnel_waits b [] = []"
| "tunnel_waits b (a # as) =
     (if at_cancelled a then []
      else let d = backoff_wait b (at_elapsed a) in
        d # (if at_stopped a then [] else tunnel_waits (backoff_next d) as))"

definition tunnel_run :: "attempt list \<Rightarrow> int list" where
  "tunnel_run as = tunnel_waits second as"

text \<open>
  The same loop with its attempts carried out: \<open>once\<close> runs in a world of its own, in which \<open>ck_now\<close> is
  the clock, \<open>ck_over\<close> says that the context was cancelled, and \<open>ck_after\<close> waits, and says whether it was
  cancelled meanwhile. The first \<open>n\<close> rounds: the loop has no end of its own.
\<close>

record 'w clock =
  ck_now :: "'w \<Rightarrow> int"
  ck_over :: "'w \<Rightarrow> bool"
  ck_after :: "int \<Rightarrow> 'w \<Rightarrow> bool \<times> 'w"

fun tunnel_loop ::
    "bool \<Rightarrow> (agent_config \<Rightarrow> bytes result) \<Rightarrow> 'w runner \<Rightarrow> 'w clock \<Rightarrow> tunnel \<Rightarrow> string \<Rightarrow> nat \<Rightarrow> int \<Rightarrow> 'w \<Rightarrow> int list" where
  "tunnel_loop windows enc run ck t ctl 0 b w = []"
| "tunnel_loop windows enc run ck t ctl (Suc n) b w =
     (if ck_over ck w then []
      else case once windows enc run t ctl w of
        (err, w1) \<Rightarrow>
          if ck_over ck w1 then []
          else let d = backoff_wait b (i64 (ck_now ck w1 - ck_now ck w)) in
            (case ck_after ck d w1 of
               (stopped, w2) \<Rightarrow>
                 d # (if stopped then [] else tunnel_loop windows enc run ck t ctl n (backoff_next d) w2)))"

lemma tunnel_loop_waits: "\<exists>as. length as \<le> n \<and> tunnel_loop windows enc run ck t ctl n b w = tunnel_waits b as"
proof (induction n arbitrary: b w)
  case (Suc n)
  obtain err w1 where 1: "once windows enc run t ctl w = (err, w1)" by (metis surj_pair)
  let ?el = "i64 (ck_now ck w1 - ck_now ck w)"
  obtain st w2 where 2: "ck_after ck (backoff_wait b ?el) w1 = (st, w2)" by (metis surj_pair)
  show ?case
  proof (cases "ck_over ck w \<or> ck_over ck w1")
    case True
    then show ?thesis using 1 by (intro exI [of _ "[]"]) auto
  next
    case False
    obtain as where as: "length as \<le> n"
      "tunnel_loop windows enc run ck t ctl n (backoff_next (backoff_wait b ?el)) w2 = tunnel_waits (backoff_next (backoff_wait b ?el)) as"
      using Suc.IH by blast
    let ?a = "\<lparr>at_elapsed = ?el, at_cancelled = False, at_stopped = st\<rparr>"
    show ?thesis using False 1 2 as by (intro exI [of _ "?a # as"]) (simp add: Let_def)
  qed
qed simp

lemma backoff_next_in: "second \<le> b \<Longrightarrow> b \<le> max_backoff \<Longrightarrow> backoff_next b = min max_backoff (2 * b)"
  by (simp add: backoff_next_def Let_def i64_id in_i64_def max_backoff_def second_def min_i64_def max_i64_def min_def)

lemma tunnel_waits_bound:
  "second \<le> b \<Longrightarrow> b \<le> max_backoff \<Longrightarrow> d \<in> set (tunnel_waits b as) \<Longrightarrow> second \<le> d \<and> d \<le> max_backoff"
proof (induction b as rule: tunnel_waits.induct)
  case (2 b a as)
  let ?d = "backoff_wait b (at_elapsed a)"
  have d: "second \<le> ?d" "?d \<le> max_backoff"
    using "2.prems" by (simp_all add: backoff_wait_def max_backoff_def second_def)
  then have n: "second \<le> backoff_next ?d" "backoff_next ?d \<le> max_backoff"
    by (simp_all add: backoff_next_in second_def max_backoff_def)
  show ?case using "2.IH" [OF _ refl _ n] "2.prems"(3) d by (auto simp: Let_def split: if_splits)
qed simp

text \<open>\<open>quick a\<close>: an attempt that failed fast, with the daemon still running.\<close>

definition quick :: "attempt \<Rightarrow> bool" where
  "quick a \<longleftrightarrow> at_elapsed a \<le> 2 * minute \<and> \<not> at_cancelled a \<and> \<not> at_stopped a"

lemma tunnel_waits_quick:
  "second \<le> b \<Longrightarrow> b \<le> max_backoff \<Longrightarrow> list_all quick as \<Longrightarrow>
   tunnel_waits b as = map (\<lambda>i. min max_backoff (2 ^ i * b)) [0..<length as]"
proof (induction as arbitrary: b)
  case (Cons a as)
  have n: "second \<le> backoff_next b" "backoff_next b \<le> max_backoff"
    using Cons.prems by (simp_all add: backoff_next_in second_def max_backoff_def)
  have q: "backoff_wait b (at_elapsed a) = b" "\<not> at_cancelled a" "\<not> at_stopped a"
    using Cons.prems by (simp_all add: quick_def backoff_wait_def)
  have pos: "0 < b" using Cons.prems(1) by (simp add: second_def)
  have step: "min max_backoff (2 ^ i * min max_backoff (2 * b)) = min max_backoff (2 ^ Suc i * b)" for i
  proof (cases "2 * b \<le> max_backoff")
    case True
    then have "min max_backoff (2 * b) = 2 * b" by simp
    then show ?thesis by (simp add: mult.assoc mult.left_commute)
  next
    case False
    have "2 * b \<le> 2 ^ i * (2 * b)" "max_backoff \<le> 2 ^ i * max_backoff"
      using pos by (simp_all add: max_backoff_def second_def)
    then show ?thesis using False by (simp add: min_def)
  qed
  have "tunnel_waits b (a # as) = b # tunnel_waits (backoff_next b) as" using q by (simp add: Let_def)
  also have "\<dots> = b # map (\<lambda>i. min max_backoff (2 ^ Suc i * b)) [0..<length as]"
    using Cons.IH [OF n] Cons.prems by (simp add: backoff_next_in step)
  also have "\<dots> = map (\<lambda>i. min max_backoff (2 ^ i * b)) [0..<length (a # as)]"
    using Cons.prems(2) by (simp add: map_upt_Suc min_def del: upt_Suc)
  finally show ?case .
qed simp

definition running :: "attempt \<Rightarrow> bool" where
  "running a \<longleftrightarrow> \<not> at_cancelled a \<and> \<not> at_stopped a"

lemma tunnel_waits_append:
  assumes "second \<le> b" "b \<le> max_backoff" "list_all running as"
  shows "\<exists>b'. second \<le> b' \<and> b' \<le> max_backoff \<and> (\<forall>ys. tunnel_waits b (as @ ys) = tunnel_waits b as @ tunnel_waits b' ys)"
  using assms
proof (induction as arbitrary: b)
  case (Cons a as)
  let ?d = "backoff_wait b (at_elapsed a)"
  have "second \<le> ?d" "?d \<le> max_backoff"
    using Cons.prems by (simp_all add: backoff_wait_def max_backoff_def second_def)
  then have "second \<le> backoff_next ?d" "backoff_next ?d \<le> max_backoff"
    by (simp_all add: backoff_next_in second_def max_backoff_def)
  from Cons.IH [OF this] Cons.prems show ?case by (simp add: running_def Let_def)
qed auto

text \<open>
  C32: whatever the attempts, every wait before a retry is between one second and sixty, also in any
  number of rounds in which provisioning and ssh are really run; after an attempt that held for more
  than two minutes the waits start again at one second and double with each failure up to sixty.
\<close>

theorem tunnel_backoff:
  assumes "list_all running as" and "running a" and "2 * minute < at_elapsed a" and "list_all quick fs"
  shows "list_all (\<lambda>d. second \<le> d \<and> d \<le> 60 * second) (tunnel_run (as @ a # fs)) \<and>
    list_all (\<lambda>d. second \<le> d \<and> d \<le> 60 * second) (tunnel_loop windows enc run ck t ctl n second w) \<and>
    tunnel_run (as @ a # fs) = tunnel_run as @ map (\<lambda>i. min (60 * second) (2 ^ i * second)) [0..<Suc (length fs)]"
proof (intro conjI)
  have b: "second \<le> second" "second \<le> max_backoff" by (simp_all add: max_backoff_def second_def)
  show "list_all (\<lambda>d. second \<le> d \<and> d \<le> 60 * second) (tunnel_run (as @ a # fs))"
    unfolding tunnel_run_def list_all_iff using tunnel_waits_bound [OF b] by (auto simp: max_backoff_def)
  obtain ls where "tunnel_loop windows enc run ck t ctl n second w = tunnel_waits second ls"
    using tunnel_loop_waits [of n windows enc run ck t ctl second w] by blast
  then show "list_all (\<lambda>d. second \<le> d \<and> d \<le> 60 * second) (tunnel_loop windows enc run ck t ctl n second w)"
    unfolding list_all_iff using tunnel_waits_bound [OF b] by (auto simp: max_backoff_def)
  obtain b' where "tunnel_run (as @ a # fs) = tunnel_run as @ tunnel_waits b' (a # fs)"
    using tunnel_waits_append [OF b assms(1)] by (auto simp: tunnel_run_def)
  moreover have "tunnel_waits b' (a # fs) = tunnel_waits second (a\<lparr>at_elapsed := 0\<rparr> # fs)"
    using assms(2,3) by (simp add: backoff_wait_def running_def minute_def second_def)
  moreover have "list_all quick (a\<lparr>at_elapsed := 0\<rparr> # fs)"
    using assms(2,4) by (simp add: quick_def running_def minute_def second_def)
  ultimately show "tunnel_run (as @ a # fs) = tunnel_run as @ map (\<lambda>i. min (60 * second) (2 ^ i * second)) [0..<Suc (length fs)]"
    using tunnel_waits_quick [OF b] by (simp only: max_backoff_def length_Cons)
qed

theorem tunnel_backoff_witness:
  "let q = \<lparr>at_elapsed = 0, at_cancelled = False, at_stopped = False\<rparr> in
   tunnel_run (replicate 7 q @ q\<lparr>at_elapsed := hour\<rparr> # [q]) =
     map ((*) second) [1, 2, 4, 8, 16, 32, 60, 1, 2]"
proof -
  let ?q = "\<lparr>at_elapsed = 0, at_cancelled = False, at_stopped = False\<rparr>"
  have "list_all running (replicate 7 ?q)" "running (?q\<lparr>at_elapsed := hour\<rparr>)" "2 * minute < at_elapsed (?q\<lparr>at_elapsed := hour\<rparr>)"
    "list_all quick [?q]"
    by (simp_all add: running_def quick_def hour_def minute_def second_def list_all_iff)
  note tunnel_backoff [OF this, THEN conjunct2, THEN conjunct2]
  moreover have "tunnel_run (replicate 7 ?q) = map ((*) second) [1, 2, 4, 8, 16, 32, 60]" by code_simp
  ultimately show ?thesis by (simp add: Let_def second_def upt_rec)
qed

end
