(* ===== verification/Fetch.thy ===== *)
theory Fetch
  imports Tarstream Tunnel
begin

text \<open>
  The two ways content reaches the staging area, the second half of \<open>internal/daemon/server.go\<close>:
  \<open>receiveInline\<close> reads the framed payload from the connection, \<open>pull\<close> the output of a remote
  \<open>cat\<close> or \<open>tar\<close>. \<open>untar\<close> stands for \<open>archive/tar\<close>: given the bytes its reader delivers and the error
  they end in, the members it yields and the number of bytes it has read when it is done. \<open>ssh\<close>
  starts a command and yields what it prints and how it ends; \<open>Suc buf\<close> is the size of a copy buffer.
\<close>

type_synonym untar = "bytes \<Rightarrow> error option \<Rightarrow> member list \<times> nat"

definition max_archive_entries :: int where
  "max_archive_entries = 200000"

subsection \<open>Copying to a file\<close>

text \<open>A write of \<open>io.Copy\<close>: nothing is written when nothing was read.\<close>

definition copy_write :: "string \<Rightarrow> bytes \<Rightarrow> os \<Rightarrow> error option \<times> os" where
  "copy_write f d w =
     (if d = [] then (None, w) else case os_append f d w of ((_, e), w') \<Rightarrow> (e, w'))"

text \<open>\<open>io.LimitedReader\<close> over the output of a command.\<close>

record limited =
  lr_src :: reader
  lr_n :: int

definition lr_read :: "nat \<Rightarrow> limited \<Rightarrow> (bytes \<times> error option) \<times> limited" where
  "lr_read len lr =
     (if lr_n lr \<le> 0 then (([], Some EndOfFile), lr)
      else case rd_read (if lr_n lr < int len then nat (lr_n lr) else len) (lr_src lr) of
        ((d, e), src') \<Rightarrow> ((d, e), \<lparr>lr_src = src', lr_n = lr_n lr - int (length d)\<rparr>))"

lemma lr_read_progress:
  "lr_read (Suc b) lr = ((d, None), lr') \<Longrightarrow> length (rd_rest (lr_src lr')) < length (rd_rest (lr_src lr))"
  by (auto simp: lr_read_def split: if_splits prod.splits dest!: rd_read_Some)

text \<open>The readers the server copies from.\<close>

datatype source = Framed chunk_reader | Limited limited

fun src_read :: "nat \<Rightarrow> source \<Rightarrow> (bytes \<times> error option) \<times> source" where
  "src_read n (Framed cr) = (case cr_read n cr of (r, cr') \<Rightarrow> (r, Framed cr'))"
| "src_read n (Limited lr) = (case lr_read n lr of (r, lr') \<Rightarrow> (r, Limited lr'))"

fun src_rest :: "source \<Rightarrow> bytes" where
  "src_rest (Framed cr) = rd_rest (cr_src cr)"
| "src_rest (Limited lr) = rd_rest (lr_src lr)"

lemma src_read_progress:
  "src_read (Suc b) s = ((d, None), s') \<Longrightarrow> length (src_rest s') < length (src_rest s)"
  by (cases s) (auto dest: cr_read_progress lr_read_progress split: prod.splits)

text \<open>\<open>io.Copy\<close> to a file: the error, and the reader as it is left.\<close>

function io_copy :: "nat \<Rightarrow> string \<Rightarrow> source \<Rightarrow> os \<Rightarrow> error option \<times> source \<times> os" where
  "io_copy b f s w =
     (case src_read (Suc b) s of
        ((d, e), s') \<Rightarrow>
          (case copy_write f d w of
             (Some we, w') \<Rightarrow> (Some we, s', w')
           | (None, w') \<Rightarrow>
               (case e of
                  None \<Rightarrow> io_copy b f s' w'
                | Some re \<Rightarrow> (if re = EndOfFile then None else Some re, s', w'))))"
  by pat_completeness auto
termination
  by (relation "measure (\<lambda>(b, f, s, w). length (src_rest s))")
     (auto dest!: src_read_progress [OF sym])

declare io_copy.simps [simp del]

text \<open>The file is closed whatever the copy did; the first error counts.\<close>

definition close_after :: "error option \<Rightarrow> os \<Rightarrow> error option \<times> os" where
  "close_after e w =
     (case os_close w of
        (closed, w') \<Rightarrow> (if e = None then (case closed of Inl ce \<Rightarrow> Some ce | Inr _ \<Rightarrow> None) else e, w'))"

subsection \<open>Inline transfers\<close>

definition receive_inline ::
    "nat \<Rightarrow> untar \<Rightarrow> int \<Rightarrow> reader \<Rightarrow> request \<Rightarrow> string \<Rightarrow> os \<Rightarrow> error option \<times> os" where
  "receive_inline b untar max_payload rd r staged w =
     (let cr = new_chunk_reader rd max_payload in
      if req_dir r then
        (case cr_drain b cr of
           ((d, e), _) \<Rightarrow>
             (case unpack (fst (untar d e)) staged max_payload max_archive_entries w of
                ((skipped, Some ue), w') \<Rightarrow> (Some (Unpacking ue), w')
              | ((skipped, None), w') \<Rightarrow> (None, w')))
      else
        (case os_create_excl staged False w of
           (Inl e, w1) \<Rightarrow> (Some e, w1)
         | (Inr _, w1) \<Rightarrow> (case io_copy b staged (Framed cr) w1 of (e, _, w2) \<Rightarrow> close_after e w2)))"

subsection \<open>Pulled transfers\<close>

definition remote_command :: "request \<Rightarrow> string" where
  "remote_command r =
     (if req_dir r then ''tar -C '' @ sh_quote (req_path r) @ '' -cf - .'' else ''cat -- '' @ sh_quote (req_path r))"

text \<open>A started command: its output, and what waiting for it reports, given whether it was killed.\<close>

record ssh_run =
  sr_out :: reader
  sr_wait :: "bool \<Rightarrow> error option"

type_synonym ssh = "string \<Rightarrow> string list \<Rightarrow> ssh_run result"

fun src_left :: "source \<Rightarrow> int" where
  "src_left (Limited lr) = lr_n lr"
| "src_left (Framed cr) = 0"

text \<open>
  The copy into the staging area: its error and what is left of the limit. A directory's reader is
  read by \<open>untar\<close>, a file's by \<open>io.Copy\<close>.
\<close>

definition pull_copy ::
    "nat \<Rightarrow> untar \<Rightarrow> int \<Rightarrow> limited \<Rightarrow> request \<Rightarrow> string \<Rightarrow> os \<Rightarrow> (error option \<times> int) \<times> os" where
  "pull_copy b untar max_payload lr r staged w =
     (if req_dir r then
        (let d = take (nat (lr_n lr)) (rd_rest (lr_src lr)) in
         case untar d None of
           (ms, used) \<Rightarrow>
             (case unpack ms staged max_payload max_archive_entries w of
                ((_, e), w') \<Rightarrow> ((e, lr_n lr - int (min used (length d))), w')))
      else
        (case os_create_excl staged False w of
           (Inl e, w1) \<Rightarrow> ((Some e, lr_n lr), w1)
         | (Inr _, w1) \<Rightarrow>
             (case io_copy b staged (Limited lr) w1 of
                (e, s', w2) \<Rightarrow> (case close_after e w2 of (e', w3) \<Rightarrow> ((e', src_left s'), w3)))))"

definition pull ::
    "bool \<Rightarrow> nat \<Rightarrow> untar \<Rightarrow> ssh \<Rightarrow> int \<Rightarrow> string \<Rightarrow> tunnel \<Rightarrow> request \<Rightarrow> string \<Rightarrow> os \<Rightarrow> error option \<times> os" where
  "pull windows b untar ssh max_payload ctl t r staged w =
     (case ssh (ssh_bin t) (exec_argv windows t ctl (remote_command r)) of
        Inl e \<Rightarrow> (Some e, w)
      | Inr cmd \<Rightarrow>
          (case pull_copy b untar max_payload \<lparr>lr_src = sr_out cmd, lr_n = i64 (max_payload + 1)\<rparr> r staged w of
             ((copy_err, left), w') \<Rightarrow>
               (let wait_err = sr_wait cmd (copy_err \<noteq> None \<or> left = 0) in
                (if copy_err \<noteq> None then copy_err
                 else if left = 0 then Some PayloadTooLarge
                 else wait_err, w'))))"

subsection \<open>What a transfer can do\<close>

text \<open>
  A relation that composes and holds of each call of \<open>Unpack\<close> also holds of both transfers: the
  interface \<open>extraction\<close> carries over, with the staged path and what is joined to it acceptable.
\<close>

context extraction begin

lemma write_step: "good f \<Longrightarrow> copy_write f d w = (e, w') \<Longrightarrow> \<exists>n \<ge> 0. Q w n w'"
proof -
  assume g: "good f" and c: "copy_write f d w = (e, w')"
  show ?thesis
  proof (cases "d = []")
    case True
    then show ?thesis using c refl by (intro exI [of _ 0]) (auto simp: copy_write_def)
  next
    case False
    then obtain k where "os_append f d w = ((k, e), w')" using c by (auto simp: copy_write_def split: prod.splits)
    from append [OF g this] show ?thesis by (intro exI [of _ "int k"]) simp
  qed
qed

lemma copy_loop: "good f \<Longrightarrow> io_copy b f s w = (e, s', w') \<Longrightarrow> \<exists>n \<ge> 0. Q w n w'"
proof (induction b f s w arbitrary: e s' w' rule: io_copy.induct)
  case (1 b f s w)
  obtain d re s1 where r: "src_read (Suc b) s = ((d, re), s1)" by (metis surj_pair)
  obtain we w1 where c: "copy_write f d w = (we, w1)" by (metis surj_pair)
  obtain n where n: "0 \<le> n" "Q w n w1" using write_step [OF "1.prems"(1) c] by blast
  show ?case
  proof (cases "we = None \<and> re = None")
    case True
    then have "io_copy b f s1 w1 = (e, s', w')" using "1.prems"(2) r c by (simp add: io_copy.simps [of b f s])
    then obtain k where "0 \<le> k" "Q w1 k w'"
      using "1.IH" [OF r [symmetric] HOL.refl c [symmetric]] True "1.prems"(1) by blast
    then show ?thesis using trans [OF n(2)] n(1) by (intro exI [of _ "n + k"]) simp
  next
    case False
    then show ?thesis using "1.prems"(2) r c n by (cases we; cases re) (auto simp: io_copy.simps [of b f s])
  qed
qed

lemma close_step: "Q w n w1 \<Longrightarrow> close_after e w1 = (e', w2) \<Longrightarrow> Q w n w2"
  using closing [of w1] trans0 by (auto simp: close_after_def split: prod.splits)

text \<open>Creating the file and copying into it, as both transfers do.\<close>

lemma file_run:
  assumes "good f" "os_create_excl f False w = (c, w1)" "io_copy b f src w1 = (e, src', w2)" "close_after e w2 = (e', w3)"
  shows "\<exists>n \<ge> 0. Q w n w3"
proof -
  obtain n where n: "0 \<le> n" "Q w1 n w2" using copy_loop [OF assms(1,3)] by blast
  have "Q w 0 w1" using create [OF assms(1), of w False] assms(2) by simp
  from close_step [OF Q0_trans [OF this n(2)] assms(4)] n(1) show ?thesis by blast
qed

lemma create_run: "good f \<Longrightarrow> os_create_excl f False w = (c, w1) \<Longrightarrow> \<exists>n \<ge> 0. Q w n w1"
  using create [of f w False] by (intro exI [of _ 0]) simp

definition ready :: "string \<Rightarrow> os \<Rightarrow> bool" where
  "ready f w \<longleftrightarrow> good f \<and> (\<forall>n t. safe_join f n = Inr t \<longrightarrow> good t) \<and> Q w 0 (snd (os_mkdir_all f w))"

lemma unpack_run:
  assumes "ready f w" "0 \<le> m" "unpack ms f m k w = (r, w')"
  shows "\<exists>n \<ge> 0. Q w n w'"
  using whole [of ms f w m k] assms unfolding ready_def by (metis snd_conv)

lemma inline_run:
  assumes "ready f w" "0 \<le> m" "receive_inline b untar m rd r f w = (e, w')"
  shows "\<exists>n \<ge> 0. Q w n w'"
proof (cases "req_dir r")
  case True
  then show ?thesis
    using assms(3) unpack_run [OF assms(1,2)]
    by (auto simp: receive_inline_def Let_def split: prod.splits option.splits)
next
  case False
  have g: "good f" using assms(1) by (simp add: ready_def)
  show ?thesis
    using False assms(3) create_run [OF g] file_run [OF g]
    by (auto simp: receive_inline_def Let_def split: prod.splits sum.splits)
qed

lemma pull_run:
  assumes "ready f w" "0 \<le> m" "pull win b untar ssh m ctl t r f w = (e, w')"
  shows "\<exists>n \<ge> 0. Q w n w'"
proof (cases "ssh (ssh_bin t) (exec_argv win t ctl (remote_command r))")
  case (Inl x)
  then show ?thesis using assms(3) refl by (intro exI [of _ 0]) (auto simp: pull_def)
next
  case (Inr cmd)
  then obtain x where x: "pull_copy b untar m \<lparr>lr_src = sr_out cmd, lr_n = i64 (m + 1)\<rparr> r f w = (x, w')"
    using assms(3) by (auto simp: pull_def Let_def split: prod.splits)
  show ?thesis
  proof (cases "req_dir r")
    case True
    then show ?thesis
      using x unpack_run [OF assms(1,2)] by (auto simp: pull_copy_def Let_def split: prod.splits)
  next
    case False
    have g: "good f" using assms(1) by (simp add: ready_def)
    show ?thesis
      using False x create_run [OF g] file_run [OF g] by (auto simp: pull_copy_def split: prod.splits sum.splits)
  qed
qed

end

text \<open>Where both stay: inside any region that holds the staged path.\<close>

lemma conf_ready:
  assumes "good_root f" "inside D f" "anchored (below_any D) w"
  shows "conf.ready D f w"
  unfolding conf.ready_def
  using assms safe_join_inside [of f D] conf.mkdir [OF assms(2)] by (simp add: inside_def)

lemma confined_frame: "anchored (below_any D) w \<Longrightarrow> \<exists>n \<ge> 0. confined D w n w' \<Longrightarrow> frame (below_any D) w w'"
  by (auto simp: confined_def)

subsection \<open>What a copy delivers\<close>

function src_drain :: "nat \<Rightarrow> source \<Rightarrow> (bytes \<times> error option) \<times> source" where
  "src_drain b s =
     (case src_read (Suc b) s of
        ((d, Some e), s') \<Rightarrow> ((d, if e = EndOfFile then None else Some e), s')
      | ((d, None), s') \<Rightarrow> (case src_drain b s' of ((d', e), s'') \<Rightarrow> ((d @ d', e), s'')))"
  by pat_completeness auto
termination
  by (relation "measure (\<lambda>(b, s). length (src_rest s))") (auto dest!: src_read_progress [OF sym])

declare src_drain.simps [simp del]

lemma src_drain_framed: "cr_drain b cr = ((d, e), cr') \<Longrightarrow> src_drain b (Framed cr) = ((d, e), Framed cr')"
proof (induction b cr arbitrary: d e cr' rule: cr_drain.induct)
  case (1 b cr)
  obtain d1 e1 cr1 where r: "cr_read (Suc b) cr = ((d1, e1), cr1)" by (metis surj_pair)
  show ?case
  proof (cases e1)
    case None
    obtain d2 e2 cr2 where 2: "cr_drain b cr1 = ((d2, e2), cr2)" by (metis surj_pair)
    have "d = d1 @ d2 \<and> e = e2 \<and> cr' = cr2" using "1.prems" r None 2 by (simp add: cr_drain.simps [of b cr])
    then show ?thesis
      using "1.IH" [OF r [symmetric] refl None 2] r None by (simp add: src_drain.simps [of b "Framed cr"])
  qed (use "1.prems" r in \<open>simp add: cr_drain.simps [of b cr] src_drain.simps [of b "Framed cr"]\<close>)
qed

text \<open>With a limit of \<open>n\<close> a command's output is cut after \<open>n\<close> bytes; the rest of the limit tells which.\<close>

lemma src_drain_limited:
  "\<exists>src'. src_drain b (Limited lr) =
     ((take (nat (lr_n lr)) (rd_rest (lr_src lr)), None),
      Limited \<lparr>lr_src = src', lr_n = lr_n lr - int (min (nat (lr_n lr)) (length (rd_rest (lr_src lr))))\<rparr>)"
proof (induction "length (rd_rest (lr_src lr))" arbitrary: lr rule: less_induct)
  case less
  obtain d e src where r: "rd_read (if lr_n lr < int (Suc b) then nat (lr_n lr) else Suc b) (lr_src lr) = ((d, e), src)"
    by (metis surj_pair)
  show ?case
  proof (cases "lr_n lr \<le> 0")
    case True
    then show ?thesis
      by (intro exI [of _ "lr_src lr"], cases lr) (simp add: src_drain.simps [of b "Limited lr" for lr] lr_read_def)
  next
    case False
    let ?lr = "\<lparr>lr_src = src, lr_n = lr_n lr - int (length d)\<rparr>"
    have read: "src_read (Suc b) (Limited lr) = ((d, e), Limited ?lr)" using False r by (simp add: lr_read_def)
    show ?thesis
    proof (cases e)
      case (Some x)
      from rd_read_error [OF r [unfolded this]] show ?thesis
        using read Some by (simp add: src_drain.simps [of b "Limited lr"])
    next
      case None
      have d: "rd_rest (lr_src lr) = d @ rd_rest src" "int (length d) \<le> lr_n lr" "d \<noteq> []"
        using rd_read_Some [OF r [unfolded None]] False by (auto split: if_splits)
      have "length (rd_rest (lr_src ?lr)) < length (rd_rest (lr_src lr))" using d by simp
      from less.hyps [OF this] obtain src' where s: "src_drain b (Limited ?lr) =
          ((take (nat (lr_n ?lr)) (rd_rest src), None),
           Limited \<lparr>lr_src = src', lr_n = lr_n ?lr - int (min (nat (lr_n ?lr)) (length (rd_rest src)))\<rparr>)" by auto
      have n: "nat (lr_n lr) = length d + nat (lr_n lr - int (length d))" using d(2) by simp
      have "d @ take (nat (lr_n lr - int (length d))) (rd_rest src) = take (nat (lr_n lr)) (rd_rest (lr_src lr))"
        unfolding d(1) by (subst n) simp
      moreover have "lr_n lr - int (length d) - int (min (nat (lr_n lr - int (length d))) (length (rd_rest src))) =
          lr_n lr - int (min (nat (lr_n lr)) (length (rd_rest (lr_src lr))))"
        unfolding d(1) by (subst n) (simp add: min_def)
      ultimately show ?thesis
        using read None s by (simp add: src_drain.simps [of b "Limited lr"])
    qed
  qed
qed

definition holds :: "string \<Rightarrow> bytes \<Rightarrow> os \<Rightarrow> bool" where
  "holds f d w \<longleftrightarrow> file_data (os_fs w) f = Some d"

lemma copy_write_holds: "holds f d0 w \<Longrightarrow> copy_write f d w = (None, w') \<Longrightarrow> holds f (d0 @ d) w'"
  by (auto simp: copy_write_def holds_def file_data_def os_append_def Let_def env_step_fs get_put
      split: if_splits prod.splits option.splits node.splits)

lemma copy_write_quiet:
  "holds f d0 w \<Longrightarrow> os_sched w = [] \<Longrightarrow> \<exists>w'. copy_write f d w = (None, w') \<and> os_sched w' = []"
  by (auto simp: copy_write_def holds_def file_data_def os_append_def Let_def env_step_def
      split: option.splits node.splits)

text \<open>A copy that reports success has delivered everything the reader had, whatever could fail.\<close>

lemma io_copy_delivers:
  "holds f d0 w \<Longrightarrow> io_copy b f s w = (None, s', w') \<Longrightarrow> \<exists>d. src_drain b s = ((d, None), s') \<and> holds f (d0 @ d) w'"
proof (induction b f s w arbitrary: d0 s' w' rule: io_copy.induct)
  case (1 b f s w)
  obtain d re s1 where r: "src_read (Suc b) s = ((d, re), s1)" by (metis surj_pair)
  obtain we w1 where c: "copy_write f d w = (we, w1)" by (metis surj_pair)
  have we: "we = None" using "1.prems"(2) r c by (cases we) (auto simp: io_copy.simps [of b f s])
  note h = copy_write_holds [OF "1.prems"(1) c [unfolded we]]
  show ?case
  proof (cases re)
    case None
    then have "io_copy b f s1 w1 = (None, s', w')" using "1.prems"(2) r c we by (simp add: io_copy.simps [of b f s])
    from "1.IH" [OF r [symmetric] refl c [symmetric] we None h this] r None show ?thesis
      by (auto simp: src_drain.simps [of b s])
  next
    case (Some x)
    then have "x = EndOfFile" "s' = s1" "w' = w1" using "1.prems"(2) r c we by (auto simp: io_copy.simps [of b f s] split: if_splits)
    then show ?thesis using r Some h by (auto simp: src_drain.simps [of b s])
  qed
qed

text \<open>When no call fails, a copy fails only as its reader does.\<close>

lemma io_copy_quiet:
  "holds f d0 w \<Longrightarrow> os_sched w = [] \<Longrightarrow> src_drain b s = ((d, e), s') \<Longrightarrow>
   \<exists>w'. io_copy b f s w = (e, s', w') \<and> holds f (d0 @ d) w' \<and> os_sched w' = []"
proof (induction b f s w arbitrary: d0 d e s' rule: io_copy.induct)
  case (1 b f s w)
  obtain d1 re s1 where r: "src_read (Suc b) s = ((d1, re), s1)" by (metis surj_pair)
  obtain w1 where c: "copy_write f d1 w = (None, w1)" and q: "os_sched w1 = []"
    using copy_write_quiet [OF "1.prems"(1,2)] by blast
  note h = copy_write_holds [OF "1.prems"(1) c]
  show ?case
  proof (cases re)
    case None
    obtain d2 e2 s2 where 2: "src_drain b s1 = ((d2, e2), s2)" by (metis surj_pair)
    have "d = d1 @ d2" "e = e2" "s' = s2" using "1.prems"(3) r None 2 by (simp_all add: src_drain.simps [of b s])
    then show ?thesis
      using "1.IH" [OF r [symmetric] refl c [symmetric] refl None h q 2] r None c by (auto simp: io_copy.simps [of b f s])
  next
    case (Some x)
    then show ?thesis using "1.prems"(3) r c h q by (auto simp: io_copy.simps [of b f s] src_drain.simps [of b s])
  qed
qed

lemma close_after_fs: "close_after e w = (e', w') \<Longrightarrow> os_fs w' = os_fs w \<and> (e' = None \<longrightarrow> e = None)"
  by (auto simp: close_after_def os_close_def env_step_fs split: prod.splits if_splits)

lemma close_after_quiet: "os_sched w = [] \<Longrightarrow> close_after e w = (e, w)"
  by (simp add: close_after_def os_close_def env_step_def)

lemma create_holds: "os_create_excl f x w = (Inr u, w') \<Longrightarrow> holds f [] w'"
  by (auto simp: os_create_excl_def Let_def holds_def file_data_def get_touch get_put split: prod.splits option.splits if_splits)

lemma receive_file:
  assumes "\<not> req_dir r" "receive_inline b untar m rd r staged w = (None, w')"
  shows "\<exists>d cr'. cr_drain b (new_chunk_reader rd m) = ((d, None), cr') \<and> holds staged d w'"
proof -
  from assms obtain u w1 s' w2 where 1: "os_create_excl staged False w = (Inr u, w1)"
    and 2: "io_copy b staged (Framed (new_chunk_reader rd m)) w1 = (None, s', w2)" and "os_fs w' = os_fs w2"
    by (auto simp: receive_inline_def Let_def split: prod.splits sum.splits dest!: close_after_fs)
  from io_copy_delivers [OF create_holds [OF 1] 2] obtain d where
    d: "src_drain b (Framed (new_chunk_reader rd m)) = ((d, None), s')" "holds staged d w2" by auto
  obtain d' e cr' where "cr_drain b (new_chunk_reader rd m) = ((d', e), cr')" by (metis surj_pair)
  with src_drain_framed [OF this] d \<open>os_fs w' = os_fs w2\<close> show ?thesis by (auto simp: holds_def)
qed

lemma receive_file_quiet:
  assumes "\<not> req_dir r" "os_sched w = []" "os_create_excl staged False w = (Inr (), w1)"
    and "cr_drain b (new_chunk_reader rd m) = ((d, e), cr')"
  shows "\<exists>w'. receive_inline b untar m rd r staged w = (e, w') \<and> holds staged d w' \<and> os_sched w' = []"
proof -
  have q: "os_sched w1 = []"
    using assms(2,3) by (auto simp: os_create_excl_def env_step_def Let_def split: if_splits)
  from io_copy_quiet [OF create_holds [OF assms(3)] q src_drain_framed [OF assms(4)]] show ?thesis
    using assms(1,3) by (auto simp: receive_inline_def Let_def close_after_quiet)
qed

text \<open>A pulled file when no local call fails, for any value of the limit.\<close>

lemma pull_file_quiet:
  assumes "\<not> req_dir r" "os_sched w = []" "os_create_excl staged False w = (Inr (), w1)"
    and "ssh (ssh_bin t) (exec_argv windows t ctl (remote_command r)) = Inr cmd"
  shows "\<exists>w'. pull windows b untar ssh m ctl t r staged w =
      (let n = i64 (m + 1) - int (min (nat (i64 (m + 1))) (length (rd_rest (sr_out cmd)))) in
       if n = 0 then Some PayloadTooLarge else sr_wait cmd False, w') \<and>
    holds staged (take (nat (i64 (m + 1))) (rd_rest (sr_out cmd))) w' \<and> os_sched w' = []"
proof -
  let ?lr = "\<lparr>lr_src = sr_out cmd, lr_n = i64 (m + 1)\<rparr>"
  have q: "os_sched w1 = []"
    using assms(2,3) by (auto simp: os_create_excl_def env_step_def Let_def split: if_splits)
  obtain src' where d: "src_drain b (Limited ?lr) = ((take (nat (i64 (m + 1))) (rd_rest (sr_out cmd)), None),
      Limited \<lparr>lr_src = src', lr_n = i64 (m + 1) - int (min (nat (i64 (m + 1))) (length (rd_rest (sr_out cmd))))\<rparr>)"
    using src_drain_limited [of b ?lr] by auto
  from io_copy_quiet [OF create_holds [OF assms(3)] q d] obtain w2 where
    "io_copy b staged (Limited ?lr) w1 = (None, Limited \<lparr>lr_src = src', lr_n = i64 (m + 1) -
        int (min (nat (i64 (m + 1))) (length (rd_rest (sr_out cmd))))\<rparr>, w2)"
    "holds staged (take (nat (i64 (m + 1))) (rd_rest (sr_out cmd))) w2" "os_sched w2 = []" by auto
  then show ?thesis
    using assms by (simp add: pull_def pull_copy_def close_after_quiet Let_def)
qed

subsection \<open>Properties\<close>

text \<open>
  C28: the command a pull sends to the remote shell is, for every path, exactly the words
  \<open>cat -- path\<close>, or \<open>tar -C path -cf - .\<close> for a directory: no byte of the path ends the quoting, and
  no other command or word can come of it.
\<close>

theorem pull_command_words:
  "sh_words False None (remote_command r) =
     Some (if req_dir r then [''tar'', ''-C'', req_path r, ''-cf'', ''-'', ''.''] else [''cat'', ''--'', req_path r])"
proof -
  have p: "sh_words False cur (u @ CHR '' '' # t) = add_word (Some (word_so_far cur @ u)) (sh_words False None t)"
    if "plain_bytes u" "u \<noteq> []" for cur u t
    using sh_words_plain [OF that] sh_words_blank by simp
  have last: "sh_words False cur u = Some [word_so_far cur @ u]" if "plain_bytes u" "u \<noteq> []" for cur u
    using sh_words_plain [OF that, of cur "[]"] by (simp add: add_word_def)
  have pl: "plain_bytes ''cat''" "plain_bytes ''--''" "plain_bytes ''tar''" "plain_bytes ''-C''" "plain_bytes ''-cf''"
    "plain_bytes ''-''" "plain_bytes ''.''"
    by (simp_all add: plain_bytes_def squote_def blank_def sh_special_def)
  show ?thesis
    using p [OF pl(1), of None "''-- '' @ sh_quote (req_path r)"] p [OF pl(2), of None "sh_quote (req_path r)"]
      p [OF pl(3), of None "''-C '' @ sh_quote (req_path r) @ '' -cf - .''"]
      p [OF pl(4), of None "sh_quote (req_path r) @ '' -cf - .''"]
      p [OF pl(5), of None "''- .''"] p [OF pl(6), of None "''.''"] last [OF pl(7), of None]
      sh_words_quote [of None "req_path r" "[]"] sh_words_quote [of None "req_path r" "'' -cf - .''"]
      sh_words_blank [of "Some (req_path r)" "''-cf - .''"]
    by (simp add: remote_command_def add_word_def word_so_far_def)
qed

text \<open>
  When an inline file transfer reports success, whatever local call could have failed and however
  the bytes came in, the staged file holds exactly the payload of a complete framed stream at the
  head of the connection, and it is within the limit.
\<close>

theorem inline_file_exact:
  assumes "\<not> req_dir r" and "receive_inline b untar m rd r staged w = (None, w')"
    and "0 \<le> m" and "m \<le> max_i64 - int max_chunk_bytes"
  shows "\<exists>d wire t. rd_rest rd = wire @ t \<and> framed 0 wire d \<and> int (length d) \<le> m \<and> holds staged d w'"
proof -
  obtain d cr' where d: "cr_drain b (new_chunk_reader rd m) = ((d, None), cr')" "holds staged d w'"
    using receive_file [OF assms(1,2)] by blast
  have "int (length d) \<le> m"
    using drain_cap [OF cr_inv_new [OF assms(3,4)] d(1)] by (simp add: new_chunk_reader_def)
  then show ?thesis using drain_sound [OF d(1)] d(2) by (auto simp: new_chunk_reader_def)
qed

text \<open>
  A pulled file, when no local call fails: the staged file holds the command's output, and the
  transfer reports what the command reports, exactly when the output is within the limit; a longer
  output is refused after the limit plus one byte.
\<close>

theorem pull_file_exact:
  assumes "\<not> req_dir r" and "os_sched w = []" and "os_create_excl staged False w = (Inr (), w1)"
    and "ssh (ssh_bin t) (exec_argv windows t ctl (remote_command r)) = Inr cmd"
    and "0 \<le> m" and "m < max_i64"
  shows "\<exists>w'. pull windows b untar ssh m ctl t r staged w =
      (if m < int (length (rd_rest (sr_out cmd))) then Some PayloadTooLarge else sr_wait cmd False, w') \<and>
    holds staged (take (nat (m + 1)) (rd_rest (sr_out cmd))) w'"
proof -
  have "i64 (m + 1) = m + 1" using assms(5,6) by (intro i64_id) (simp add: in_i64_def min_i64_def)
  moreover have "m + 1 - int (min (nat (m + 1)) k) = 0 \<longleftrightarrow> m < int k" for k
    using assms(5) by (simp add: min_def) linarith
  ultimately show ?thesis
    using pull_file_quiet [where ssh = ssh and t = t and windows = windows and ctl = ctl and cmd = cmd, OF assms(1-4), of b untar m] by (auto simp: Let_def)
qed

text \<open>
  C36: at the largest limit \<open>MaxPayloadBytes + 1\<close> wraps to a negative number: nothing is read, and a
  pull of any file succeeds with an empty copy whenever the command ends well.
\<close>

theorem pull_limit_overflow:
  assumes "\<not> req_dir r" and "os_sched w = []" and "os_create_excl staged False w = (Inr (), w1)"
    and "ssh (ssh_bin t) (exec_argv windows t ctl (remote_command r)) = Inr cmd"
  shows "\<exists>w'. pull windows b untar ssh max_i64 ctl t r staged w = (sr_wait cmd False, w') \<and> holds staged [] w'"
proof -
  have "i64 (max_i64 + 1) = min_i64" by (simp add: i64_def max_i64_def min_i64_def signed_take_bit_eq_if_positive)
  then show ?thesis
    using pull_file_quiet [where ssh = ssh and t = t and windows = windows and ctl = ctl and cmd = cmd, OF assms, of b untar max_i64] by (auto simp: Let_def min_i64_def)
qed

subsection \<open>Examples\<close>

definition stage_os :: os where
  "stage_os = \<lparr>os_fs = [([''s''], Dir zero_time)], os_now = zero_time, os_sched = []\<rparr>"

definition demo_tunnel :: tunnel where
  "demo_tunnel = \<lparr>tn_host = \<lparr>h_label = ''h'', h_dest = ''h.net'', h_port = 47654, h_keep = False\<rparr>,
     tn_local_sock = ''/s/h.sock'', tn_token = ''secret'', tn_ssh_command = [], tn_timeout_override = 0\<rparr>"

definition demo_run :: ssh_run where
  "demo_run = \<lparr>sr_out = \<lparr>rd_sched = [1], rd_rest = ''data''\<rparr>, sr_wait = (\<lambda>killed. if killed then Some CommandFailed else None)\<rparr>"

lemma stage_create: "\<exists>w1. os_create_excl ''/s/f'' False stage_os = (Inr (), w1)"
  by (simp add: os_create_excl_def stage_os_def env_step_def get_def path_comps_def slash_def Let_def)

definition demo_stream :: bytes where
  "demo_stream = be32_put (of_nat 2) @ ''ab'' @ be32_put 0"

lemma demo_framed: "framed 0 demo_stream ''ab''"
  unfolding demo_stream_def
  by (rule framed_open) (use framed_append [OF framed_end, of "''ab''"] in \<open>simp_all add: max_chunk_bytes_def numeral_2_eq_2\<close>)

lemma demo_drain:
  "\<exists>cr'. cr_drain 0 (new_chunk_reader \<lparr>rd_sched = [0, 2], rd_rest = demo_stream @ t\<rparr> 9) = ((''ab'', None), cr')"
proof -
  let ?cr = "new_chunk_reader \<lparr>rd_sched = [0, 2], rd_rest = demo_stream @ t\<rparr> 9"
  have "cr_inv ?cr" by (rule cr_inv_new) (simp_all add: max_i64_def max_chunk_bytes_def)
  from drain_framed [OF this, of demo_stream "''ab''" t 0] show ?thesis
    using demo_framed by (auto simp: new_chunk_reader_def)
qed

theorem inline_file_exact_witness:
  "\<exists>d w'. receive_inline 0 (\<lambda>_ _. ([], 0)) 9 \<lparr>rd_sched = [0, 2], rd_rest = demo_stream @ ''zz''\<rparr>
      sample_request ''/s/f'' stage_os = (None, w') \<and> int (length d) \<le> 9 \<and> holds ''/s/f'' d w'"
proof -
  obtain w1 where w1: "os_create_excl ''/s/f'' False stage_os = (Inr (), w1)" using stage_create by blast
  have d: "\<not> req_dir sample_request" "os_sched stage_os = []" by (simp_all add: sample_request_def stage_os_def)
  obtain cr' where "cr_drain 0 (new_chunk_reader \<lparr>rd_sched = [0, 2], rd_rest = demo_stream @ ''zz''\<rparr> 9) = ((''ab'', None), cr')"
    using demo_drain by blast
  from receive_file_quiet [OF d w1 this, of "\<lambda>_ _. ([], 0)"] obtain w' where
    run: "receive_inline 0 (\<lambda>_ _. ([], 0)) 9 \<lparr>rd_sched = [0, 2], rd_rest = demo_stream @ ''zz''\<rparr>
      sample_request ''/s/f'' stage_os = (None, w')" by blast
  from inline_file_exact [OF d(1) run] run show ?thesis by (auto simp: max_i64_def max_chunk_bytes_def)
qed

theorem pull_file_exact_witness:
  "\<exists>w'. pull False 0 (\<lambda>_ _. ([], 0)) (\<lambda>_ _. Inr demo_run) 4 ''/c'' demo_tunnel sample_request ''/s/f'' stage_os = (None, w') \<and>
    holds ''/s/f'' ''data'' w'"
proof -
  obtain w1 where w1: "os_create_excl ''/s/f'' False stage_os = (Inr (), w1)" using stage_create by blast
  have d: "\<not> req_dir sample_request" "os_sched stage_os = []" by (simp_all add: sample_request_def stage_os_def)
  show ?thesis
    using pull_file_exact [where ssh = "\<lambda>_ _. Inr demo_run" and m = 4, OF d w1, OF refl]
    by (simp add: demo_run_def max_i64_def)
qed

theorem pull_limit_overflow_witness:
  "\<exists>w'. pull False 0 (\<lambda>_ _. ([], 0)) (\<lambda>_ _. Inr demo_run) max_i64 ''/c'' demo_tunnel sample_request ''/s/f'' stage_os = (None, w') \<and>
    holds ''/s/f'' [] w'"
proof -
  obtain w1 where w1: "os_create_excl ''/s/f'' False stage_os = (Inr (), w1)" using stage_create by blast
  have d: "\<not> req_dir sample_request" "os_sched stage_os = []" by (simp_all add: sample_request_def stage_os_def)
  show ?thesis
    using pull_limit_overflow [where ssh = "\<lambda>_ _. Inr demo_run", OF d w1, OF refl] by (simp add: demo_run_def)
qed

end
