(* ===== verification/Tokens.thy ===== *)
theory Tokens
  imports Persist
begin

text \<open>
  The token store, \<open>internal/daemon/tokens.go\<close>: one secret per host label, kept across restarts.
  The random source is a parameter (32 bytes or an error), and so is the JSON codec; \<open>dec b\<close> is
  what decoding the bytes leaves in the map, \<open>None\<close> for a nil map. The constant-time comparison is
  equality: its timing is not modelled.
\<close>

record token_store =
  ts_path :: string
  ts_tokens :: "(string \<times> string) list"

type_synonym tokens = "(string \<times> string) list"

definition load_tokens :: "(bytes \<Rightarrow> tokens option) \<Rightarrow> string \<Rightarrow> os \<Rightarrow> token_store result \<times> os" where
  "load_tokens dec p w =
     (case os_read_file p w of
        (Inl e, w') \<Rightarrow> (if e = NotExist then Inr \<lparr>ts_path = p, ts_tokens = []\<rparr> else Inl e, w')
      | (Inr b, w') \<Rightarrow>
          (Inr \<lparr>ts_path = p, ts_tokens = (case dec b of None \<Rightarrow> [] | Some ts \<Rightarrow> ts)\<rparr>, w'))"

definition tokens_save :: "(tokens \<Rightarrow> bytes result) \<Rightarrow> token_store \<Rightarrow> os \<Rightarrow> unit result \<times> os" where
  "tokens_save enc ts w =
     (case enc (ts_tokens ts) of
        Inl e \<Rightarrow> (Inl e, w)
      | Inr b \<Rightarrow>
          (let tmp = tmp_of (ts_path ts) in
           bind_os (os_write_file tmp b w) (\<lambda>_. os_rename tmp (ts_path ts))))"

lemma tokens_save_encoded: "tokens_save enc = save_encoded ts_path (\<lambda>ts. enc (ts_tokens ts))"
  by (auto simp: fun_eq_iff tokens_save_def save_encoded_def write_via_tmp_def Let_def split: sum.split)

interpretation ts_file: durable ts_path "\<lambda>ts. enc (ts_tokens ts)" "tokens_save enc" for enc
  unfolding tokens_save_encoded
  by unfold_locales (fact save_encoded_saved, fact save_encoded_kept)

subsection \<open>Minting\<close>

definition hex_digit :: "nat \<Rightarrow> char" where
  "hex_digit n = char_of (if n < 10 then 48 + n else 87 + n)"

fun hex_encode :: "bytes \<Rightarrow> string" where
  "hex_encode [] = []"
| "hex_encode (c # cs) =
     hex_digit (of_char c div 16) # hex_digit (of_char c mod 16) # hex_encode cs"

definition new_token :: "bytes result \<Rightarrow> string result" where
  "new_token rnd = (case rnd of Inl e \<Rightarrow> Inl e | Inr b \<Rightarrow> Inr (hex_encode b))"

text \<open>\<open>ensure\<close> returns the token and the error of the save, as the source does.\<close>

definition ensure ::
    "(tokens \<Rightarrow> bytes result) \<Rightarrow> bytes result \<Rightarrow> string \<Rightarrow> token_store \<Rightarrow> os \<Rightarrow>
     (string \<times> error option) \<times> token_store \<times> os" where
  "ensure enc rnd l ts w =
     (let old = (case map_of (ts_tokens ts) l of None \<Rightarrow> [] | Some t \<Rightarrow> t) in
      if old \<noteq> [] then ((old, None), ts, w)
      else
        case new_token rnd of
          Inl e \<Rightarrow> (([], Some e), ts, w)
        | Inr t \<Rightarrow>
            (let ts' = ts\<lparr>ts_tokens := AList.update l t (ts_tokens ts)\<rparr> in
             case tokens_save enc ts' w of
               (r, w') \<Rightarrow> ((t, case r of Inl e \<Rightarrow> Some e | Inr _ \<Rightarrow> None), ts', w')))"

definition valid_token :: "token_store \<Rightarrow> string \<Rightarrow> string \<Rightarrow> bool" where
  "valid_token ts l presented =
     (let want = (case map_of (ts_tokens ts) l of None \<Rightarrow> [] | Some t \<Rightarrow> t) in
      if want = [] \<or> presented = [] then False else want = presented)"

subsection \<open>Lemmas\<close>

lemma hex_encode_length: "length (hex_encode bs) = 2 * length bs"
  by (induction bs) auto

lemma hex_digit_inj: "m < 16 \<Longrightarrow> n < 16 \<Longrightarrow> hex_digit m = hex_digit n \<longleftrightarrow> m = n"
proof -
  have v: "of_char (hex_digit k) = (if k < 10 then 48 + k else 87 + k :: nat)" if "k < 16" for k
    using that by (simp add: hex_digit_def)
  assume *: "m < 16" "n < 16"
  show ?thesis
  proof
    assume "hex_digit m = hex_digit n"
    then have "(if m < 10 then 48 + m else 87 + m) = (if n < 10 then 48 + n else 87 + n)"
      using v * by metis
    then show "m = n" by (auto split: if_splits)
  qed simp
qed

lemma hex_encode_inj: "hex_encode bs = hex_encode cs \<longleftrightarrow> bs = cs"
proof (induction bs arbitrary: cs)
  case Nil
  then show ?case by (cases cs) auto
next
  case (Cons b bs)
  show ?case
  proof (cases cs)
    case (Cons c cs')
    have "(of_char b :: nat) = of_char c" if "(of_char b :: nat) div 16 = of_char c div 16" "(of_char b :: nat) mod 16 = of_char c mod 16"
      using that by (metis div_mult_mod_eq)
    moreover have "(of_char x :: nat) div 16 < 16" for x
      using nat_of_char_less_256 [of x] by linarith
    ultimately show ?thesis using Cons Cons.IH by (auto simp: hex_digit_inj)
  qed simp
qed

lemma load_tokens_data:
  assumes "os_sched w = []" "file_data (os_fs w) p = Some b"
  shows "fst (load_tokens dec p w) = Inr \<lparr>ts_path = p, ts_tokens = (case dec b of None \<Rightarrow> [] | Some ts \<Rightarrow> ts)\<rparr>"
  using assms
  by (auto simp: load_tokens_def os_read_file_def env_step_def file_data_def split: option.splits node.splits)

subsection \<open>Properties\<close>

text \<open>
  C33: after \<open>ensure\<close> has succeeded the label has a non-empty token, and that token alone
  authenticates it; every other label's tokens are accepted exactly as before, and asking again
  returns the same token and changes nothing.
\<close>

theorem ensure_authenticates:
  assumes "ensure enc rnd l ts w = ((t, None), ts', w')" and "rnd \<noteq> Inr []"
  shows "(\<forall>p. valid_token ts' l p \<longleftrightarrow> p = t) \<and>
    (\<forall>l' p. l' \<noteq> l \<longrightarrow> valid_token ts' l' p = valid_token ts l' p) \<and>
    ensure enc rnd' l ts' w'' = ((t, None), ts', w'')"
proof -
  let ?old = "case map_of (ts_tokens ts) l of None \<Rightarrow> [] | Some t \<Rightarrow> t"
  show ?thesis
  proof (cases "?old = []")
    case False
    then show ?thesis using assms(1) by (auto simp: ensure_def Let_def valid_token_def)
  next
    case True
    then obtain b where b: "rnd = Inr b" "t = hex_encode b" "ts' = ts\<lparr>ts_tokens := AList.update l t (ts_tokens ts)\<rparr>"
      using assms(1) by (auto simp: ensure_def Let_def new_token_def split: sum.splits prod.splits)
    have "t \<noteq> []" using b assms(2) hex_encode_length [of b] by auto
    then show ?thesis using b by (auto simp: valid_token_def ensure_def update_conv Let_def)
  qed
qed

definition demo_rnd :: "bytes result" where
  "demo_rnd = Inr (replicate 32 (CHR ''k''))"

definition demo_tokens :: token_store where
  "demo_tokens = \<lparr>ts_path = ''/s/t'', ts_tokens = []\<rparr>"

definition token_os :: os where
  "token_os = \<lparr>os_fs = [([''s''], Dir zero_time)], os_now = zero_time, os_sched = []\<rparr>"

lemma demo_ensure: "snd (fst (ensure (\<lambda>_. Inr ''{}'') demo_rnd ''h'' demo_tokens token_os)) = None"
  by code_simp

theorem ensure_authenticates_witness:
  "\<exists>t. \<forall>p. valid_token (fst (snd (ensure (\<lambda>_. Inr ''{}'') demo_rnd ''h'' demo_tokens token_os))) ''h'' p \<longleftrightarrow> p = t"
proof -
  obtain t ts' w' where run: "ensure (\<lambda>_. Inr ''{}'') demo_rnd ''h'' demo_tokens token_os = ((t, None), ts', w')"
    using demo_ensure by (metis surjective_pairing)
  have "demo_rnd \<noteq> Inr []" by (simp add: demo_rnd_def)
  from ensure_authenticates [OF run this] run show ?thesis by auto
qed

text \<open>
  A token minted by \<open>ensure\<close> survives a restart: when \<open>ensure\<close> reports success on a label that
  had none, loading the file gives back the store it left.
\<close>

theorem ensure_persists:
  assumes "ensure enc rnd l ts w = ((t, None), ts', w')" and "map_of (ts_tokens ts) l = None"
    and "good_file (ts_path ts)" and "os_sched w' = []"
    and "\<forall>ts b. enc ts = Inr b \<longrightarrow> dec b = Some ts"
  shows "fst (load_tokens dec (ts_path ts) w') = Inr ts'"
proof -
  from assms(1,2) have s: "tokens_save enc ts' w = (Inr (), w')" "ts_path ts' = ts_path ts"
    by (auto simp: ensure_def Let_def new_token_def split: sum.splits prod.splits)
  with ts_file.saved [of ts' enc w w'] assms(3) obtain b where
    "enc (ts_tokens ts') = Inr b" "file_data (os_fs w') (ts_path ts) = Some b" by auto
  with load_tokens_data [OF assms(4) this(2), of dec] assms(5) s(2) show ?thesis by simp
qed

theorem ensure_persists_witness:
  "case ensure (\<lambda>ts. if ts = [(''h'', hex_encode (replicate 32 (CHR ''k'')))] then Inr ''{}'' else Inl ConfigError)
     demo_rnd ''h'' demo_tokens token_os of
     (_, ts', w') \<Rightarrow> fst (load_tokens (\<lambda>b. if b = ''{}'' then Some [(''h'', hex_encode (replicate 32 (CHR ''k'')))] else None)
       ''/s/t'' w') = Inr ts'"
proof -
  let ?T = "[(''h'', hex_encode (replicate 32 (CHR ''k'')))]"
  let ?enc = "\<lambda>ts. if ts = ?T then Inr ''{}'' else Inl ConfigError"
  have "snd (fst (ensure ?enc demo_rnd ''h'' demo_tokens token_os)) = None"
    "os_sched (snd (snd (ensure ?enc demo_rnd ''h'' demo_tokens token_os))) = []" by code_simp+
  then obtain t ts' w' where run: "ensure ?enc demo_rnd ''h'' demo_tokens token_os = ((t, None), ts', w')"
    and q: "os_sched w' = []" by (metis surjective_pairing)
  have "good_file ''/s/t''" by (simp add: good_file_def slash_def plain_def)
  with ensure_persists [OF run _ _ q, of "\<lambda>b. if b = ''{}'' then Some ?T else None"] show ?thesis
    using run by (simp add: demo_tokens_def del: hex_encode.simps replicate.simps split: if_splits)
qed

end
