(* ===== verification/Opener.thy ===== *)
theory Opener
  imports FileSys Protocol GoText Tokens
begin

text \<open>
  Opening the mirrored copy, \<open>internal/daemon/opener.go\<close>, \<open>opener_darwin.go\<close>, \<open>opener_linux.go\<close> and
  \<open>opener_windows.go\<close>: the command lines, the environment of a graphical session and the fallback of
  a reveal. The platform, which build tags select, is a value; what the machine provides (the search
  path, the environment, running a command) are the fields of \<open>desktop\<close>.
\<close>

datatype platform = Darwin | Linux | Windows

text \<open>
  \<open>dk_exec\<close> runs a command to its end: its environment (\<open>None\<close> inherits), name and arguments, and
  back come its output and error. \<open>dk_start\<close> only starts one. \<open>dk_show_env\<close> is the output of
  \<open>systemctl --user show-environment\<close>.
\<close>

record desktop =
  dk_platform :: platform
  dk_look :: "string \<Rightarrow> string result"
  dk_environ :: "string list"
  dk_show_env :: "string result"
  dk_exec :: "string list option \<Rightarrow> string \<Rightarrow> string list \<Rightarrow> os \<Rightarrow> (string \<times> error option) \<times> os"
  dk_start :: "string \<Rightarrow> string list \<Rightarrow> os \<Rightarrow> error option \<times> os"

definition mac_open_args :: "request \<Rightarrow> string \<Rightarrow> string list" where
  "mac_open_args r p =
     (if req_op r = op_reveal then [''-R''] else []) @
     (if req_app r \<noteq> [] then [''-a'', req_app r] else []) @ [''--'', p]"

definition run_open :: "desktop \<Rightarrow> string list option \<Rightarrow> string \<Rightarrow> string list \<Rightarrow> os \<Rightarrow> error option \<times> os" where
  "run_open dk env bin args w =
     (case dk_exec dk env bin args w of
        ((out, Some e), w') \<Rightarrow> (Some (OpenFailed (trim_space out)), w')
      | ((out, None), w') \<Rightarrow> (None, w'))"

subsection \<open>Linux\<close>

definition opener_argv :: "desktop \<Rightarrow> string list result" where
  "opener_argv dk =
     (case dk_look dk ''gio'' of
        Inr p \<Rightarrow> Inr [p, ''open'']
      | Inl _ \<Rightarrow> (case dk_look dk ''xdg-open'' of Inr p \<Rightarrow> Inr [p] | Inl _ \<Rightarrow> Inl NoOpener))"

definition wanted_vars :: "string list" where
  "wanted_vars = [''DISPLAY'', ''WAYLAND_DISPLAY'', ''DBUS_SESSION_BUS_ADDRESS'', ''XDG_CURRENT_DESKTOP'',
     ''XAUTHORITY'', ''XDG_RUNTIME_DIR'']"

text \<open>The order in which Go's map gives the resolved variables is the order of an association list.\<close>

fun resolve_lines :: "string list \<Rightarrow> (string \<times> string) list \<Rightarrow> (string \<times> string) list" where
  "resolve_lines [] acc = acc"
| "resolve_lines (l # ls) acc =
     (case cut_at (CHR ''='') l of
        (k, v, ok) \<Rightarrow>
          resolve_lines ls
            (if \<not> ok \<or> k \<notin> set wanted_vars then acc
             else AList.update k (trim_chars [CHR 0x22, CHR 0x27] v) acc))"

definition var_name :: "string \<Rightarrow> string" where
  "var_name kv = fst (cut_at (CHR ''='') kv)"

definition gui_env :: "desktop \<Rightarrow> string list" where
  "gui_env dk =
     (case dk_show_env dk of
        Inl _ \<Rightarrow> dk_environ dk
      | Inr out \<Rightarrow>
          (let resolved = resolve_lines (split_on newline out) [] in
           filter (\<lambda>kv. map_of resolved (var_name kv) = None) (dk_environ dk) @
           map (\<lambda>(k, v). k @ CHR ''='' # v) resolved))"

text \<open>
  The path of a \<open>file\<close> URL: \<open>net/url\<close> leaves letters, digits and some punctuation of a path alone and
  writes every other byte as a percent sign and two upper-case hexadecimal digits.
\<close>

definition url_safe :: "char \<Rightarrow> bool" where
  "url_safe c \<longleftrightarrow> in_cls [(CHR ''A'', CHR ''Z''), (CHR ''a'', CHR ''z''), (CHR ''0'', CHR ''9'')] c \<or>
     c \<in> set [CHR ''-'', CHR ''_'', CHR ''.'', CHR 0x7E, CHR ''$'', CHR ''&'', CHR ''+'', CHR '','', CHR ''/'',
       CHR '':'', CHR '';'', CHR ''='', CHR 0x40]"

definition upper_digit :: "nat \<Rightarrow> char" where
  "upper_digit n = char_of (if n < 10 then 48 + n else 55 + n)"

fun url_escape :: "string \<Rightarrow> string" where
  "url_escape [] = []"
| "url_escape (c # cs) =
     (if url_safe c then [c] else [CHR ''%'', upper_digit (of_char c div 16), upper_digit (of_char c mod 16)]) @
     url_escape cs"

fun replace_byte :: "char \<Rightarrow> string \<Rightarrow> string \<Rightarrow> string" where
  "replace_byte d r [] = []"
| "replace_byte d r (c # cs) = (if c = d then r else [c]) @ replace_byte d r cs"

definition reveal_uri :: "string \<Rightarrow> string" where
  "reveal_uri p = replace_byte (CHR 0x27) ''%27'' (''file://'' @ url_escape p)"

definition reveal_dbus :: "desktop \<Rightarrow> string list \<Rightarrow> string \<Rightarrow> os \<Rightarrow> error option \<times> os" where
  "reveal_dbus dk env p w =
     (case dk_look dk ''gdbus'' of
        Inl e \<Rightarrow> (Some e, w)
      | Inr gdbus \<Rightarrow>
          (case dk_exec dk (Some env) gdbus
             [''call'', ''--session'', ''--dest'', ''org.freedesktop.FileManager1'',
              ''--object-path'', ''/org/freedesktop/FileManager1'',
              ''--method'', ''org.freedesktop.FileManager1.ShowItems'',
              CHR ''['' # CHR 0x27 # reveal_uri p @ [CHR 0x27, CHR '']''], []] w of
             ((out, Some e), w') \<Rightarrow> (Some (RevealFailed (trim_space out)), w')
           | ((out, None), w') \<Rightarrow> (None, w')))"

definition open_linux :: "desktop \<Rightarrow> request \<Rightarrow> string \<Rightarrow> os \<Rightarrow> error option \<times> os" where
  "open_linux dk r p w =
     (if req_app r \<noteq> [] then (Some AppOnlyOnMac, w)
      else
        let env = gui_env dk;
            run = (\<lambda>q w'. case opener_argv dk of
                     Inl e \<Rightarrow> (Some e, w')
                   | Inr argv \<Rightarrow> run_open dk (Some env) (hd argv) (tl argv @ [q]) w')
        in if req_op r = op_reveal then
             (case reveal_dbus dk env p w of
                (None, w') \<Rightarrow> (None, w')
              | (Some _, w') \<Rightarrow> run (path_dir p) w')
           else run p w)"

subsection \<open>The other platforms, and the choice\<close>

definition open_darwin :: "desktop \<Rightarrow> request \<Rightarrow> string \<Rightarrow> os \<Rightarrow> error option \<times> os" where
  "open_darwin dk r p w = run_open dk None ''/usr/bin/open'' (mac_open_args r p) w"

definition open_windows :: "desktop \<Rightarrow> request \<Rightarrow> string \<Rightarrow> os \<Rightarrow> error option \<times> os" where
  "open_windows dk r p w =
     (if req_app r \<noteq> [] then (Some AppOnlyOnMac, w)
      else if req_op r = op_reveal then dk_start dk ''explorer.exe'' [''/select,'' @ p] w
      else run_open dk None ''rundll32'' [''url.dll,FileProtocolHandler'', p] w)"

definition open_platform :: "desktop \<Rightarrow> request \<Rightarrow> string \<Rightarrow> os \<Rightarrow> error option \<times> os" where
  "open_platform dk =
     (case dk_platform dk of Darwin \<Rightarrow> open_darwin dk | Linux \<Rightarrow> open_linux dk | Windows \<Rightarrow> open_windows dk)"

definition open_target :: "desktop \<Rightarrow> string \<Rightarrow> request \<Rightarrow> string \<Rightarrow> os \<Rightarrow> error option \<times> os" where
  "open_target dk open_command r p w =
     (if open_command \<noteq> [] then run_open dk None open_command (mac_open_args r p) w
      else open_platform dk r p w)"

subsection \<open>The reveal URI\<close>

definition hex_value :: "char \<Rightarrow> nat option" where
  "hex_value c =
     (let n = of_char c in
      if 48 \<le> n \<and> n \<le> 57 then Some (n - 48) else if 65 \<le> n \<and> n \<le> 70 then Some (n - 55)
      else if 97 \<le> n \<and> n \<le> 102 then Some (n - 87) else None)"

text \<open>How the file manager decodes the path of the URI.\<close>

fun url_unescape :: "string \<Rightarrow> string option" where
  "url_unescape [] = Some []"
| "url_unescape (c # cs) =
     (if c \<noteq> CHR ''%'' then map_option ((#) c) (url_unescape cs)
      else case cs of
        a # b # ds \<Rightarrow>
          (case (hex_value a, hex_value b) of
             (Some h, Some l) \<Rightarrow> map_option ((#) (char_of (16 * h + l))) (url_unescape ds)
           | _ \<Rightarrow> None)
      | _ \<Rightarrow> None)"

lemma hex_value_digit: "n < 16 \<Longrightarrow> hex_value (upper_digit n) = Some n"
  by (simp add: hex_value_def upper_digit_def)

lemma upper_digit_safe: "n < 16 \<Longrightarrow> url_safe (upper_digit n)"
  by (simp add: url_safe_def in_cls_def upper_digit_def)

lemma url_safe_chars: "\<not> url_safe (CHR ''%'')" "\<not> url_safe (CHR 0x27)" "\<not> url_safe (CHR 0x5C)"
  by (simp_all add: url_safe_def in_cls_def)

lemma url_unescape_escape: "url_unescape (url_escape p) = Some p"
proof (induction p)
  case (Cons c cs)
  have lt: "(of_char c :: nat) div 16 < 16" using nat_of_char_less_256 [of c] by linarith
  have "char_of (16 * (of_char c div 16) + of_char c mod 16 :: nat) = c" by simp
  then show ?case using Cons.IH lt url_safe_chars(1) by (auto simp: hex_value_digit)
qed simp

lemma url_escape_safe: "c \<in> set (url_escape p) \<Longrightarrow> url_safe c \<or> c = CHR ''%''"
proof (induction p)
  case (Cons x xs)
  have "(of_char x :: nat) div 16 < 16" using nat_of_char_less_256 [of x] by linarith
  then show ?case using Cons by (auto simp: upper_digit_safe split: if_splits)
qed simp

lemma replace_byte_absent: "d \<notin> set s \<Longrightarrow> replace_byte d r s = s"
  by (induction s) auto

text \<open>
  The URI handed to the file manager can be put between single quotes as it is: it holds no
  quote and no backslash, for every path; and it decodes to exactly the path to reveal.
\<close>

theorem reveal_uri_roundtrip:
  "CHR 0x27 \<notin> set (reveal_uri p) \<and> CHR 0x5C \<notin> set (reveal_uri p) \<and>
   url_unescape (drop (length ''file://'') (reveal_uri p)) = Some p"
proof -
  have "CHR 0x27 \<notin> set (url_escape p)" "CHR 0x5C \<notin> set (url_escape p)"
    using url_escape_safe url_safe_chars by auto
  then have "reveal_uri p = ''file://'' @ url_escape p" "CHR 0x5C \<notin> set (url_escape p)" "CHR 0x27 \<notin> set (url_escape p)"
    by (simp_all add: reveal_uri_def replace_byte_absent)
  then show ?thesis by (simp add: url_unescape_escape)
qed

subsection \<open>What the commands leave alone\<close>

text \<open>A desktop whose commands relate the world before and after by \<open>Q\<close> opens files within \<open>Q\<close>.\<close>

definition desktop_keeps :: "(os \<Rightarrow> os \<Rightarrow> bool) \<Rightarrow> desktop \<Rightarrow> bool" where
  "desktop_keeps Q dk \<longleftrightarrow>
     (\<forall>env bin args w. Q w (snd (dk_exec dk env bin args w))) \<and> (\<forall>bin args w. Q w (snd (dk_start dk bin args w)))"

lemma run_open_keeps: "desktop_keeps Q dk \<Longrightarrow> Q w (snd (run_open dk env bin args w))"
  by (auto simp: run_open_def desktop_keeps_def split: prod.split option.split) (metis snd_conv)+

lemma open_target_keeps:
  assumes dk: "desktop_keeps Q dk" and refl: "\<And>w. Q w w" and trans: "\<And>u v w. Q u v \<Longrightarrow> Q v w \<Longrightarrow> Q u w"
  shows "Q w (snd (open_target dk oc r p w))"
proof -
  note ro = run_open_keeps [OF dk]
  have reveal: "Q w (snd (reveal_dbus dk env p w))" for env
    using dk refl by (auto simp: reveal_dbus_def desktop_keeps_def split: sum.split prod.split option.split) (metis snd_conv)+
  have "Q w (snd (open_linux dk r p w))"
    using ro refl reveal
    by (auto simp: open_linux_def Let_def split: sum.split prod.split option.split) (metis snd_conv trans)+
  moreover have "Q w (snd (open_windows dk r p w))"
    using ro refl dk by (auto simp: open_windows_def desktop_keeps_def)
  ultimately show ?thesis
    using ro by (simp add: open_target_def open_platform_def open_darwin_def split: platform.split)
qed

end
