(* ===== verification/Server.thy ===== *)
theory Server
  imports Slot_Region Fetch Opener
begin

text \<open>
  The daemon's request handler, \<open>internal/daemon/server.go\<close>: building the server, the checks a request
  has to pass, staging, the transfer, \<open>Promote\<close>, opening, and the scheduled collection. The lock of
  the slot is in \<open>Keyed_Mutex\<close>, the accept loops in \<open>Accept\<close> and the start-up in \<open>Daemon\<close>; here one
  request runs to its end.
  Everything outside the program that a request uses is a field of \<open>services\<close>.
\<close>

record services =
  se_decode :: "bytes \<Rightarrow> request option"
  se_event :: "event \<Rightarrow> bytes"
  se_index :: "entries \<Rightarrow> bytes result"
  se_untar :: untar
  se_ssh :: ssh
  se_desktop :: desktop
  se_buffer :: nat

record server =
  sv_cfg :: config
  sv_mir :: mirror
  sv_tokens :: token_store
  sv_tunnels :: "(string \<times> tunnel) list"
  sv_open_command :: string

definition max_concurrent_requests :: nat where
  "max_concurrent_requests = 8"

definition request_timeout :: int where
  "request_timeout = 10 * minute"

subsection \<open>Building the server\<close>

fun make_dirs :: "string list \<Rightarrow> os \<Rightarrow> unit result \<times> os" where
  "make_dirs [] w = (Inr (), w)"
| "make_dirs (d # ds) w = bind_os (os_mkdir_all d w) (\<lambda>_. make_dirs ds)"

definition new_server ::
    "(bytes \<Rightarrow> entries option) \<Rightarrow> (bytes \<Rightarrow> tokens option) \<Rightarrow> config \<Rightarrow> os \<Rightarrow> server result \<times> os" where
  "new_server dec_ix dec_ts c w =
     bind_os (make_dirs [c_mirror_dir c, c_state_dir c, socket_dir c, control_dir c] w) (\<lambda>_ w1.
       bind_os (index_load dec_ix (index_path c) w1) (\<lambda>ix w2.
         bind_os (load_tokens dec_ts (tokens_path c) w2) (\<lambda>ts w3.
           (Inr \<lparr>sv_cfg = c, sv_mir = \<lparr>mir_root = c_mirror_dir c, mir_idx = ix\<rparr>, sv_tokens = ts,
                 sv_tunnels = [], sv_open_command = []\<rparr>, w3))))"

subsection \<open>Scheduled collection\<close>

definition pinned_labels :: "config \<Rightarrow> string list" where
  "pinned_labels c = map h_label (filter h_keep (c_hosts c))"

definition ttl_nanos :: "config \<Rightarrow> int" where
  "ttl_nanos c = i64 (i64 (c_ttl_days c * 24) * hour)"

definition run_gc :: "services \<Rightarrow> (string \<Rightarrow> bytes result) \<Rightarrow> server \<Rightarrow> os \<Rightarrow> gc_result \<times> server \<times> os" where
  "run_gc sv lsof s w =
     (case gc (se_index sv) lsof (sv_mir s) (ttl_nanos (sv_cfg s)) (c_max_mirror (sv_cfg s)) (pinned_labels (sv_cfg s)) w of
        (res, m, w') \<Rightarrow> (res, s\<lparr>sv_mir := m\<rparr>, w'))"

subsection \<open>One request\<close>

definition received_event :: event where
  "received_event = \<lparr>ev_event = ''received'', ev_status = [], ev_error = None, ev_detail = []\<rparr>"

definition done_ok :: event where
  "done_ok = \<lparr>ev_event = ''done'', ev_status = ''ok'', ev_error = None, ev_detail = []\<rparr>"

definition done_error :: "error \<Rightarrow> event" where
  "done_error e = \<lparr>ev_event = ''done'', ev_status = ''error'', ev_error = Some e, ev_detail = []\<rparr>"

definition say :: "services \<Rightarrow> event \<Rightarrow> writer \<Rightarrow> error option \<times> writer" where
  "say sv ev wr = write_event (se_event sv) ev wr"

text \<open>The closure \<open>fail\<close>: the error is reported to the peer, if it still listens, and returned.\<close>

definition fail_with :: "services \<Rightarrow> error \<Rightarrow> writer \<Rightarrow> error option \<times> writer" where
  "fail_with sv e wr = (Some e, snd (say sv (done_error e) wr))"

text \<open>The checks before anything is touched: validation, the label, the tunnel, the token.\<close>

definition admit :: "server \<Rightarrow> tunnel \<Rightarrow> request \<Rightarrow> error option" where
  "admit s t r =
     (let l = org_label (req_origin r); tl = h_label (tn_host t) in
      case validate r (c_max_payload (sv_cfg s)) of
        Some e \<Rightarrow> Some e
      | None \<Rightarrow>
          if host_by_label (sv_cfg s) l = None then Some (UnknownOrigin l)
          else if l \<noteq> tl then Some (OriginMismatch l tl)
          else if \<not> valid_token (sv_tokens s) tl (req_token r) then Some (AuthFailed tl)
          else None)"

definition windows :: "services \<Rightarrow> bool" where
  "windows sv \<longleftrightarrow> dk_platform (se_desktop sv) = Windows"

definition fetch :: "services \<Rightarrow> server \<Rightarrow> tunnel \<Rightarrow> request \<Rightarrow> reader \<Rightarrow> string \<Rightarrow> os \<Rightarrow> error option \<times> os" where
  "fetch sv s t r rd staged w =
     (let c = sv_cfg s in
      if req_mode r = mode_inline then
        (if \<not> inline_allowed c then (Some InlineDisabled, w)
         else receive_inline (se_buffer sv) (se_untar sv) (c_max_payload c) rd r staged w)
      else if req_mode r = mode_pull then
        pull (windows sv) (se_buffer sv) (se_untar sv) (se_ssh sv) (c_max_payload c) (control_dir c) t r staged w
      else (None, w))"

text \<open>From the staging directory on: transfer, promote, open, touch, and the closing event.\<close>

definition deliver ::
    "services \<Rightarrow> server \<Rightarrow> tunnel \<Rightarrow> request \<Rightarrow> string \<Rightarrow> reader \<Rightarrow> string \<Rightarrow> writer \<Rightarrow> os \<Rightarrow>
     (error option \<times> writer) \<times> server \<times> os" where
  "deliver sv s t r k rd staged wr w =
     (let sp = path_join [staged, payload_name] in
      case fetch sv s t r rd sp w of
        (Some e, w1) \<Rightarrow> (fail_with sv e wr, s, w1)
      | (None, w1) \<Rightarrow>
          (case promote (se_index sv) (sv_mir s) sp k (req_dir r) w1 of
             (Inl e, m, w2) \<Rightarrow> (fail_with sv e wr, s\<lparr>sv_mir := m\<rparr>, w2)
           | (Inr _, m, w2) \<Rightarrow>
               (case open_target (se_desktop sv) (sv_open_command s) r (m_abs m k) w2 of
                  (Some e, w3) \<Rightarrow> (fail_with sv e wr, s\<lparr>sv_mir := m\<rparr>, w3)
                | (None, w3) \<Rightarrow>
                    (case ix_touch (se_index sv) k (mir_idx m) w3 of
                       (_, ix, w4) \<Rightarrow> (say sv done_ok wr, s\<lparr>sv_mir := m\<lparr>mir_idx := ix\<rparr>\<rparr>, w4)))))"

definition serve_slot ::
    "services \<Rightarrow> server \<Rightarrow> tunnel \<Rightarrow> request \<Rightarrow> string \<Rightarrow> reader \<Rightarrow> writer \<Rightarrow> os \<Rightarrow>
     (error option \<times> writer) \<times> server \<times> os" where
  "serve_slot sv s t r k rd wr w =
     (case check_overwrite (sv_mir s) k (req_force r) w of
        (Inl e, w1) \<Rightarrow> (fail_with sv e wr, s, w1)
      | (Inr _, w1) \<Rightarrow>
          (let wr1 = snd (say sv received_event wr) in
           case staging_dir (sv_mir s) w1 of
             (Inl e, w2) \<Rightarrow> (fail_with sv e wr1, s, w2)
           | (Inr staged, w2) \<Rightarrow>
               (case deliver sv s t r k rd staged wr1 w2 of
                  (out, s', w3) \<Rightarrow> (out, s', snd (os_remove_all staged w3)))))"

definition handle ::
    "services \<Rightarrow> server \<Rightarrow> tunnel \<Rightarrow> reader \<Rightarrow> writer \<Rightarrow> os \<Rightarrow> (error option \<times> writer) \<times> server \<times> os" where
  "handle sv s t rd wr w =
     (case read_request (se_decode sv) (rd_rest rd) of
        (Inl e, _) \<Rightarrow> ((Some e, wr), s, w)
      | (Inr r, rest) \<Rightarrow>
          (case admit s t r of
             Some e \<Rightarrow> (fail_with sv e wr, s, w)
           | None \<Rightarrow>
               (case rel (org_label (req_origin r)) (req_path r) of
                  Inl e \<Rightarrow> (fail_with sv e wr, s, w)
                | Inr k \<Rightarrow> serve_slot sv s t r k (rd\<lparr>rd_rest := rest\<rparr>) wr w)))"

end
