(* ===== verification/Server_Safety.thy ===== *)
theory Server_Safety
  imports Server
begin

text \<open>
  What one request can do to the machine it arrives at: nothing without the host's own label and
  token, nothing outside the host's part of the mirror, and exactly one of four conversations with
  the client.
\<close>

subsection \<open>The ways a request ends\<close>

lemma admit_None:
  "admit s t r = None \<longleftrightarrow>
     validate r (c_max_payload (sv_cfg s)) = None \<and>
     host_by_label (sv_cfg s) (org_label (req_origin r)) \<noteq> None \<and>
     org_label (req_origin r) = h_label (tn_host t) \<and>
     valid_token (sv_tokens s) (h_label (tn_host t)) (req_token r)"
  by (auto simp: admit_def Let_def split: option.split)

lemma handle_cases:
  assumes "handle sv s t rd wr w = (out, s', w')"
  obtains (unread) e rest where "read_request (se_decode sv) (rd_rest rd) = (Inl e, rest)"
      "out = (Some e, wr)" "s' = s" "w' = w"
  | (refused) r rest e where "read_request (se_decode sv) (rd_rest rd) = (Inr r, rest)"
      "out = fail_with sv e wr" "s' = s" "w' = w"
  | (slot) r rest k where "read_request (se_decode sv) (rd_rest rd) = (Inr r, rest)" "admit s t r = None"
      "rel (h_label (tn_host t)) (req_path r) = Inr k"
      "serve_slot sv s t r k (rd\<lparr>rd_rest := rest\<rparr>) wr w = (out, s', w')"
proof -
  obtain q rest where rd: "read_request (se_decode sv) (rd_rest rd) = (q, rest)" by (metis surj_pair)
  show thesis
  proof (cases q)
    case (Inl e)
    then show thesis using unread rd assms by (simp add: handle_def)
  next
    case (Inr r)
    show thesis
    proof (cases "admit s t r")
      case (Some e)
      then show thesis using refused [of r rest e] rd Inr assms by (simp add: handle_def)
    next
      case None
      then have l: "org_label (req_origin r) = h_label (tn_host t)" by (simp add: admit_None)
      show thesis
      proof (cases "rel (h_label (tn_host t)) (req_path r)")
        case (Inl e)
        then show thesis using refused [of r rest e] rd Inr None l assms by (simp add: handle_def)
      next
        case (Inr k)
        then show thesis using slot [of r rest k] rd \<open>q = Inr r\<close> None l assms by (simp add: handle_def)
      qed
    qed
  qed
qed

lemma slot_of_request:
  assumes "admit s t r = None" "rel (h_label (tn_host t)) (req_path r) = Inr k" "good_root (mir_root m)"
  shows "slot_of m (h_label (tn_host t)) k"
proof -
  have "valid_label (h_label (tn_host t))" using assms(1) by (auto simp: admit_None validate_None)
  then show ?thesis using assms(2,3) by (auto simp: slot_of_def)
qed

subsection \<open>Staying inside the slot region\<close>

lemma check_entries_fs: "os_fs (snd (check_entries root es w)) = os_fs w"
proof (induction root es w rule: check_entries.induct)
  case (2 root e es w)
  then show ?case
    using locally_modified_fs [of e "mirror_abs root (ent_rel e)" w]
    by (cases "locally_modified e (mirror_abs root (ent_rel e)) w") auto
qed simp

lemma check_overwrite_fs: "os_fs (snd (check_overwrite m k force w)) = os_fs w"
  by (simp add: check_overwrite_def check_entries_fs)

definition keeps_slot_region :: "mirror \<Rightarrow> string \<Rightarrow> desktop \<Rightarrow> bool" where
  "keeps_slot_region m l = desktop_keeps (frame (slot_region m l))"

context extraction begin

lemma fetch_run:
  assumes "ready sp w" "0 \<le> c_max_payload (sv_cfg s)" "fetch sv s t r rd sp w = (e, w')"
  shows "\<exists>n \<ge> 0. Q w n w'"
  using assms(3) inline_run [OF assms(1,2)] pull_run [OF assms(1,2)] refl [of w]
  by (auto simp: fetch_def Let_def split: if_splits)

end

lemma staged_inside:
  assumes "good_root (mir_root m)" "plain nm" "below_any D (base_comps m)"
  shows "good_root (staged_path m nm)" "inside D (staged_path m nm)"
proof -
  let ?d = "path_join [staging_base m, nm]"
  have d: "good_root ?d" "path_comps ?d = base_comps m @ [nm]"
    using join1_good [OF base_good [OF assms(1)] assms(2)] join1_comps [OF base_good [OF assms(1)] assms(2)]
      base_comps [OF assms(1)] by simp_all
  then have "path_comps (path_dir (staged_path m nm)) = base_comps m @ [nm]"
    using path_dir_join2 [OF d(1), of "[payload_name]"] plain_names(2) by (simp add: staged_path_def)
  moreover have "below_any D (base_comps m @ x)" for x by (rule below.closed [OF assms(3)]) simp
  ultimately show "inside D (staged_path m nm)" by (simp add: inside_def staged_comps [OF assms(1,2)])
  show "good_root (staged_path m nm)" using join1_good [OF d(1) plain_names(2)] by (simp add: staged_path_def)
qed

lemma fetch_frame:
  assumes "good_root sp" "inside D sp" "anchored (below_any D) w" "0 \<le> c_max_payload (sv_cfg s)"
    and "fetch sv s t r rd sp w = (e, w')"
  shows "frame (below_any D) w w'"
  using conf.fetch_run [OF conf_ready [OF assms(1-3)] assms(4,5)] by (rule confined_frame [OF assms(3)])

lemma promote_same_files:
  "promote enc m staged k dir w = (r, m', w') \<Longrightarrow> mir_root m' = mir_root m \<and> ix_path (mir_idx m') = ix_path (mir_idx m)"
  by (auto elim!: promote_cases dest!: ix_drop_result)
    (metis fst_conv ix_path_ops snd_conv ix_record_index)+

lemma ix_touch_path: "ix_touch enc k ix w = (r, ix', w') \<Longrightarrow> ix_path ix' = ix_path ix"
  using ix_touch_index [of enc k ix w] by auto

text \<open>What a request leaves as it was in the server's own state.\<close>

definition same_setup :: "server \<Rightarrow> server \<Rightarrow> bool" where
  "same_setup s s' \<longleftrightarrow> sv_cfg s' = sv_cfg s \<and> sv_tokens s' = sv_tokens s \<and> sv_tunnels s' = sv_tunnels s \<and>
     sv_open_command s' = sv_open_command s \<and> mir_root (sv_mir s') = mir_root (sv_mir s) \<and>
     ix_path (mir_idx (sv_mir s')) = ix_path (mir_idx (sv_mir s))"

lemma same_setup_refl [simp]: "same_setup s s"
  by (simp add: same_setup_def)

lemma deliver_frame:
  assumes slot: "slot_of (sv_mir s) l k" and a: "anchored (slot_region (sv_mir s) l) w" and nm: "plain nm"
    and cap: "0 \<le> c_max_payload (sv_cfg s)" and dk: "keeps_slot_region (sv_mir s) l (se_desktop sv)"
    and run: "deliver sv s t r k rd (path_join [staging_base (sv_mir s), nm]) wr w = (out, s', w')"
  shows "frame (slot_region (sv_mir s) l) w w' \<and> same_setup s s'"
proof -
  let ?m = "sv_mir s"
  let ?R = "slot_region ?m l" and ?sp = "staged_path ?m nm"
  have g: "good_root (mir_root ?m)" using slot by (simp add: slot_of_def)
  obtain e w1 where 1: "fetch sv s t r rd ?sp w = (e, w1)" by (metis surj_pair)
  have base: "?R (base_comps ?m)" using slot_region_parts(2) [of ?m l "[]"] by simp
  have f1: "frame ?R w w1"
    using fetch_frame [OF staged_inside [OF g nm base [unfolded slot_region_def]] a [unfolded slot_region_def] cap 1]
    by (simp add: slot_region_def)
  note run = run [unfolded deliver_def Let_def, folded staged_path_def, unfolded 1 prod.case]
  show ?thesis
  proof (cases e)
    case (Some x)
    then show ?thesis using run f1 by simp
  next
    case None
    obtain pr m w2 where 2: "promote (se_index sv) ?m ?sp k (req_dir r) w1 = (pr, m, w2)" by (metis surj_pair)
    have f2: "frame ?R w1 w2" by (rule promote_frame [OF slot frame_anchored [OF f1 a] nm 2])
    note same = promote_same_files [OF 2]
    obtain oe w3 where 3: "open_target (se_desktop sv) (sv_open_command s) r (m_abs m k) w2 = (oe, w3)" by (metis surj_pair)
    have f3: "frame ?R w2 w3"
      using open_target_keeps [OF dk [unfolded keeps_slot_region_def], of w2 "sv_open_command s" r "m_abs m k"] 3
      by (simp add: frame_trans)
    obtain tr ix w4 where 4: "ix_touch (se_index sv) k (mir_idx m) w3 = (tr, ix, w4)" by (metis surj_pair)
    have f4: "frame ?R w3 w4"
      using ix_ops_frame(2) [of _ "mir_idx m" w3 "se_index sv" k] same slot_region_parts(3,4) [of ?m l] 4
      unfolding slot_region_def by (metis snd_conv)
    note path = ix_touch_path [OF 4]
    have f12: "frame ?R w w2" using f1 f2 by (rule frame_trans)
    have f13: "frame ?R w w3" using f12 f3 by (rule frame_trans)
    have f14: "frame ?R w w4" using f13 f4 by (rule frame_trans)
    note run = run [unfolded None option.case 2 prod.case]
    show ?thesis
    proof (cases pr)
      case (Inl x)
      then show ?thesis using run f12 same by (auto simp: same_setup_def)
    next
      case (Inr u)
      show ?thesis
        using run [unfolded Inr sum.case 3 prod.case] 4 f13 f14 same path by (cases oe) (auto simp: same_setup_def)
    qed
  qed
qed

lemma serve_slot_frame:
  assumes slot: "slot_of (sv_mir s) l k" and a: "anchored (slot_region (sv_mir s) l) w"
    and cap: "0 \<le> c_max_payload (sv_cfg s)" and dk: "keeps_slot_region (sv_mir s) l (se_desktop sv)"
    and run: "serve_slot sv s t r k rd wr w = (out, s', w')"
  shows "frame (slot_region (sv_mir s) l) w w' \<and> same_setup s s'"
proof -
  let ?m = "sv_mir s"
  let ?R = "slot_region ?m l"
  have g: "good_root (mir_root ?m)" using slot by (simp add: slot_of_def)
  obtain c w1 where 1: "check_overwrite ?m k (req_force r) w = (c, w1)" by (metis surj_pair)
  have f1: "frame ?R w w1" using check_overwrite_fs [of ?m k "req_force r" w] 1 by (simp add: frame_same)
  obtain d w2 where 2: "staging_dir ?m w1 = (d, w2)" by (metis surj_pair)
  have f2: "frame ?R w1 w2" by (rule staging_dir_frame [OF g frame_anchored [OF f1 a] 2])
  have f12: "frame ?R w w2" using f1 f2 by (rule frame_trans)
  note run = run [unfolded serve_slot_def Let_def 1 prod.case 2]
  show ?thesis
  proof (cases c)
    case (Inl e)
    then show ?thesis using run f1 by simp
  next
    case (Inr u)
    show ?thesis
    proof (cases d)
      case (Inl e)
      then show ?thesis using run Inr f12 by simp
    next
      case (Inr staged)
      obtain nm where nm: "plain nm" "staged = path_join [staging_base ?m, nm]"
        using staging_dir_result [OF g 2 [unfolded Inr]] by metis
      obtain o3 s3 w3 where 3: "deliver sv s t r k rd (path_join [staging_base ?m, nm])
          (snd (say sv received_event wr)) w2 = (o3, s3, w3)" by (metis prod_cases3)
      note d3 = deliver_frame [OF slot frame_anchored [OF f12 a] nm(1) cap dk 3]
      have "path_comps staged = base_comps ?m @ [nm]"
        unfolding nm(2) using join1_comps [OF base_good [OF g] nm(1)] base_comps [OF g] by simp
      then have f4: "frame ?R w3 (snd (os_remove_all staged w3))"
        using slot.remove_all_frame [of ?m l staged w3] slot_region_parts(2) [of ?m l "[nm]"] by simp
      have "frame ?R w (snd (os_remove_all staged w3))"
        using f12 d3 f4 frame_trans by blast
      then show ?thesis using run \<open>c = Inr u\<close> Inr nm(2) 3 d3 by simp
    qed
  qed
qed

subsection \<open>The conversation\<close>

definition line_of :: "services \<Rightarrow> event \<Rightarrow> bytes" where
  "line_of sv ev = se_event sv ev @ [newline]"

lemma say_open: "wr_left wr = None \<Longrightarrow> say sv ev wr = (None, wr\<lparr>wr_out := wr_out wr @ line_of sv ev\<rparr>)"
  by (simp add: say_def write_event_def wr_write_def line_of_def)

definition talked :: "services \<Rightarrow> event list \<Rightarrow> writer \<Rightarrow> error option \<times> writer \<Rightarrow> bool" where
  "talked sv evs wr out \<longleftrightarrow> wr_out (snd out) = wr_out wr @ concat (map (line_of sv) evs)"

lemma talked_fail: "wr_left wr = None \<Longrightarrow> talked sv [done_error e] wr (fail_with sv e wr)"
  by (simp add: talked_def fail_with_def say_open)

lemma deliver_talk:
  assumes "wr_left wr = None" "deliver sv s t r k rd staged wr w = (out, s', w')"
  shows "(\<exists>e. out = fail_with sv e wr) \<or> out = say sv done_ok wr"
  using assms(2) by (auto simp: deliver_def Let_def split: prod.splits sum.splits option.splits)

lemma serve_slot_talk:
  assumes "wr_left wr = None" "serve_slot sv s t r k rd wr w = (out, s', w')"
  shows "(\<exists>e. out = fail_with sv e wr) \<or> (\<exists>e. out = fail_with sv e (snd (say sv received_event wr))) \<or>
    out = say sv done_ok (snd (say sv received_event wr))"
proof -
  have "wr_left (snd (say sv received_event wr)) = None" using say_open [OF assms(1)] assms(1) by simp
  then show ?thesis
    using assms(2) by (auto simp: serve_slot_def Let_def split: prod.splits sum.splits dest!: deliver_talk)
qed

subsection \<open>An example\<close>

definition demo_request :: request where
  "demo_request = sample_request\<lparr>req_path := ''/x'', req_token := ''secret''\<rparr>"

definition demo_desktop :: desktop where
  "demo_desktop = \<lparr>dk_platform = Darwin, dk_look = (\<lambda>_. Inl NoOpener), dk_environ = [], dk_show_env = Inl CommandFailed,
     dk_exec = (\<lambda>_ _ _ w. (([], None), w)), dk_start = (\<lambda>_ _ w. (None, w))\<rparr>"

definition demo_services :: "request \<Rightarrow> services" where
  "demo_services r = \<lparr>se_decode = (\<lambda>_. Some r), se_event = ev_event, se_index = (\<lambda>_. Inr ''{}''),
     se_untar = (\<lambda>_ _. ([], 0)), se_ssh = (\<lambda>_ _. Inr demo_run), se_desktop = demo_desktop, se_buffer = 0\<rparr>"

definition demo_server :: server where
  "demo_server = \<lparr>sv_cfg = no_config\<lparr>c_hosts := [tn_host demo_tunnel], c_mirror_dir := ''/m'', c_state_dir := ''/s'',
       c_max_payload := 1000\<rparr>, sv_mir = demo_mirror, sv_tokens = \<lparr>ts_path = ''/s/t'', ts_tokens = [(''h'', ''secret'')]\<rparr>,
     sv_tunnels = [(''h'', demo_tunnel)], sv_open_command = []\<rparr>"

definition served_os :: os where
  "served_os = \<lparr>os_fs = [([], Dir zero_time), ([''m''], Dir zero_time), ([''m'', ''h''], Dir zero_time),
       ([''m'', ''h'', ''x''], File ''old'' zero_time False), ([''m'', ''.staging''], Dir zero_time), ([''s''], Dir zero_time)],
     os_now = zero_time, os_sched = []\<rparr>"

definition demo_conn :: reader where
  "demo_conn = \<lparr>rd_sched = [], rd_rest = newline # demo_stream\<rparr>"

definition open_writer :: writer where
  "open_writer = \<lparr>wr_out = [], wr_left = None\<rparr>"

lemma demo_read: "read_request (se_decode (demo_services r)) (rd_rest demo_conn) = (Inr r, demo_stream)"
  by (simp add: demo_services_def demo_conn_def read_request_def read_slice_def line_index_def newline_def
      max_header_bytes_def)

lemma anchored_region:
  "(\<And>d i. d \<in> D \<Longrightarrow> i < length d \<Longrightarrow> is_dir (get (os_fs w) (take i d))) \<Longrightarrow> anchored (below_any D) w"
  unfolding anchored_def below_any_def
proof clarsimp
  fix p q d
  assume dirs: "\<And>d i. d \<in> D \<Longrightarrow> i < length d \<Longrightarrow> is_dir (get (os_fs w) (take i d))"
    and d: "d \<in> D" "prefix d p" and q: "prefix q p" "\<forall>d \<in> D. \<not> prefix d q"
  have "\<not> prefix d q" using d(1) q(2) by blast
  then have "prefix q d" "q \<noteq> d" using prefix_same_cases [OF d(2) q(1)] by auto
  then have "q = take (length q) d" "length q < length d" by (auto simp: prefix_def)
  then show "is_dir (get (os_fs w) q)" using dirs [OF d(1)] by metis
qed

lemma served_anchored: "anchored (slot_region demo_mirror ''h'') served_os"
  unfolding slot_region_def
proof (rule anchored_region)
  fix d i
  assume "d \<in> {label_comps demo_mirror ''h'', base_comps demo_mirror, path_comps (ix_path (mir_idx demo_mirror)),
      path_comps (tmp_of (ix_path (mir_idx demo_mirror)))}" "i < length d"
  moreover have "label_comps demo_mirror ''h'' = [''m'', ''h'']" "path_comps (ix_path (mir_idx demo_mirror)) = [''s'', ''i'']"
    "path_comps (tmp_of (ix_path (mir_idx demo_mirror))) = [''s'', ''i.tmp'']"
    by (simp_all add: label_comps_def demo_mirror_def path_comps_def slash_def tmp_of_def)
  ultimately have "take i d \<in> {[], [''m''], [''s'']}"
    by (auto simp: demo_comps less_Suc_eq)
  then show "is_dir (get (os_fs served_os) (take i d))" by (auto simp: served_os_def get_def)
qed

lemma handle_talk:
  assumes "wr_left wr = None" and "handle sv s t rd wr w = ((res, wr'), s', w')"
  shows "\<exists>evs. wr_out wr' = wr_out wr @ concat (map (\<lambda>ev. se_event sv ev @ [newline]) evs) \<and>
    (case res of None \<Rightarrow> evs = [received_event, done_ok]
     | Some e \<Rightarrow> evs = [] \<or> evs = [done_error e] \<or> evs = [received_event, done_error e])"
  using assms(2)
proof (cases rule: handle_cases)
  case (unread e rest)
  then show ?thesis by (intro exI [of _ "[]"]) simp
next
  case (refused r rest e)
  then show ?thesis
    by (intro exI [of _ "[done_error e]"]) (simp add: fail_with_def say_open [OF assms(1)] line_of_def)
next
  case (slot r rest k)
  let ?wr = "snd (say sv received_event wr)"
  have wr: "wr_left ?wr = None" "wr_out ?wr = wr_out wr @ line_of sv received_event"
    using say_open [OF assms(1)] assms(1) by simp_all
  from serve_slot_talk [OF assms(1) slot(4)] show ?thesis
  proof (elim disjE exE)
    fix e assume "(res, wr') = fail_with sv e wr"
    then show ?thesis
      by (intro exI [of _ "[done_error e]"]) (simp add: fail_with_def say_open [OF assms(1)] line_of_def)
  next
    fix e assume "(res, wr') = fail_with sv e ?wr"
    then show ?thesis
      by (intro exI [of _ "[received_event, done_error e]"])
        (simp add: fail_with_def say_open [OF wr(1)] wr(2) line_of_def)
  next
    assume "(res, wr') = say sv done_ok ?wr"
    then show ?thesis
      by (intro exI [of _ "[received_event, done_ok]"]) (simp add: say_open [OF wr(1)] wr(2) line_of_def)
  qed
qed

subsection \<open>Properties\<close>

text \<open>
  C2: a request that does not decode, is not valid, names a host that is not enrolled or another host
  than the one its tunnel belongs to, or lacks that host's token, changes nothing: not a file, not the
  index, not a clock tick of the machine. A header that cannot be read ends the handler with its error
  and nothing is sent; in every other case the client is told of the error and nothing else is sent.
\<close>

theorem unauthorized_no_effect:
  assumes "\<not> (\<exists>r. fst (read_request (se_decode sv) (rd_rest rd)) = Inr r \<and>
        validate r (c_max_payload (sv_cfg s)) = None \<and>
        host_by_label (sv_cfg s) (org_label (req_origin r)) \<noteq> None \<and>
        org_label (req_origin r) = h_label (tn_host t) \<and>
        valid_token (sv_tokens s) (h_label (tn_host t)) (req_token r))"
  shows "\<exists>e. handle sv s t rd wr w =
    ((Some e, case fst (read_request (se_decode sv) (rd_rest rd)) of
                Inl _ \<Rightarrow> wr | Inr _ \<Rightarrow> snd (write_event (se_event sv) (done_error e) wr)), s, w)"
proof -
  obtain q rest where rd: "read_request (se_decode sv) (rd_rest rd) = (q, rest)" by (metis surj_pair)
  show ?thesis
  proof (cases q)
    case (Inl e)
    then show ?thesis using rd by (simp add: handle_def)
  next
    case (Inr r)
    then obtain e where "admit s t r = Some e" using assms rd admit_None [of s t r] by fastforce
    then show ?thesis using rd Inr by (simp add: handle_def fail_with_def say_def)
  qed
qed

theorem unauthorized_no_effect_witness:
  "(\<exists>e. handle (demo_services sample_request) demo_server demo_tunnel demo_conn open_writer served_os =
     ((Some e, snd (write_event ev_event (done_error e) open_writer)), demo_server, served_os)) \<and>
   (\<exists>e. handle (demo_services sample_request) demo_server demo_tunnel (demo_conn\<lparr>rd_rest := []\<rparr>) open_writer served_os =
     ((Some e, open_writer), demo_server, served_os))"
proof
  have "\<not> valid_token (sv_tokens demo_server) (h_label (tn_host demo_tunnel)) (req_token sample_request)"
    by (simp add: valid_token_def sample_request_def)
  then show "\<exists>e. handle (demo_services sample_request) demo_server demo_tunnel demo_conn open_writer served_os =
     ((Some e, snd (write_event ev_event (done_error e) open_writer)), demo_server, served_os)"
    using unauthorized_no_effect [of "demo_services sample_request" demo_conn demo_server demo_tunnel open_writer served_os]
      demo_read [of sample_request]
    by (simp add: demo_services_def)
next
  have "fst (read_request (se_decode (demo_services sample_request)) []) = Inl EndOfFile"
    by (simp add: read_request_def read_slice_def max_header_bytes_def)
  then show "\<exists>e. handle (demo_services sample_request) demo_server demo_tunnel (demo_conn\<lparr>rd_rest := []\<rparr>) open_writer served_os =
     ((Some e, open_writer), demo_server, served_os)"
    using unauthorized_no_effect [of "demo_services sample_request" "demo_conn\<lparr>rd_rest := []\<rparr>" demo_server demo_tunnel open_writer served_os]
    by simp
qed

text \<open>
  C3: whatever a host sends through its tunnel and whichever call fails on the way, handling it
  changes no file outside the directory of that host's label in the mirror, the staging area and the
  index file; the configuration, the tokens and the tunnels stay as they are. What the opened
  application itself writes is assumed to stay in that region.
\<close>

theorem handle_confined:
  assumes "good_root (mir_root (sv_mir s))" and "0 \<le> c_max_payload (sv_cfg s)"
    and "anchored (slot_region (sv_mir s) (h_label (tn_host t))) w"
    and "desktop_keeps (frame (slot_region (sv_mir s) (h_label (tn_host t)))) (se_desktop sv)"
    and "handle sv s t rd wr w = (out, s', w')"
  shows "frame (slot_region (sv_mir s) (h_label (tn_host t))) w w' \<and> same_setup s s'"
  using assms(5)
proof (cases rule: handle_cases)
  case (slot r rest k)
  from serve_slot_frame [OF slot_of_request [OF slot(2,3) assms(1)] assms(3,2) _ slot(4)] assms(4) show ?thesis
    by (simp add: keeps_slot_region_def)
qed simp_all

theorem handle_confined_witness:
  "frame (slot_region demo_mirror ''h'') served_os
     (snd (snd (handle (demo_services demo_request) demo_server demo_tunnel demo_conn open_writer served_os)))"
proof -
  obtain out s' w' where run: "handle (demo_services demo_request) demo_server demo_tunnel demo_conn open_writer served_os = (out, s', w')"
    by (metis prod_cases3)
  have "good_root (mir_root demo_mirror)" using demo_slot by (simp add: slot_of_def)
  moreover have "desktop_keeps (frame R) (se_desktop (demo_services demo_request))" for R
    by (simp add: desktop_keeps_def demo_services_def demo_desktop_def)
  ultimately show ?thesis
    using handle_confined [OF _ _ _ _ run] served_anchored run
    by (simp add: demo_server_def demo_tunnel_def)
qed

text \<open>
  C23: while the client listens, it sees one of four conversations: silence after an unreadable
  header, a single \<open>done\<close> with an error, \<open>received\<close> and then \<open>done\<close> with an error, or \<open>received\<close> and then
  \<open>done\<close> with \<open>ok\<close>; and the last exactly when the handler reports no error.
\<close>

theorem handle_conversation:
  assumes "wr_left wr = None" and "handle sv s t rd wr w = ((res, wr'), s', w')"
  shows "\<exists>evs. wr_out wr' = wr_out wr @ concat (map (\<lambda>ev. se_event sv ev @ [newline]) evs) \<and>
    (case res of None \<Rightarrow> evs = [received_event, done_ok]
     | Some e \<Rightarrow> evs = [] \<or> evs = [done_error e] \<or> evs = [received_event, done_error e])"
  by (rule handle_talk [OF assms])

theorem handle_conversation_witness:
  "case handle (demo_services sample_request) demo_server demo_tunnel demo_conn open_writer served_os of
     ((res, wr'), _) \<Rightarrow> res \<noteq> None \<and> wr_out wr' = ''done'' @ [newline]"
proof -
  obtain res wr' s' w' where run: "handle (demo_services sample_request) demo_server demo_tunnel demo_conn open_writer served_os =
      ((res, wr'), s', w')" by (metis surj_pair)
  have "admit demo_server demo_tunnel sample_request \<noteq> None"
    by (simp add: admit_None valid_token_def sample_request_def)
  then obtain e where "fail_with (demo_services sample_request) e open_writer = (res, wr')"
    using run demo_read by (auto simp: handle_def)
  note e = this [symmetric]
  have "wr_left open_writer = None" by (simp add: open_writer_def)
  from handle_conversation [OF this run] e show ?thesis
    unfolding run by (auto simp: fail_with_def say_def write_event_def wr_write_def open_writer_def
      demo_services_def done_error_def)
qed

end
