(* ===== verification/Archive_Copy.thy ===== *)
theory Archive_Copy
  imports Tarstream
begin

text \<open>
  \<open>Pack\<close> followed by \<open>Unpack\<close> (\<open>internal/tarstream/tarstream.go\<close>) copies a directory tree. A tree is
  compared by its \<open>view\<close>: names, contents, the execute bit and which paths are directories, without
  modification times. The two calls may run on different machines, and either may have failing calls.
\<close>

subsection \<open>Trees without their times\<close>

definition timeless :: "node \<Rightarrow> node" where
  "timeless n = (case n of File d _ x \<Rightarrow> File d zero_time x | Dir _ \<Rightarrow> Dir zero_time | Special _ k \<Rightarrow> Special zero_time k)"

definition view :: "fs \<Rightarrow> path \<Rightarrow> node option" where
  "view fs = (\<lambda>p. map_option timeless (get fs p))"

abbreviation dir_view :: "node option" where
  "dir_view \<equiv> Some (Dir zero_time)"

lemma timeless_simps [simp]:
  "timeless (File d t x) = File d zero_time x" "timeless (Dir t) = Dir zero_time" "timeless (Special t k) = Special zero_time k"
  by (simp_all add: timeless_def)

lemma timeless_idem [simp]: "timeless (timeless n) = timeless n"
  by (cases n) simp_all

lemma view_None [simp]: "view fs p = None \<longleftrightarrow> get fs p = None"
  by (simp add: view_def)

lemma view_dir [simp]: "view fs p = dir_view \<longleftrightarrow> is_dir (get fs p)"
  by (cases "get fs p"; simp add: view_def; case_tac "the (get fs p)"; simp)

lemma view_put: "view (put p n fs) = (view fs)(p \<mapsto> timeless n)"
  by (auto simp: view_def get_put)

lemma view_touch [simp]: "view (touch p t fs) = view fs"
  by (rule ext) (auto simp: view_def get_touch elim!: is_dirE)

subsection \<open>What a call does to the view\<close>

text \<open>
  The form of every fact below: a call that succeeds has a known effect on the view, and it does
  succeed when no call fails.
\<close>

definition quiet :: "os \<Rightarrow> bool" where
  "quiet w \<longleftrightarrow> os_sched w = []"

definition works :: "os \<Rightarrow> 'a result \<Rightarrow> os \<Rightarrow> bool" where
  "works w r w' \<longleftrightarrow> (quiet w \<longrightarrow> succeeds r \<and> quiet w')"

lemma quiet_step: "quiet w \<Longrightarrow> env_step w = (None, w)"
  by (simp add: quiet_def env_step_def)

lemma quiet_fs [simp]: "quiet (w\<lparr>os_fs := f\<rparr>) = quiet w"
  by (simp add: quiet_def)

definition upward :: "path \<Rightarrow> os \<Rightarrow> bool" where
  "upward p w \<longleftrightarrow> (\<forall>i. 0 < i \<longrightarrow> i \<le> length p \<longrightarrow> view (os_fs w) (take i p) = dir_view)"

lemma upward_snoc: "upward (p @ [c]) w \<longleftrightarrow> upward p w \<and> is_dir (get (os_fs w) (p @ [c]))"
proof
  assume u: "upward (p @ [c]) w"
  have "view (os_fs w) (take i p) = dir_view" if "0 < i" "i \<le> length p" for i
    using u [unfolded upward_def, rule_format, of i] that by simp
  moreover have "view (os_fs w) (p @ [c]) = dir_view"
    using u [unfolded upward_def, rule_format, of "Suc (length p)"] by simp
  ultimately show "upward p w \<and> is_dir (get (os_fs w) (p @ [c]))" by (simp add: upward_def)
qed (auto simp: upward_def le_Suc_eq)

lemma mk_dirs_all: "\<forall>p \<in> set ps. is_dir (get fs p) \<Longrightarrow> mk_dirs t ps fs = (None, fs)"
  by (induction ps) (auto elim!: is_dirE)

lemma mk_dirs_append:
  "mk_dirs t (ps @ qs) fs = (case mk_dirs t ps fs of (Some e, fs') \<Rightarrow> (Some e, fs') | (None, fs') \<Rightarrow> mk_dirs t qs fs')"
  by (induction t ps fs rule: mk_dirs.induct) (auto split: option.splits node.splits)

lemma prefixes_snoc:
  "map (\<lambda>i. take (Suc i) (p @ [c])) [0..<length (p @ [c])] = map (\<lambda>i. take (Suc i) p) [0..<length p] @ [p @ [c]]"
  by (rule nth_equalityI) (auto simp: nth_append)

lemma mkdir_all_view:
  assumes "os_mkdir_all s w = (r, w')" and "path_comps s = p @ [c]" and "upward p w"
    and "view (os_fs w) (p @ [c]) \<in> {None, dir_view}"
  shows "works w r w' \<and> (succeeds r \<longrightarrow> view (os_fs w') = (view (os_fs w))(p @ [c] \<mapsto> Dir zero_time))"
proof -
  obtain f w0 where e: "env_step w = (f, w0)" by (metis surj_pair)
  let ?q = "p @ [c]" and ?fs = "os_fs w"
  let ?ps = "map (\<lambda>i. take (Suc i) p) [0..<length p]"
  have all: "\<forall>x \<in> set ?ps. is_dir (get ?fs x)" using assms(3) by (auto simp: upward_def)
  have "\<exists>fs'. mk_dirs t (?ps @ [?q]) ?fs = (None, fs') \<and> view fs' = (view ?fs)(?q \<mapsto> Dir zero_time)" for t
  proof (cases "view ?fs ?q = None")
    case True
    then show ?thesis using mk_dirs_all [OF all, of t] by (simp add: mk_dirs_append view_put)
  next
    case False
    then have "is_dir (get ?fs ?q)" "view ?fs ?q = dir_view" using assms(4) by auto
    then show ?thesis using mk_dirs_all [OF all, of t]
      by (auto simp: mk_dirs_append fun_upd_idem elim!: is_dirE)
  qed
  then obtain fs' where m: "mk_dirs (os_now w0) (?ps @ [?q]) ?fs = (None, fs')" "view fs' = (view ?fs)(?q \<mapsto> Dir zero_time)"
    by blast
  have "f = None \<Longrightarrow> r = Inr () \<and> w' = w0\<lparr>os_fs := fs'\<rparr>" "f \<noteq> None \<Longrightarrow> \<not> succeeds r"
    using assms(1) m(1) unfolding os_mkdir_all_def Let_def assms(2) prefixes_snoc e prod.case env_step_fs [OF e]
    by (auto split: prod.splits option.splits)
  then show ?thesis
    using m(2) e by (cases f) (auto simp: works_def quiet_step)
qed

lemma create_excl_view:
  assumes "os_create_excl s x w = (r, w')" and "path_comps s = p @ [c]"
    and "is_dir (get (os_fs w) p)" and "get (os_fs w) (p @ [c]) = None"
  shows "works w r w' \<and> (succeeds r \<longrightarrow> view (os_fs w') = (view (os_fs w))(p @ [c] \<mapsto> File [] zero_time x))"
proof -
  obtain f w0 where e: "env_step w = (f, w0)" by (metis surj_pair)
  show ?thesis
    using assms env_step_fs [OF e] quiet_step [of w]
    by (cases f) (auto simp: os_create_excl_def Let_def e works_def quiet_step view_put)
qed

lemma append_view:
  assumes "os_append s d w = ((k, e), w')" and "view (os_fs w) (path_comps s) = Some (File b zero_time x)"
  shows "(quiet w \<longrightarrow> e = None \<and> quiet w') \<and>
    (e = None \<longrightarrow> k = length d \<and> view (os_fs w') = (view (os_fs w))(path_comps s \<mapsto> File (b @ d) zero_time x))"
proof -
  obtain f w0 where step: "env_step w = (f, w0)" by (metis surj_pair)
  obtain t where "get (os_fs w) (path_comps s) = Some (File b t x)"
    using assms(2) by (cases "get (os_fs w) (path_comps s)"; cases "the (get (os_fs w) (path_comps s))") (auto simp: view_def)
  then show ?thesis
    using assms(1) env_step_fs [OF step] quiet_step [of w]
    by (auto simp: os_append_def Let_def step view_put split: if_splits)
qed

lemma close_view:
  "os_close w = (r, w') \<Longrightarrow> works w r w' \<and> view (os_fs w') = view (os_fs w)"
  using read_fs(4) [of w r w'] by (auto simp: os_close_def works_def quiet_step split: prod.splits)

lemma upward_cong: "view (os_fs w') = view (os_fs w) \<Longrightarrow> upward p w' = upward p w"
  by (simp add: upward_def)

lemma mkdir_all_there:
  assumes "os_mkdir_all s w = (r, w')" and "upward (path_comps s) w"
  shows "works w r w' \<and> (succeeds r \<longrightarrow> view (os_fs w') = view (os_fs w))"
proof (cases "path_comps s" rule: rev_cases)
  case Nil
  then show ?thesis using assms(1)
    by (auto simp: os_mkdir_all_def works_def quiet_step env_step_fs split: prod.splits option.splits)
next
  case (snoc p c)
  have up: "upward p w" "view (os_fs w) (p @ [c]) = dir_view"
    using assms(2) snoc by (simp_all add: upward_snoc)
  then show ?thesis using mkdir_all_view [OF assms(1) snoc up(1)] by (simp add: fun_upd_idem)
qed

subsection \<open>Unpacking one file\<close>

lemma copy_n_view:
  assumes "copy_n s body None (int (length body)) w = ((k, e), w')"
    and "view (os_fs w) (path_comps s) = Some (File [] zero_time x)"
  shows "(quiet w \<longrightarrow> e = None \<and> quiet w') \<and> (case e of Some x \<Rightarrow> \<not> is_eof x | None \<Rightarrow> True) \<and>
    (e = None \<longrightarrow> k = int (length body) \<and> view (os_fs w') = (view (os_fs w))(path_comps s \<mapsto> File body zero_time x))"
proof (cases "body = []")
  case True
  then show ?thesis using assms by (auto simp: copy_n_def fun_upd_idem)
next
  case False
  obtain j f w1 where a: "os_append s body w = ((j, f), w1)" by (metis surj_pair)
  have "case f of Some x \<Rightarrow> \<not> is_eof x | None \<Rightarrow> True" using a by (auto simp: os_append_def Let_def split: prod.splits option.splits node.splits if_splits)
  then show ?thesis using append_view [OF a assms(2)] assms(1) False a
    by (auto simp: copy_n_def split: option.splits)
qed

lemma unpack_file_view:
  assumes "unpack_file s hdr body None left w = (r, w')"
    and "path_comps s = p @ [c]" and "path_comps (path_dir s) = p" and "p \<noteq> []" and "upward p w"
    and "view (os_fs w) (p @ [c]) = None" and "th_size hdr = int (length body)"
  shows "(quiet w \<and> th_size hdr \<le> left \<longrightarrow> succeeds r \<and> quiet w') \<and>
    (\<forall>n. r = Inr n \<longrightarrow> n = int (length body) \<and>
      view (os_fs w') = (view (os_fs w))(p @ [c] \<mapsto> File body zero_time (bit (th_mode hdr) 6)))"
proof (cases "left < th_size hdr")
  case True
  then show ?thesis using assms(1) by (auto simp: unpack_file_def)
next
  case False
  obtain r1 w1 where 1: "os_mkdir_all (path_dir s) w = (r1, w1)" by (metis surj_pair)
  note m = mkdir_all_there [OF 1, unfolded assms(3), OF assms(5)]
  note run = assms(1) [unfolded unpack_file_def 1]
  show ?thesis
  proof (cases r1)
    case (Inl e)
    then show ?thesis using run m False assms(7) by (auto simp: works_def)
  next
    case (Inr u)
    then have v1: "view (os_fs w1) = view (os_fs w)" using m by simp
    have d1: "is_dir (get (os_fs w1) p)"
      using assms(4,5) v1 by (auto simp: upward_def simp flip: view_dir dest!: spec [where x = "length p"])
    have n1: "get (os_fs w1) (p @ [c]) = None" using assms(6) v1 by (simp flip: view_None)
    obtain r2 w2 where 2: "os_create_excl s (bit (th_mode hdr) 6) w1 = (r2, w2)" by (metis surj_pair)
    note c = create_excl_view [OF 2 assms(2) d1 n1]
    show ?thesis
    proof (cases r2)
      case (Inl e)
      then show ?thesis using run m c 2 False assms(7) Inr by (auto simp: works_def)
    next
      case r2: (Inr u')
      obtain k e w3 where 3: "copy_n s body None (int (length body)) w2 = ((k, e), w3)" by (metis surj_pair)
      have "view (os_fs w2) (path_comps s) = Some (File [] zero_time (bit (th_mode hdr) 6))"
        using c r2 assms(2) by simp
      note n = copy_n_view [OF 3 this]
      obtain cl w4 where 4: "os_close w3 = (cl, w4)" by (metis surj_pair)
      note n = n close_view [OF 4]
      show ?thesis using run m c n 2 3 4 False assms(2,7) Inr r2 v1
        by (auto simp: works_def Let_def split: if_splits sum.splits)
    qed
  qed
qed

subsection \<open>Names in an archive\<close>

text \<open>The components every system accepts: they name something and hold no NUL and no backslash.\<close>

definition portable :: "string \<Rightarrow> bool" where
  "portable c \<longleftrightarrow> plain c \<and> CHR 0x00 \<notin> set c \<and> backslash \<notin> set c"

lemma portable_plain: "list_all portable cs \<Longrightarrow> list_all plain cs"
  by (auto simp: list_all_iff portable_def)

lemma set_join_with: "set (join_with d ws) \<subseteq> insert d (\<Union>w \<in> set ws. set w)"
  by (induction d ws rule: join_with.induct) auto

lemma portable_join:
  assumes "list_all portable cs"
  shows "CHR 0x00 \<notin> set (join_with slash cs)" "backslash \<notin> set (join_with slash cs)"
  using assms set_join_with [of slash cs] by (auto simp: list_all_iff portable_def slash_def backslash_def)

lemma member_target:
  assumes "good_root dest" "list_all portable cs" "cs \<noteq> []"
  shows "safe_join dest (join_with slash cs) = Inr (path_join [dest, join_with slash cs])"
    and "safe_join dest (join_with slash cs @ ''/'') = Inr (path_join [dest, join_with slash cs])"
    and "path_comps (path_join [dest, join_with slash cs]) = path_comps dest @ cs"
    and "path_comps (path_dir (path_join [dest, join_with slash cs])) = path_comps dest @ butlast cs"
proof -
  note pl = portable_plain [OF assms(2)]
  let ?n = "join_with slash cs"
  have n: "?n \<noteq> []" "\<not> rooted ?n" "path_comps ?n = cs" "path_clean ?n = ?n"
    using assms(3) pl by (simp_all add: join_plain_not_Nil rooted_join_plain path_comps_join_plain path_clean_plain)
  have "path_comps (?n @ slash # []) = cs"
    using path_comps_append [OF n(1), of "[]"] n(3) by simp
  then have d: "path_comps (?n @ ''/'') = cs" by (simp add: slash_def)
  then have c: "path_clean (?n @ ''/'') = ?n" using n assms(3) by (simp add: path_clean_def)
  have ok: "\<exists>p. safe_join dest nm = Inr p" if "nm = ?n \<or> nm = ?n @ ''/''" for nm
    using that portable_join [OF assms(2)] n d pl by (auto simp: safe_join_accepts backslash_def)
  show "safe_join dest ?n = Inr (path_join [dest, ?n])" "safe_join dest (?n @ ''/'') = Inr (path_join [dest, ?n])"
    using ok safe_join_Inr c n(4) by metis+
  show "path_comps (path_join [dest, ?n]) = path_comps dest @ cs"
    using mirror_abs_comps [OF assms(1) pl assms(3)] by (simp add: mirror_abs_def)
  show "path_comps (path_dir (path_join [dest, ?n])) = path_comps dest @ butlast cs"
    using path_dir_join2 [OF assms(1) pl assms(3)] .
qed

subsection \<open>What \<open>Pack\<close> produces\<close>

definition is_special :: "node \<Rightarrow> bool" where
  "is_special n = (case n of Special _ _ \<Rightarrow> True | _ \<Rightarrow> False)"

text \<open>The member of a node, at the path \<open>cs\<close> below the packed directory.\<close>

definition member_of :: "path \<Rightarrow> node \<Rightarrow> member list" where
  "member_of cs n =
     (case n of
        Dir _ \<Rightarrow> [Member \<lparr>th_name = join_with slash cs @ ''/'', th_type = TypeDir, th_size = 0, th_mode = 0x1ED\<rparr> [] None]
      | File d _ x \<Rightarrow>
          [Member \<lparr>th_name = join_with slash cs, th_type = TypeReg, th_size = int (length d),
             th_mode = (if x then 0x1ED else 0x1A4)\<rparr> d None]
      | Special _ _ \<Rightarrow> [])"

lemma stat_view:
  assumes "os_stat f w = (r, w')" and "get (os_fs w) (path_comps f) = Some n"
  shows "works w r w' \<and> os_fs w' = os_fs w \<and> (r = Inr n \<or> r = Inl IoError)"
proof -
  obtain g w0 where e: "env_step w = (g, w0)" by (metis surj_pair)
  show ?thesis using assms env_step_fs [OF e] quiet_step [of w]
    by (cases g) (auto simp: os_stat_def e works_def)
qed

lemma read_file_view:
  assumes "os_read_file f w = (r, w')" and "get (os_fs w) (path_comps f) = Some (File d t x)"
  shows "works w r w' \<and> os_fs w' = os_fs w \<and> (r = Inr d \<or> r = Inl IoError)"
proof -
  obtain g w0 where e: "env_step w = (g, w0)" by (metis surj_pair)
  show ?thesis using assms env_step_fs [OF e] quiet_step [of w]
    by (cases g) (auto simp: os_read_file_def e works_def)
qed

lemma pack_node_member:
  assumes "pack_node f cs n w = (r, w')" and n: "get (os_fs w) (path_comps f) = Some n"
  shows "works w r w' \<and> os_fs w' = os_fs w \<and> (r = Inr (member_of cs n) \<or> \<not> succeeds r)"
proof -
  obtain r1 w1 where 1: "os_stat f w = (r1, w1)" by (metis surj_pair)
  note s = stat_view [OF 1 n]
  then consider "r1 = Inl IoError" | "r1 = Inr n" by blast
  then show ?thesis
  proof cases
    case 1
    then show ?thesis using assms(1) s \<open>os_stat f w = (r1, w1)\<close> by (auto simp: pack_node_def works_def)
  next
    case ok: 2
    show ?thesis
    proof (cases n)
      case (File d t x)
      obtain r2 w2 where 2: "os_read_file f w1 = (r2, w2)" by (metis surj_pair)
      have "get (os_fs w1) (path_comps f) = Some (File d t x)" using n s File by simp
      from read_file_view [OF 2 this] assms(1) 1 2 ok s File show ?thesis
        by (elim conjE disjE) (auto simp: pack_node_def works_def member_of_def size_of_def split: bool.splits)
    qed (use assms(1) 1 ok s in \<open>auto simp: pack_node_def works_def member_of_def\<close>)
  qed
qed

definition members :: "path \<Rightarrow> (path \<times> node) list \<Rightarrow> member list" where
  "members root ns = concat (map (\<lambda>(p, n). member_of (drop (length root) p) n) (filter (\<lambda>(p, _). p \<noteq> root) ns))"

definition specials :: "path \<Rightarrow> (path \<times> node) list \<Rightarrow> int" where
  "specials root ns = int (length (filter (\<lambda>(p, n). p \<noteq> root \<and> is_special n) ns))"

lemma member_of_Nil: "member_of cs n = [] \<longleftrightarrow> is_special n"
  by (cases n) (auto simp: member_of_def is_special_def)

lemma pack_nodes_members:
  assumes "pack_nodes root ns w = ((s, ms), e, w')"
    and "\<forall>(p, n) \<in> set ns. get (os_fs w) p = Some n \<and> list_all plain p"
  shows "(quiet w \<longrightarrow> e = None) \<and> os_fs w' = os_fs w \<and> (e = None \<longrightarrow> s = specials root ns \<and> ms = members root ns)"
  using assms
proof (induction root ns w arbitrary: s ms e w' rule: pack_nodes.induct)
  case (2 root p n ns w)
  show ?case
  proof (cases "p = root")
    case True
    then have "pack_nodes root ns w = ((s, ms), e, w')" "\<forall>(p, n) \<in> set ns. get (os_fs w) p = Some n \<and> list_all plain p"
      using "2.prems" by simp_all
    then show ?thesis using "2.IH"(1) [OF True] True by (simp add: members_def specials_def)
  next
    case False
    obtain r w1 where 1: "pack_node (slash # join_with slash p) (drop (length root) p) n w = (r, w1)" by (metis surj_pair)
    have p: "get (os_fs w) (path_comps (slash # join_with slash p)) = Some n"
      using "2.prems"(2) by (simp add: path_comps_slash_join)
    note m = pack_node_member [OF 1 p]
    show ?thesis
    proof (cases r)
      case (Inl x)
      then have "e = Some x" "w' = w1" using "2.prems"(1) False 1 by simp_all
      then show ?thesis using m Inl by (simp add: works_def)
    next
      case (Inr ms1)
      then have ms1: "ms1 = member_of (drop (length root) p) n" using m by simp
      obtain s2 ms2 e2 w2 where rest: "pack_nodes root ns w1 = ((s2, ms2), e2, w2)" by (metis surj_pair)
      have "\<forall>(p, n) \<in> set ns. get (os_fs w1) p = Some n \<and> list_all plain p" using "2.prems"(2) m by auto
      note IH = "2.IH"(2) [OF False 1 [symmetric] Inr rest this]
      have out: "s = (if ms1 = [] then s2 + 1 else s2)" "ms = ms1 @ ms2" "e = e2" "w' = w2"
        using "2.prems"(1) False 1 Inr rest by simp_all
      have step: "specials root ((p, n) # ns) = (if ms1 = [] then 1 else 0) + specials root ns"
        "members root ((p, n) # ns) = ms1 @ members root ns"
        using False by (simp_all add: members_def specials_def ms1 member_of_Nil)
      show ?thesis using IH m out step Inr by (simp add: works_def)
    qed
  qed
qed (simp add: members_def specials_def)

subsection \<open>Unpacking what was packed\<close>

text \<open>A listing of a tree: paths below its root, a directory before what it holds.\<close>

type_synonym listing = "(path \<times> node) list"

definition parents_first :: "listing \<Rightarrow> bool" where
  "parents_first L \<longleftrightarrow> distinct (map fst L) \<and> (\<forall>xs cs n ys. L = xs @ (cs, n) # ys \<longrightarrow>
     cs \<noteq> [] \<and> list_all portable cs \<and> (\<forall>i. 0 < i \<longrightarrow> i < length cs \<longrightarrow> (\<exists>t. (take i cs, Dir t) \<in> set xs)))"

lemma parents_firstD:
  assumes "parents_first (xs @ (cs, n) # ys)"
  shows "cs \<noteq> []" "list_all portable cs" "cs \<notin> fst ` set xs" "distinct (map fst xs)"
    "0 < i \<Longrightarrow> i < length cs \<Longrightarrow> \<exists>t. (take i cs, Dir t) \<in> set xs"
proof -
  from assms have "cs \<noteq> [] \<and> list_all portable cs \<and> (\<forall>i. 0 < i \<longrightarrow> i < length cs \<longrightarrow> (\<exists>t. (take i cs, Dir t) \<in> set xs))"
    unfolding parents_first_def by blast
  then show "cs \<noteq> []" "list_all portable cs" "0 < i \<Longrightarrow> i < length cs \<Longrightarrow> \<exists>t. (take i cs, Dir t) \<in> set xs"
    by blast+
  show "cs \<notin> fst ` set xs" "distinct (map fst xs)" using assms by (auto simp: parents_first_def)
qed

definition archive :: "listing \<Rightarrow> member list" where
  "archive L = concat (map (\<lambda>(cs, n). member_of cs n) L)"

lemma archive_Cons: "archive ((cs, n) # L) = member_of cs n @ archive L"
  by (simp add: archive_def)

lemma member_of_simps:
  "member_of cs (Dir t) =
     [Member \<lparr>th_name = join_with slash cs @ ''/'', th_type = TypeDir, th_size = 0, th_mode = 0x1ED\<rparr> [] None]"
  "member_of cs (File d t x) =
     [Member \<lparr>th_name = join_with slash cs, th_type = TypeReg, th_size = int (length d),
        th_mode = (if x then 0x1ED else 0x1A4)\<rparr> d None]"
  "member_of cs (Special t k) = []"
  by (simp_all add: member_of_def)

text \<open>The tree an archive stands for, as seen from its root.\<close>

definition listed :: "listing \<Rightarrow> path \<Rightarrow> node option" where
  "listed L r = (if r = [] then dir_view
     else map_option timeless (map_of (filter (\<lambda>(_, n). \<not> is_special n) L) r))"

definition holds_tree :: "path \<Rightarrow> (path \<Rightarrow> node option) \<Rightarrow> os \<Rightarrow> bool" where
  "holds_tree D T w \<longleftrightarrow> upward D w \<and> (\<forall>r. view (os_fs w) (D @ r) = T r)"

lemma listed_new: "cs \<noteq> [] \<Longrightarrow> cs \<notin> fst ` set xs \<Longrightarrow> listed xs cs = None"
  by (auto simp: listed_def map_of_eq_None_iff image_iff)

lemma listed_snoc:
  "cs \<noteq> [] \<Longrightarrow> cs \<notin> fst ` set xs \<Longrightarrow>
   listed (xs @ [(cs, n)]) = (if is_special n then listed xs else (listed xs)(cs \<mapsto> timeless n))"
  using map_of_eq_None_iff [of "filter (\<lambda>(_, n). \<not> is_special n) xs" cs]
  by (intro ext) (auto simp: listed_def map_add_def image_iff split: option.split)

lemma listed_dir: "distinct (map fst L) \<Longrightarrow> (cs, Dir t) \<in> set L \<Longrightarrow> listed L cs = dir_view"
proof -
  assume d: "distinct (map fst L)" "(cs, Dir t) \<in> set L"
  have "distinct (map fst (filter (\<lambda>(_, n). \<not> is_special n) L))" by (rule distinct_map_filter [OF d(1)])
  moreover have "(cs, Dir t) \<in> set (filter (\<lambda>(_, n). \<not> is_special n) L)" using d(2) by (simp add: is_special_def)
  ultimately show ?thesis by (simp add: listed_def)
qed

lemma holds_tree_step:
  assumes "holds_tree D T w" and "cs \<noteq> []" and "view (os_fs w') = (view (os_fs w))(D @ cs \<mapsto> n)"
  shows "holds_tree D (T(cs \<mapsto> n)) w'"
proof -
  have "take i D \<noteq> D @ cs" for i
  proof
    assume "take i D = D @ cs"
    then have "length (take i D) = length (D @ cs)" by simp
    with assms(2) show False by (auto simp: min_def split: if_splits)
  qed
  then have "upward D w'" using assms(1,3) by (simp add: holds_tree_def upward_def)
  then show ?thesis using assms(1,3) by (simp add: holds_tree_def)
qed

lemma holds_tree_upward:
  assumes "holds_tree D T w" and "\<And>i. 0 < i \<Longrightarrow> i \<le> length cs \<Longrightarrow> T (take i cs) = dir_view"
  shows "upward (D @ cs) w"
  unfolding upward_def
proof (intro allI impI)
  fix i
  assume i: "0 < i" "i \<le> length (D @ cs)"
  show "view (os_fs w) (take i (D @ cs)) = dir_view"
  proof (cases "i \<le> length D")
    case True
    then show ?thesis using assms(1) i(1) by (simp add: holds_tree_def upward_def)
  next
    case False
    then have "take i (D @ cs) = D @ take (i - length D) cs" by simp
    then show ?thesis using assms False i by (simp add: holds_tree_def)
  qed
qed

lemma unpack_archive:
  assumes "parents_first (xs @ ys)" and "good_root dest" and "path_comps dest \<noteq> []"
    and "holds_tree (path_comps dest) (listed xs) w"
    and "unpack_members dest me (archive ys) ent left sk w = ((sk', e), w')"
  shows "(quiet w \<and> sum_list (map (\<lambda>(_, n). reg_bytes n) ys) \<le> left \<and> ent + int (length (archive ys)) \<le> me \<longrightarrow> e = None) \<and>
    (e = None \<longrightarrow> sk' = sk \<and> holds_tree (path_comps dest) (listed (xs @ ys)) w')"
  using assms(1,4,5)
proof (induction ys arbitrary: xs ent left w)
  case Nil
  then show ?case by (simp add: archive_def)
next
  case (Cons y ys)
  obtain cs n where y: "y = (cs, n)" by (cases y)
  let ?D = "path_comps dest" and ?t = "path_join [dest, join_with slash cs]"
  have pf: "parents_first ((xs @ [(cs, n)]) @ ys)" using Cons.prems(1) y by simp
  note D = parents_firstD [OF Cons.prems(1) [unfolded y]]
  note cs = D(1-3) and dist = D(4) and par = D(5)
  obtain q c where qc: "cs = q @ [c]" using cs(1) by (metis rev_exhaust)
  have "listed xs (take i q) = dir_view" if "0 < i" "i \<le> length q" for i
    using par [of i] that qc listed_dir [OF dist] by auto
  then have up: "upward (?D @ q) w" by (rule holds_tree_upward [OF Cons.prems(2)])
  have new: "view (os_fs w) ((?D @ q) @ [c]) = None"
    using Cons.prems(2) listed_new [OF cs(1,3)] qc by (auto simp: holds_tree_def simp flip: view_None)
  note target = member_target [OF assms(2) cs(2,1)]
  have pc: "path_comps ?t = (?D @ q) @ [c]" "path_comps (path_dir ?t) = ?D @ q" using target(3,4) qc by simp_all
  note snoc = listed_snoc [OF cs(1,3), of n]
  note IH = Cons.IH [OF pf]
  show ?case
  proof (cases n)
    case (Special t k)
    then have "holds_tree ?D (listed (xs @ [(cs, n)])) w" using snoc Cons.prems(2) by (simp add: is_special_def)
    moreover have "archive (y # ys) = archive ys" using y Special by (simp add: archive_Cons member_of_simps)
    ultimately show ?thesis using IH [of w ent left] Cons.prems(3) y Special by (auto simp: reg_bytes_def)
  next
    case (Dir t)
    obtain r w1 where 1: "os_mkdir_all ?t w = (r, w1)" by (metis surj_pair)
    note m = mkdir_all_view [OF 1 pc(1) up] new
    have run: "unpack_members dest me (archive (y # ys)) ent left sk w =
        (if me < ent + 1 then ((sk, Some BudgetExceeded), w)
         else case r of Inl e \<Rightarrow> ((sk, Some e), w1) | Inr _ \<Rightarrow> unpack_members dest me (archive ys) (ent + 1) left sk w1)"
      using y Dir 1 target(2) by (simp add: archive_Cons member_of_simps)
    show ?thesis
    proof (cases r)
      case (Inl x)
      then show ?thesis using run Cons.prems(3) m y Dir by (auto simp: works_def archive_Cons member_of_simps split: if_splits)
    next
      case (Inr u)
      then have "view (os_fs w1) = (view (os_fs w))(?D @ cs \<mapsto> Dir zero_time)" using m qc by simp
      from holds_tree_step [OF Cons.prems(2) cs(1) this] snoc Dir
      have "holds_tree ?D (listed (xs @ [(cs, n)])) w1" by (simp add: is_special_def)
      from IH [OF this, of "ent + 1" left] run Cons.prems(3) m Inr y Dir show ?thesis
        by (auto simp: works_def reg_bytes_def archive_Cons member_of_simps split: if_splits)
    qed
  next
    case (File d t x)
    let ?hdr = "\<lparr>th_name = join_with slash cs, th_type = TypeReg, th_size = int (length d), th_mode = (if x then 0x1ED else 0x1A4)\<rparr>"
    obtain r w1 where 1: "unpack_file ?t ?hdr d None left w = (r, w1)" by (metis surj_pair)
    have mode: "bit (th_mode ?hdr) 6 = x" by (cases x) simp_all
    have "?D @ q \<noteq> []" using assms(3) by simp
    from unpack_file_view [OF 1 pc this up new] have
      ok: "quiet w \<and> int (length d) \<le> left \<longrightarrow> succeeds r \<and> quiet w1" and
      eff: "\<And>k. r = Inr k \<Longrightarrow> k = int (length d) \<and> view (os_fs w1) = (view (os_fs w))(?D @ cs \<mapsto> File d zero_time x)"
      using qc unfolding mode by simp_all
    have run: "unpack_members dest me (archive (y # ys)) ent left sk w =
        (if me < ent + 1 then ((sk, Some BudgetExceeded), w)
         else case r of Inl e \<Rightarrow> ((sk, Some e), w1) | Inr k \<Rightarrow> unpack_members dest me (archive ys) (ent + 1) (left - k) sk w1)"
      using y File 1 target(1) by (simp add: archive_Cons member_of_simps)
    have total: "sum_list (map (\<lambda>(_, n). reg_bytes n) (y # ys)) = int (length d) + sum_list (map (\<lambda>(_, n). reg_bytes n) ys)"
      "0 \<le> sum_list (map (\<lambda>(_, n). reg_bytes n) ys)"
      using y File by (auto simp: reg_bytes_def intro!: sum_list_nonneg split: node.split)
    show ?thesis
    proof (cases r)
      case (Inl e)
      then show ?thesis using run Cons.prems(3) ok total y File by (auto simp: archive_Cons member_of_simps split: if_splits)
    next
      case (Inr k)
      from holds_tree_step [OF Cons.prems(2) cs(1) conjunct2 [OF eff [OF Inr]]] snoc File
      have "holds_tree ?D (listed (xs @ [(cs, n)])) w1" by (simp add: is_special_def)
      from IH [OF this, of "ent + 1" "left - k"] run Cons.prems(3) ok eff [OF Inr] Inr y File total show ?thesis
        by (auto simp: archive_Cons member_of_simps split: if_splits)
    qed
  qed
qed

subsection \<open>The walk lists a tree\<close>

text \<open>
  A well-formed tree to pack: the root is a directory, every node lies in a directory, no path occurs
  twice, and all names below the root are portable.
\<close>

definition tidy :: "path \<Rightarrow> fs \<Rightarrow> bool" where
  "tidy S fs \<longleftrightarrow> is_dir (get fs S) \<and> distinct (map fst fs) \<and>
     list_all (\<lambda>(q, _). list_all portable (drop (length S) q) \<and> (q \<noteq> S \<longrightarrow> is_dir (get fs (butlast q)))) (subtree S fs)"

definition listing :: "path \<Rightarrow> fs \<Rightarrow> listing" where
  "listing S fs = map (\<lambda>(p, n). (drop (length S) p, n)) (filter (\<lambda>(p, _). p \<noteq> S) (walk S fs))"

text \<open>The tree at \<open>S\<close> without its special nodes.\<close>

definition copied :: "path \<Rightarrow> fs \<Rightarrow> path \<Rightarrow> node option" where
  "copied S fs r = (case view fs (S @ r) of Some (Special _ _) \<Rightarrow> None | v \<Rightarrow> v)"

lemma members_archive: "members S (walk S fs) = archive (listing S fs)"
  by (auto simp: members_def archive_def listing_def intro!: arg_cong [where f = concat])

lemma prefix_le: "prefix xs ys \<Longrightarrow> xs \<le> ys" for xs ys :: path
proof (induction xs arbitrary: ys)
  case (Cons x xs)
  then show ?case by (cases ys) auto
qed simp

lemma set_walk: "(p, n) \<in> set (walk S fs) \<longleftrightarrow> (p, n) \<in> set fs \<and> prefix S p"
  by (auto simp: walk_def subtree_def)

lemma distinct_subtree: "distinct (map fst fs) \<Longrightarrow> distinct (map fst (subtree S fs))"
  unfolding subtree_def by (rule distinct_map_filter)

lemma walk_sorted: "sorted (map fst (walk S fs))"
  by (simp add: walk_def)

lemma walk_distinct: "distinct (map fst fs) \<Longrightarrow> distinct (map fst (walk S fs))"
  using distinct_subtree [of fs S] by (simp add: walk_def distinct_map)

lemma get_in: "distinct (map fst fs) \<Longrightarrow> get fs p = Some n \<longleftrightarrow> (p, n) \<in> set fs"
  by (simp add: get_def)

lemma tidy_parent:
  assumes "tidy S fs" "get fs (S @ cs) \<noteq> None" "i < length cs"
  shows "is_dir (get fs (S @ take i cs))"
  using assms(2,3)
proof (induction cs arbitrary: i rule: rev_induct)
  case (snoc c cs)
  then obtain n where n: "get fs (S @ cs @ [c]) = Some n" by auto
  then have "(S @ cs @ [c], n) \<in> set (subtree S fs)"
    using assms(1) by (simp add: tidy_def get_in subtree_def)
  then have d: "is_dir (get fs (S @ cs))" using assms(1) by (auto simp: tidy_def list_all_iff butlast_append)
  show ?case
  proof (cases "i = length cs")
    case True
    then show ?thesis using d by simp
  next
    case False
    then show ?thesis using snoc.IH [of i] snoc.prems(2) d by (auto elim: is_dirE)
  qed
qed simp

lemma listing_parents_first:
  assumes t: "tidy S fs"
  shows "parents_first (listing S fs)"
proof -
  let ?W = "filter (\<lambda>(p, _). p \<noteq> S) (walk S fs)" and ?f = "\<lambda>(p, n). (drop (length S) p, n)"
  have d: "distinct (map fst fs)" using t by (simp add: tidy_def)
  have dW: "distinct (map fst ?W)" by (rule distinct_map_filter [OF walk_distinct [OF d]])
  have sW: "sorted (map fst ?W)" by (rule sorted_filter [OF walk_sorted])
  have inW: "(p, n) \<in> set ?W \<longleftrightarrow> get fs p = Some n \<and> prefix S p \<and> p \<noteq> S" for p n
    using get_in [OF d] by (auto simp: set_walk)
  have "inj_on (drop (length S)) (set (map fst ?W))"
    by (rule inj_onI) (auto simp: set_walk prefix_def)
  then have "distinct (map (drop (length S)) (map fst ?W))" using dW by (simp only: distinct_map)
  moreover have "map (drop (length S)) (map fst ?W) = map fst (listing S fs)" by (auto simp: listing_def)
  ultimately have "distinct (map fst (listing S fs))" by metis
  moreover have "cs \<noteq> [] \<and> list_all portable cs \<and> (\<forall>i. 0 < i \<longrightarrow> i < length cs \<longrightarrow> (\<exists>t. (take i cs, Dir t) \<in> set xs))"
    if split: "listing S fs = xs @ (cs, n) # ys" for xs cs n ys
  proof -
    obtain us p vs where W: "?W = us @ (p, n) # vs" and xs: "xs = map ?f us" and cs: "cs = drop (length S) p"
      using split by (auto simp: listing_def map_eq_append_conv)
    have "(p, n) \<in> set ?W" using W by simp
    then have p: "get fs p = Some n" "p = S @ cs" "cs \<noteq> []" using inW [of p n] cs by (auto simp: prefix_def)
    then have "(p, n) \<in> set (subtree S fs)" using get_in [OF d] by (simp add: subtree_def)
    then have "list_all portable cs" using t cs by (auto simp: tidy_def list_all_iff)
    moreover have "\<exists>t. (take i cs, Dir t) \<in> set xs" if i: "0 < i" "i < length cs" for i
    proof -
      let ?q = "S @ take i cs"
      obtain u where u: "get fs ?q = Some (Dir u)"
        using tidy_parent [OF t _ i(2)] p by (auto elim: is_dirE)
      have "?q \<noteq> S" using i by auto
      then have q: "(?q, Dir u) \<in> set ?W" using inW [of ?q "Dir u"] u by simp
      have "?q \<le> p" by (rule prefix_le) (simp add: p(2) take_is_prefix)
      have "?q \<noteq> p" using p(2) i by auto
      have "(?q, Dir u) \<notin> set vs"
      proof
        assume "(?q, Dir u) \<in> set vs"
        then have "p \<le> ?q" using sW unfolding W by (auto simp: sorted_append)
        with \<open>?q \<le> p\<close> \<open>?q \<noteq> p\<close> show False by simp
      qed
      then have "(?q, Dir u) \<in> set us" using q \<open>?q \<noteq> p\<close> unfolding W by auto
      then have "?f (?q, Dir u) \<in> set (map ?f us)" unfolding set_map by (rule imageI)
      then have "(take i cs, Dir u) \<in> set xs" unfolding xs by simp
      then show ?thesis ..
    qed
    ultimately show ?thesis using p(3) by blast
  qed
  ultimately show ?thesis unfolding parents_first_def by blast
qed

lemma listed_listing:
  assumes t: "tidy S fs"
  shows "listed (listing S fs) r = copied S fs r"
proof (cases "r = []")
  case True
  have "is_dir (get fs S)" using t by (simp add: tidy_def)
  then show ?thesis using True by (auto simp: listed_def copied_def view_def elim!: is_dirE)
next
  case False
  let ?L = "filter (\<lambda>(_, n). \<not> is_special n) (listing S fs)"
  have d: "distinct (map fst fs)" using t by (simp add: tidy_def)
  have "distinct (map fst (listing S fs))" using listing_parents_first [OF t] by (simp add: parents_first_def)
  then have dL: "distinct (map fst ?L)" by (rule distinct_map_filter)
  have "(r, n) \<in> set ?L \<longleftrightarrow> get fs (S @ r) = Some n \<and> \<not> is_special n" for n
    using False get_in [OF d, of "S @ r" n]
    by (force simp: listing_def set_walk prefix_def image_iff)
  then have "map_of ?L r = Some n \<longleftrightarrow> get fs (S @ r) = Some n \<and> \<not> is_special n" for n
    using dL by simp
  then have m: "map_of ?L r = Some n \<longleftrightarrow> get fs (S @ r) = Some n \<and> \<not> is_special n" for n .
  show ?thesis
  proof (cases "map_of ?L r")
    case None
    then show ?thesis using m [of "the (get fs (S @ r))"] False
      by (cases "get fs (S @ r)"; cases "the (get fs (S @ r))") (auto simp: listed_def copied_def view_def is_special_def)
  next
    case (Some n)
    then show ?thesis using m [of n] False
      by (cases n) (auto simp: listed_def copied_def view_def is_special_def)
  qed
qed

lemma pack_archive:
  assumes "pack dir w = ((s, ms), e, w')" and "tidy (path_comps dir) (os_fs w)" and "good_root dir"
  shows "(quiet w \<longrightarrow> e = None) \<and> os_fs w' = os_fs w \<and>
    (e = None \<longrightarrow> ms = archive (listing (path_comps dir) (os_fs w)))"
proof -
  let ?S = "path_comps dir" and ?fs = "os_fs w"
  have d: "distinct (map fst ?fs)" and root: "get ?fs ?S \<noteq> None" using assms(2) by (auto simp: tidy_def elim: is_dirE)
  have "list_all plain p \<and> get ?fs p = Some n" if "(p, n) \<in> set (walk ?S ?fs)" for p n
  proof -
    have "(p, n) \<in> set (subtree ?S ?fs)" "(p, n) \<in> set ?fs" using that by (auto simp: walk_def subtree_def)
    then have "list_all portable (drop (length ?S) p)" "prefix ?S p"
      using assms(2) by (auto simp: tidy_def list_all_iff subtree_def)
    then have "list_all plain p" using assms(3) by (auto simp: good_root_def prefix_def dest: portable_plain)
    then show ?thesis using get_in [OF d] \<open>(p, n) \<in> set ?fs\<close> by blast
  qed
  then have all: "\<forall>(p, n) \<in> set (walk ?S ?fs). get ?fs p = Some n \<and> list_all plain p" by blast
  have "pack_nodes ?S (walk ?S ?fs) w = ((s, ms), e, w')" using assms(1) root by (simp add: pack_def)
  from pack_nodes_members [OF this all] show ?thesis by (simp add: members_archive)
qed

lemma listing_bytes:
  assumes "tidy S fs"
  shows "sum_list (map (\<lambda>(_, n). reg_bytes n) (listing S fs)) = tree_bytes S fs"
proof -
  have d: "distinct (map fst fs)" and root: "is_dir (get fs S)" using assms by (simp_all add: tidy_def)
  have "reg_bytes n = 0" if "(S, n) \<in> set (walk S fs)" for n
    using that root get_in [OF d, of S n] by (auto simp: set_walk reg_bytes_def is_dir_def split: node.splits)
  then have "sum_list (map (\<lambda>(_, n). reg_bytes n) (filter (\<lambda>(p, _). p \<noteq> S) (walk S fs))) =
      sum_list (map (\<lambda>(_, n). reg_bytes n) (walk S fs))"
    by (intro sum_list_map_filter) auto
  moreover have "\<dots> = tree_bytes S fs"
    unfolding tree_bytes_def walk_def by (metis (no_types, lifting) mset_map mset_sort sum_mset_sum_list)
  moreover have "map (\<lambda>(_, n). reg_bytes n) (listing S fs) =
      map (\<lambda>(_, n). reg_bytes n) (filter (\<lambda>(p, _). p \<noteq> S) (walk S fs))"
    by (auto simp: listing_def)
  ultimately show ?thesis by metis
qed

text \<open>A destination that is to be created: the directories above it are there, nothing at or below it.\<close>

definition vacant :: "path \<Rightarrow> os \<Rightarrow> bool" where
  "vacant D w \<longleftrightarrow> D \<noteq> [] \<and> list_all (\<lambda>i. is_dir (get (os_fs w) (take i D))) [1..<length D] \<and> subtree D (os_fs w) = []"

lemma vacantE:
  assumes "vacant D w"
  obtains p c where "D = p @ [c]" "upward p w" "\<And>r. get (os_fs w) (D @ r) = None"
proof -
  obtain p c where D: "D = p @ [c]" using assms by (metis rev_exhaust vacant_def)
  have "is_dir (get (os_fs w) (take i D))" if "0 < i" "i < length D" for i
    using assms that by (auto simp: vacant_def list_all_iff)
  then have "is_dir (get (os_fs w) (take i p))" if "0 < i" "i \<le> length p" for i
    using that D by force
  then have "upward p w" by (simp add: upward_def)
  moreover have "get (os_fs w) (D @ r) = None" for r
  proof -
    have "get (os_fs w) (D @ r) = get (subtree D (os_fs w)) (D @ r)" by (simp add: get_subtree)
    also have "\<dots> = None" using assms by (simp add: vacant_def get_def)
    finally show ?thesis .
  qed
  ultimately show thesis using that D by blast
qed

lemma unpack_copy:
  assumes "unpack (archive (listing S fs)) dest mb me w = ((s, e), w')"
    and "tidy S fs" and "good_root dest" and "vacant (path_comps dest) w"
  shows "(quiet w \<and> tree_bytes S fs \<le> mb \<and> int (length (archive (listing S fs))) \<le> me \<longrightarrow> e = None) \<and>
    (e = None \<longrightarrow> s = 0 \<and> (\<forall>r. view (os_fs w') (path_comps dest @ r) = copied S fs r))"
proof -
  let ?D = "path_comps dest"
  obtain p c where D: "?D = p @ [c]" and up: "upward p w" and none: "\<And>r. get (os_fs w) (?D @ r) = None"
    using vacantE [OF assms(4)] by metis
  obtain r w1 where 1: "os_mkdir_all dest w = (r, w1)" by (metis surj_pair)
  have "view (os_fs w) (p @ [c]) = None" using none [of "[]"] D by simp
  then have m: "works w r w1 \<and> (succeeds r \<longrightarrow> view (os_fs w1) = (view (os_fs w))(?D \<mapsto> Dir zero_time))"
    using mkdir_all_view [OF 1 D up] D by simp
  show ?thesis
  proof (cases r)
    case (Inl x)
    then show ?thesis using assms(1) m 1 by (auto simp: unpack_def works_def)
  next
    case (Inr u)
    then have v1: "view (os_fs w1) = (view (os_fs w))(?D \<mapsto> Dir zero_time)" using m by simp
    have "take i p \<noteq> ?D" for i
    proof
      assume "take i p = ?D"
      then have "length (take i p) = Suc (length p)" using D by simp
      then show False by simp
    qed
    then have "upward p w1" using up v1 by (simp add: upward_def)
    moreover have "is_dir (get (os_fs w1) ?D)" using v1 by (simp flip: view_dir)
    ultimately have "upward ?D w1" using upward_snoc [of p c w1] D by simp
    moreover have "view (os_fs w1) (?D @ r) = listed [] r" for r
      using v1 none [of r] by (simp add: listed_def)
    ultimately have h: "holds_tree ?D (listed []) w1" by (simp add: holds_tree_def)
    have run: "unpack_members dest me (archive (listing S fs)) 0 mb 0 w1 = ((s, e), w')"
      using assms(1) 1 Inr by (simp add: unpack_def)
    have ne: "?D \<noteq> []" using D by simp
    have "parents_first ([] @ listing S fs)" using listing_parents_first [OF assms(2)] by simp
    from unpack_archive [OF this assms(3) ne h run] show ?thesis
      using m Inr by (auto simp: works_def listing_bytes [OF assms(2)] holds_tree_def listed_listing [OF assms(2)])
  qed
qed

subsection \<open>Properties\<close>

text \<open>
  C11: a packed directory is unpacked as a copy. When both calls succeed, the destination holds exactly
  the directories and the files of the source, with their contents and execute bits, and nothing else:
  links and other special nodes are the only ones left out. And both do succeed when no call fails and
  the tree is within the byte and entry budgets.
\<close>

theorem pack_unpack_copies:
  assumes "good_root dir" and "tidy (path_comps dir) (os_fs w)"
    and "good_root dest" and "vacant (path_comps dest) v"
    and "pack dir w = ((s, ms), e, w')" and "unpack ms dest max_bytes max_entries v = ((s', e'), v')"
  shows "(e = None \<and> e' = None \<longrightarrow> s' = 0 \<and>
      (\<forall>r. view (os_fs v') (path_comps dest @ r) = copied (path_comps dir) (os_fs w) r)) \<and>
    (quiet w \<and> quiet v \<and> tree_bytes (path_comps dir) (os_fs w) \<le> max_bytes \<and> int (length ms) \<le> max_entries \<longrightarrow>
      e = None \<and> e' = None)"
proof -
  note p = pack_archive [OF assms(5,2,1)]
  show ?thesis
  proof (cases e)
    case None
    then show ?thesis using p unpack_copy [OF _ assms(2,3,4), of max_bytes max_entries s' e' v'] assms(6) by simp
  next
    case (Some x)
    then show ?thesis using p by simp
  qed
qed

definition source_os :: os where
  "source_os = \<lparr>os_fs = [([''d'', ''s'', ''x''], File ''run'' (Instant 5) True), ([''d'', ''l''], Special zero_time 3),
     ([], Dir zero_time), ([''d''], Dir (Instant 7)), ([''d'', ''s''], Dir (Instant 6)), ([''d'', ''a''], File [] (Instant 5) False)],
     os_now = Instant 9, os_sched = []\<rparr>"

theorem pack_unpack_copies_witness:
  "case unpack (snd (fst (pack ''/d'' source_os))) ''/st/p'' 3 3 stage_os of ((s', e'), v') \<Rightarrow>
     e' = None \<and> view (os_fs v') [''st'', ''p'', ''s'', ''x''] = Some (File ''run'' zero_time True) \<and>
     view (os_fs v') [''st'', ''p'', ''l''] = None"
proof -
  obtain s ms e w' where P: "pack ''/d'' source_os = ((s, ms), e, w')" by (metis surj_pair)
  obtain s' e' v' where U: "unpack ms ''/st/p'' 3 3 stage_os = ((s', e'), v')" by (metis surj_pair)
  have D: "path_comps ''/d'' = [''d'']" "path_comps ''/st/p'' = [''st'', ''p'']" by (simp_all add: path_comps_def slash_def)
  have "length (snd (fst (pack ''/d'' source_os))) = 3" by code_simp
  then have len: "length ms = 3" using P by simp
  have "good_root ''/d''" "tidy (path_comps ''/d'') (os_fs source_os)" "good_root ''/st/p''"
    "vacant (path_comps ''/st/p'') stage_os" "quiet source_os" "quiet stage_os"
    "tree_bytes (path_comps ''/d'') (os_fs source_os) \<le> 3"
    "copied (path_comps ''/d'') (os_fs source_os) [''s'', ''x''] = Some (File ''run'' zero_time True)"
    "copied (path_comps ''/d'') (os_fs source_os) [''l''] = None"
    by code_simp+
  with pack_unpack_copies [OF this(1-4) P U] len have "e' = None"
    "view (os_fs v') ([''st'', ''p''] @ [''s'', ''x'']) = Some (File ''run'' zero_time True)"
    "view (os_fs v') ([''st'', ''p''] @ [''l'']) = None"
    by (simp_all add: D)
  then show ?thesis using P U by simp
qed

end
