(* ===== verification/Delivery.thy ===== *)
theory Delivery
  imports Server_Safety Archive_Copy
begin

text \<open>
  What a request does to its slot: the transfer works on a staged copy only, and the slot is either
  left as it was or replaced by a completely transferred copy.
\<close>

subsection \<open>A transfer removes nothing\<close>

definition keeps_nodes :: "os \<Rightarrow> int \<Rightarrow> os \<Rightarrow> bool" where
  "keeps_nodes w n w' \<longleftrightarrow> (\<forall>p. get (os_fs w) p \<noteq> None \<longrightarrow> get (os_fs w') p \<noteq> None)"

lemma mk_dirs_keeps: "get fs p \<noteq> None \<Longrightarrow> get (snd (mk_dirs t ps fs)) p \<noteq> None"
  by (induction t ps fs rule: mk_dirs.induct) (auto simp: get_touch get_put split: option.split node.split)

interpretation nodes: extraction keeps_nodes "\<lambda>_. True"
proof
  fix q w
  show "keeps_nodes w 0 (snd (os_mkdir_all q w))" "keeps_nodes w 0 (snd (os_mkdir_all (path_dir q) w))"
    using mkdir_all_snd [of q w] mkdir_all_snd [of "path_dir q" w] mk_dirs_keeps
    by (metis keeps_nodes_def)+
qed (auto simp: keeps_nodes_def os_create_excl_def os_append_def os_close_def Let_def env_step_fs get_touch get_put
    split: prod.splits option.splits node.splits if_splits)

lemma fetch_keeps:
  "0 \<le> c_max_payload (sv_cfg s) \<Longrightarrow> fetch sv s t r rd sp w = (e, w') \<Longrightarrow> get (os_fs w) p \<noteq> None \<Longrightarrow>
   get (os_fs w') p \<noteq> None"
  using nodes.fetch_run [of sp w s sv t r rd e w'] nodes.mkdir [of w sp]
  by (auto simp: nodes.ready_def keeps_nodes_def)

subsection \<open>The slot and the work area\<close>

text \<open>What a request may touch before \<open>Promote\<close>: the staging area and the index file.\<close>

definition work_dirs :: "mirror \<Rightarrow> path set" where
  "work_dirs m = {base_comps m, path_comps (ix_path (mir_idx m)), path_comps (tmp_of (ix_path (mir_idx m)))}"

lemma slot_not_work:
  assumes "slot_of m l k" "index_apart m"
  shows "\<not> below_any (work_dirs m) (slot_comps m k @ x)"
proof -
  obtain cs where cs: "slot_comps m k = path_comps (mir_root m) @ l # cs" "slot_comps m k \<parallel> base_comps m"
    by (rule slot_of_comps [OF assms(1)])
  have "slot_comps m k \<parallel> d" if "d \<in> work_dirs m" for d
    using that cs(2) assms(2) index_apart_slot [OF assms(2), of "slot_comps m k"] cs(1)
    by (auto simp: work_dirs_def ix_file_apart_def)
  then have "d \<parallel> slot_comps m k @ x" if "d \<in> work_dirs m" for d
    using parallel_below [OF parallel_sym] that by blast
  then show ?thesis by (auto simp: below_any_def parallel_def)
qed

text \<open>Equality of two subtrees, up to the modification times of directories.\<close>

definition same_copy :: "path \<Rightarrow> fs \<Rightarrow> path \<Rightarrow> fs \<Rightarrow> bool" where
  "same_copy p fs q fs' \<longleftrightarrow> (\<forall>x. same_node (get fs (p @ x)) (get fs' (q @ x)))"

lemma same_copy_refl [simp]: "same_copy p fs p fs"
  by (simp add: same_copy_def)

lemma same_copy_trans: "same_copy p f1 q f2 \<Longrightarrow> same_copy q f2 r f3 \<Longrightarrow> same_copy p f1 r f3"
  unfolding same_copy_def by (blast intro: same_node_trans)

lemma same_copy_tree: "tree p fs = tree q fs' \<Longrightarrow> same_copy p fs q fs'"
  by (simp add: same_copy_def tree_def fun_eq_iff)

lemma same_copy_file: "same_copy p fs q fs' \<Longrightarrow> get fs p = Some (File d t x) \<Longrightarrow> get fs' q = Some (File d t x)"
  unfolding same_copy_def same_node_def by (metis append_Nil2 is_dir_simps(3))

lemma same_copy_frame:
  assumes "slot_of m l k" "index_apart m" "frame (below_any (work_dirs m)) w w'"
  shows "same_copy (slot_comps m k) (os_fs w) (slot_comps m k) (os_fs w')"
  using assms(3) slot_not_work [OF assms(1,2)] by (simp add: same_copy_def frame_def)

text \<open>
  The three ends of a slot \<open>D\<close> when its new content must satisfy \<open>new\<close>: unchanged and no success
  reported; replaced by a tree that is \<open>new\<close>; or empty, no success reported, and the old copy whole
  below the staging area \<open>B\<close>.
\<close>

definition slot_outcome ::
    "path \<Rightarrow> path \<Rightarrow> bool \<Rightarrow> ((path \<Rightarrow> node option) \<Rightarrow> bool) \<Rightarrow> fs \<Rightarrow> fs \<Rightarrow> bool" where
  "slot_outcome D B ok new fs fs' \<longleftrightarrow>
     \<not> ok \<and> same_copy D fs D fs' \<or> new (tree D fs') \<or>
     \<not> ok \<and> tree D fs' = (\<lambda>_. None) \<and> (\<exists>q. strict_prefix B q \<and> same_copy D fs q fs')"

definition spares_slot :: "path \<Rightarrow> desktop \<Rightarrow> bool" where
  "spares_slot D = desktop_keeps (\<lambda>u v. tree D (os_fs v) = tree D (os_fs u))"

text \<open>The tree a complete transfer leaves at a staged path; \<open>clean\<close> says that nothing was there before.\<close>

definition installed ::
    "services \<Rightarrow> server \<Rightarrow> tunnel \<Rightarrow> request \<Rightarrow> reader \<Rightarrow> bool \<Rightarrow> (path \<Rightarrow> node option) \<Rightarrow> bool" where
  "installed sv s t r rd clean T \<longleftrightarrow>
     (\<exists>sp u v. fetch sv s t r rd sp u = (None, v) \<and> T = tree (path_comps sp) (os_fs v) \<and>
        good_root sp \<and> (clean \<longrightarrow> vacant (path_comps sp) u))"

lemma mk_dirs_dir: "is_dir (get fs q) \<Longrightarrow> is_dir (get (snd (mk_dirs t ps fs)) q)"
  by (induction t ps fs rule: mk_dirs.induct) (auto simp: get_touch get_put split: option.split node.split)

lemma mk_dirs_done: "mk_dirs t ps fs = (None, fs') \<Longrightarrow> q \<in> set ps \<Longrightarrow> is_dir (get fs' q)"
proof (induction t ps fs rule: mk_dirs.induct)
  case (2 t p ps fs)
  have keep: "is_dir (get f q) \<Longrightarrow> mk_dirs t ps f = (None, fs') \<Longrightarrow> is_dir (get fs' q)" for f
    using mk_dirs_dir [of f q t ps] by simp
  show ?case
  proof (cases "q \<in> set ps")
    case True
    then show ?thesis using 2 by (auto split: option.splits node.splits)
  next
    case False
    then have q: "q = p" using "2.prems"(2) by simp
    show ?thesis
    proof (cases "get fs p")
      case None
      then show ?thesis using "2.prems"(1) q keep [of "touch p t (put p (Dir t) fs)"] by (simp add: get_touch get_put)
    next
      case (Some n)
      then show ?thesis using "2.prems"(1) q keep [of fs] by (cases n) simp_all
    qed
  qed
qed simp

lemma mkdir_all_upward:
  assumes "os_mkdir_all s w = (Inr u, w')"
  shows "upward (path_comps s) w'"
proof -
  obtain f w0 where e: "env_step w = (f, w0)" by (metis surj_pair)
  let ?p = "path_comps s"
  have m: "mk_dirs (os_now w0) (map (\<lambda>i. take (Suc i) ?p) [0..<length ?p]) (os_fs w0) = (None, os_fs w')"
    using assms by (auto simp: os_mkdir_all_def Let_def e split: prod.splits option.splits if_splits)
  have "take i ?p \<in> set (map (\<lambda>i. take (Suc i) ?p) [0..<length ?p])" if "0 < i" "i \<le> length ?p" for i
    using that by (auto intro!: image_eqI [where x = "i - 1"])
  then show ?thesis using mk_dirs_done [OF m] by (simp add: upward_def)
qed

lemma staging_vacant:
  assumes g: "good_root (mir_root m)" and "plain nm" and "staging_dir m w = (Inr (path_join [staging_base m, nm]), w')"
    and n: "nested (base_comps m) (os_fs w)"
  shows "vacant (path_comps (staged_path m nm)) w'"
proof -
  let ?B = "base_comps m"
  note b = base_comps [OF g]
  obtain u w1 where 1: "os_mkdir_all (staging_base m) w = (Inr u, w1)"
    and 2: "os_mkdir_temp (staging_base m) ''req-'' w1 = (Inr (path_join [staging_base m, nm]), w')"
    using assms(3) by (auto simp: staging_dir_def bind_os_def split: prod.splits sum.splits)
  have same1: "get (os_fs w1) q = get (os_fs w) q" if "\<not> prefix q ?B" for q
  proof -
    have "subtree q (os_fs w1) = subtree q (os_fs w)" using mkdir_all_subtree [OF _ 1] that b by simp
    then show ?thesis using get_subtree [of q "os_fs w1" q] get_subtree [of q "os_fs w" q] by simp
  qed
  obtain k where same: "path_join [staging_base m, nm] = path_join [staging_base m, ''req-'' @ decimal k]"
    and new: "get (os_fs w1) (?B @ [''req-'' @ decimal k]) = None"
    and made: "is_dir (get (os_fs w') (?B @ [''req-'' @ decimal k]))"
    and keep: "\<And>p. \<not> prefix p (?B @ [''req-'' @ decimal k]) \<Longrightarrow> subtree p (os_fs w') = subtree p (os_fs w1)"
    using mkdir_temp_result [OF 2] by (auto simp: b Let_def)
  have "path_comps (path_join [staging_base m, nm]) = ?B @ [nm]" "path_comps (path_join [staging_base m, ''req-'' @ decimal k]) = ?B @ [''req-'' @ decimal k]"
    using join1_comps [OF base_good [OF g]] assms(2) plain_names(4) b by simp_all
  then have nm: "''req-'' @ decimal k = nm" using same by simp
  have "\<not> prefix (?B @ nm # r) ?B" for r by (metis append_self_conv list.discI prefixE prefix_order.antisym prefixI append.right_neutral)
  then have gone: "get (os_fs w1) (?B @ nm # r) = None" for r
    using nested_below [OF n, of nm r] new same1 nm by simp
  have "get (os_fs w') (?B @ nm # x # r) = None" for x r
  proof -
    let ?q = "?B @ nm # x # r"
    have "\<not> prefix ?q (?B @ [''req-'' @ decimal k])" using nm by simp
    then have "subtree ?q (os_fs w') = subtree ?q (os_fs w1)" by (rule keep)
    then have "get (subtree ?q (os_fs w')) ?q = get (subtree ?q (os_fs w1)) ?q" by simp
    then show ?thesis using gone [of "x # r"] by (simp add: get_subtree)
  qed
  then have none: "subtree (?B @ [nm, payload_name]) (os_fs w') = []"
    by (auto simp: subtree_def filter_empty_conv get_def map_of_eq_None_iff prefix_def) (metis fst_conv imageI)
  have "frame (strict_prefix ?B) w1 w'"
    using mkdir_temp_frame [of "strict_prefix ?B" "staging_base m" w1 "''req-''"] 2 b by (simp add: strict_prefix_def)
  moreover have "\<not> strict_prefix ?B (take i ?B)" for i
    by (metis prefix_order.less_le_not_le take_is_prefix)
  ultimately have "is_dir (get (os_fs w1) (take i ?B)) \<Longrightarrow> is_dir (get (os_fs w') (take i ?B))" for i
    unfolding frame_def same_node_def by metis
  then have "upward ?B w'" using mkdir_all_upward [OF 1] unfolding b by (simp add: upward_def)
  then have "upward (?B @ [nm]) w'" using made nm by (simp add: upward_snoc)
  then have "is_dir (get (os_fs w') (take i (?B @ [nm, payload_name])))" if "0 < i" "i < length (?B @ [nm, payload_name])" for i
  proof -
    have "?B @ [nm, payload_name] = (?B @ [nm]) @ [payload_name]" by simp
    then have "take i (?B @ [nm, payload_name]) = take i (?B @ [nm])" using that by (simp only: take_append) simp
    then show ?thesis using that \<open>upward (?B @ [nm]) w'\<close> by (simp add: upward_def)
  qed
  then have "list_all (\<lambda>i. is_dir (get (os_fs w') (take i (?B @ [nm, payload_name])))) [1..<length (?B @ [nm, payload_name])]"
    unfolding list_all_iff set_upt by (metis atLeastLessThan_iff less_eq_Suc_le One_nat_def)
  moreover have "?B @ [nm, payload_name] \<noteq> []" by simp
  ultimately show ?thesis unfolding vacant_def staged_comps [OF g assms(2)] using none by blast
qed

lemma remove_staged:
  assumes "path_comps staged = B @ [nm]" "D \<parallel> B @ [nm]"
  shows "tree D (os_fs (snd (os_remove_all staged w))) = tree D (os_fs w)"
  using remove_all_subtree [of staged w _ "snd (os_remove_all staged w)" D] assms
  by (metis surjective_pairing tree_subtree)

lemma deliver_slot:
  assumes slot: "slot_of (sv_mir s) l k" "index_apart (sv_mir s)" and nm: "plain nm"
    and there: "get (os_fs w) (base_comps (sv_mir s) @ [nm]) \<noteq> None"
    and cap: "0 \<le> c_max_payload (sv_cfg s)" and a: "anchored (below_any (work_dirs (sv_mir s))) w"
    and dk: "spares_slot (slot_comps (sv_mir s) k) (se_desktop sv)"
    and staged: "staged = path_join [staging_base (sv_mir s), nm]"
    and run: "deliver sv s t r k rd staged wr w = (out, s', w')"
    and fresh: "clean \<Longrightarrow> vacant (path_comps (staged_path (sv_mir s) nm)) w"
  shows "slot_outcome (slot_comps (sv_mir s) k) (base_comps (sv_mir s)) (fst out = None)
      (installed sv s t r rd clean) (os_fs w) (os_fs (snd (os_remove_all staged w')))"
proof -
  let ?m = "sv_mir s" and ?sp = "staged_path (sv_mir s) nm"
  let ?D = "slot_comps ?m k" and ?B = "base_comps ?m"
  have g: "good_root (mir_root ?m)" using slot(1) by (simp add: slot_of_def)
  have DB: "?D \<parallel> ?B @ [nm]" by (rule slot_of_comps [OF slot(1)]) (rule parallel_below)
  have sc: "path_comps staged = ?B @ [nm]"
    unfolding staged using join1_comps [OF base_good [OF g] nm] base_comps [OF g] by simp
  note rm = remove_staged [OF sc]
  have root: "below_any (work_dirs ?m) ?B" by (auto simp: below_any_def work_dirs_def)
  obtain e w1 where 1: "fetch sv s t r rd ?sp w = (e, w1)" by (metis surj_pair)
  have same1: "same_copy ?D (os_fs w) ?D (os_fs w1)"
    by (rule same_copy_frame [OF slot fetch_frame [OF staged_inside [OF g nm root] a cap 1]])
  note run = run [unfolded deliver_def Let_def staged, folded staged_path_def, unfolded 1 prod.case]
  show ?thesis
  proof (cases e)
    case (Some x)
    then show ?thesis using run same1 rm [OF DB, of w'] same_copy_tree [of ?D "os_fs w1" ?D]
      by (auto simp: slot_outcome_def fail_with_def intro: same_copy_trans)
  next
    case None
    obtain pr m w2 where 2: "promote (se_index sv) ?m ?sp k (req_dir r) w1 = (pr, m, w2)" by (metis surj_pair)
    have "good_root ?sp" unfolding staged_path_def
      by (rule join1_good [OF join1_good [OF base_good [OF g] nm] plain_names(2)])
    then have new: "installed sv s t r rd clean (tree (?B @ [nm, payload_name]) (os_fs w1))"
      unfolding installed_def using 1 None staged_comps [OF g nm] fresh by metis
    note out2 = promote_outcome [OF slot nm fetch_keeps [OF cap 1 there] 2]
    obtain oe w3 where 3: "open_target (se_desktop sv) (sv_open_command s) r (m_abs m k) w2 = (oe, w3)" by (metis surj_pair)
    have t3: "tree ?D (os_fs w3) = tree ?D (os_fs w2)"
      using open_target_keeps [OF dk [unfolded spares_slot_def], of "sv_open_command s" r "m_abs m k" w2] 3 by simp
    obtain tr ix w4 where 4: "ix_touch (se_index sv) k (mir_idx m) w3 = (tr, ix, w4)" by (metis surj_pair)
    have "ix_file_apart (mir_idx ?m) ?D"
      by (rule slot_of_comps [OF slot(1)]) (simp add: index_apart_slot [OF slot(2)])
    then have "ix_file_apart (mir_idx m) ?D" using promote_same_files [OF 2] by (simp add: ix_file_apart_def)
    from tree_subtree [OF ix_ops_subtree(4) [OF this 4]] have t4: "tree ?D (os_fs w4) = tree ?D (os_fs w2)" using t3 by simp
    note run = run [unfolded None option.case 2 prod.case]
    show ?thesis
    proof (cases pr)
      case (Inr u)
      then have "tree ?D (os_fs w') = tree ?D (os_fs w2)"
        using run [unfolded Inr sum.case 3 prod.case] 4 t3 t4 by (cases oe) auto
      then show ?thesis using out2 Inr new rm [OF DB, of w'] by (auto simp: slot_outcome_def)
    next
      case (Inl x)
      then have w': "w' = w2" "fst out \<noteq> None" using run by (auto simp: fail_with_def)
      show ?thesis
        using out2
      proof (elim disjE conjE exE)
        assume "tree ?D (os_fs w2) = tree (?B @ [nm, payload_name]) (os_fs w1)"
        then show ?thesis using new rm [OF DB, of w'] w' by (simp add: slot_outcome_def)
      next
        assume "tree ?D (os_fs w2) = tree ?D (os_fs w1)"
        then show ?thesis
          using same_copy_trans [OF same1 same_copy_tree] rm [OF DB, of w'] w' by (simp add: slot_outcome_def)
      next
        fix q assume q: "tree ?D (os_fs w2) = (\<lambda>_. None)" "strict_prefix ?B q" "q \<parallel> ?B @ [nm]"
          "tree q (os_fs w2) = tree ?D (os_fs w1)"
        have "tree q (os_fs (snd (os_remove_all staged w'))) = tree ?D (os_fs w1)"
          using rm [OF q(3), of w'] q(4) w' by simp
        then have "same_copy ?D (os_fs w) q (os_fs (snd (os_remove_all staged w')))"
          by (intro same_copy_trans [OF same1 same_copy_tree]) simp
        then show ?thesis using q rm [OF DB, of w'] w' by (auto simp: slot_outcome_def)
      qed
    qed
  qed
qed

lemma slot_outcome_before:
  "same_copy D fs0 D fs1 \<Longrightarrow> slot_outcome D B ok new fs1 fs2 \<Longrightarrow> slot_outcome D B ok new fs0 fs2"
  unfolding slot_outcome_def by (meson same_copy_trans)

lemma serve_slot_outcome:
  assumes slot: "slot_of (sv_mir s) l k" "index_apart (sv_mir s)"
    and cap: "0 \<le> c_max_payload (sv_cfg s)" and a: "anchored (below_any (work_dirs (sv_mir s))) w"
    and dk: "spares_slot (slot_comps (sv_mir s) k) (se_desktop sv)"
    and run: "serve_slot sv s t r k rd wr w = (out, s', w')"
  shows "slot_outcome (slot_comps (sv_mir s) k) (base_comps (sv_mir s)) (fst out = None)
      (installed sv s t r rd (nested (base_comps (sv_mir s)) (os_fs w))) (os_fs w) (os_fs w')"
proof -
  let ?m = "sv_mir s"
  let ?D = "slot_comps ?m k" and ?B = "base_comps ?m"
  have g: "good_root (mir_root ?m)" using slot(1) by (simp add: slot_of_def)
  have root: "below_any (work_dirs ?m) ?B" by (auto simp: below_any_def work_dirs_def)
  obtain c w1 where 1: "check_overwrite ?m k (req_force r) w = (c, w1)" by (metis surj_pair)
  have fs1: "os_fs w1 = os_fs w" using check_overwrite_fs [of ?m k "req_force r" w] 1 by simp
  obtain d w2 where 2: "staging_dir ?m w1 = (d, w2)" by (metis surj_pair)
  have a1: "anchored (below_any (work_dirs ?m)) w1" using a fs1 by (simp add: anchored_def)
  have f2: "frame (below_any (work_dirs ?m)) w1 w2" by (rule staging_dir_below [OF g root a1 2])
  have same: "same_copy ?D (os_fs w) ?D (os_fs w2)" using same_copy_frame [OF slot f2] fs1 by simp
  note run = run [unfolded serve_slot_def Let_def 1 prod.case 2]
  show ?thesis
  proof (cases c)
    case (Inl e)
    then show ?thesis using run fs1 by (auto simp: slot_outcome_def fail_with_def)
  next
    case (Inr u)
    show ?thesis
    proof (cases d)
      case (Inl e)
      then show ?thesis using run Inr same by (auto simp: slot_outcome_def fail_with_def)
    next
      case (Inr staged)
      obtain nm where nm: "plain nm" "staged = path_join [staging_base ?m, nm]"
        and "is_dir (get (os_fs w2) (?B @ [nm]))"
        using staging_dir_result [OF g 2 [unfolded Inr]] by metis
      then have there: "get (os_fs w2) (?B @ [nm]) \<noteq> None" by (auto elim: is_dirE)
      obtain o3 s3 w3 where 3: "deliver sv s t r k rd staged (snd (say sv received_event wr)) w2 = (o3, s3, w3)"
        by (metis prod_cases3)
      have "vacant (path_comps (staged_path ?m nm)) w2" if "nested ?B (os_fs w)"
        using staging_vacant [OF g nm(1) _ that [folded fs1]] 2 Inr nm(2) by simp
      from deliver_slot [OF slot nm(1) there cap frame_anchored [OF f2 a1] dk nm(2) 3 this]
      have "slot_outcome ?D ?B (fst o3 = None) (installed sv s t r rd (nested ?B (os_fs w))) (os_fs w2) (os_fs (snd (os_remove_all staged w3)))" .
      then show ?thesis
        using run \<open>c = Inr u\<close> Inr 3 same by (auto intro: slot_outcome_before)
    qed
  qed
qed

lemma handle_outcome:
  assumes "good_root (mir_root (sv_mir s))" "index_apart (sv_mir s)" "0 \<le> c_max_payload (sv_cfg s)"
    and "anchored (below_any (work_dirs (sv_mir s))) w" "spares_slot (slot_comps (sv_mir s) k) (se_desktop sv)"
    and "read_request (se_decode sv) (rd_rest rd) = (Inr r, rest)"
    and "rel (h_label (tn_host t)) (req_path r) = Inr k"
    and "handle sv s t rd wr w = (out, s', w')"
  shows "slot_outcome (slot_comps (sv_mir s) k) (base_comps (sv_mir s)) (fst out = None)
      (installed sv s t r (rd\<lparr>rd_rest := rest\<rparr>) (nested (base_comps (sv_mir s)) (os_fs w))) (os_fs w) (os_fs w')"
  using assms(8)
proof (cases rule: handle_cases)
  case (slot r' rest' k')
  then have "r' = r" "rest' = rest" "k' = k" using assms(6,7) by auto
  with slot show ?thesis
    using serve_slot_outcome [OF slot_of_request [OF _ assms(7,1)] assms(2,3,4,5)] by blast
qed (auto simp: slot_outcome_def fail_with_def)

subsection \<open>What a finished transfer holds\<close>

lemma pull_file_ok:
  assumes "\<not> req_dir r" "pull win b untar ssh m ctl t r staged w = (None, w')" "0 \<le> m" "m < max_i64"
  shows "\<exists>cmd. ssh (ssh_bin t) (exec_argv win t ctl (remote_command r)) = Inr cmd \<and> sr_wait cmd False = None \<and>
    int (length (rd_rest (sr_out cmd))) \<le> m \<and> holds staged (rd_rest (sr_out cmd)) w'"
proof -
  obtain cmd where cmd: "ssh (ssh_bin t) (exec_argv win t ctl (remote_command r)) = Inr cmd"
    using assms(2) by (auto simp: pull_def split: sum.splits)
  let ?lr = "\<lparr>lr_src = sr_out cmd, lr_n = i64 (m + 1)\<rparr>" and ?out = "rd_rest (sr_out cmd)"
  have n: "i64 (m + 1) = m + 1" using assms(3,4) by (intro i64_id) (simp add: in_i64_def min_i64_def)
  obtain u w1 s' w2 where 1: "os_create_excl staged False w = (Inr u, w1)"
    and 2: "io_copy b staged (Limited ?lr) w1 = (None, s', w2)" "os_fs w' = os_fs w2"
    and left: "src_left s' \<noteq> 0" "sr_wait cmd False = None"
    using assms(1,2) cmd
    by (auto simp: pull_def pull_copy_def Let_def split: prod.splits sum.splits if_splits dest!: close_after_fs)
  obtain src' where d: "src_drain b (Limited ?lr) = ((take (nat (m + 1)) ?out, None),
      Limited \<lparr>lr_src = src', lr_n = m + 1 - int (min (nat (m + 1)) (length ?out))\<rparr>)"
    using src_drain_limited [of b ?lr] n by auto
  from io_copy_delivers [OF create_holds [OF 1] 2(1)] d have
    s': "s' = Limited \<lparr>lr_src = src', lr_n = m + 1 - int (min (nat (m + 1)) (length ?out))\<rparr>"
    and h: "holds staged (take (nat (m + 1)) ?out) w2" by auto
  from left(1) s' assms(3) have len: "int (length ?out) \<le> m" by (auto simp: min_def split: if_splits)
  then have "take (nat (m + 1)) ?out = ?out" by simp
  then show ?thesis using cmd left(2) len h 2(2) by (simp add: holds_def)
qed

lemma fetch_file_ok:
  assumes "\<not> req_dir r" "req_mode r \<in> {mode_inline, mode_pull}"
    and "0 \<le> c_max_payload (sv_cfg s)" "c_max_payload (sv_cfg s) \<le> max_i64 - int max_chunk_bytes"
    and "fetch sv s t r rd sp w = (None, w')"
  shows "\<exists>d. holds sp d w' \<and> int (length d) \<le> c_max_payload (sv_cfg s) \<and>
    (if req_mode r = mode_inline then \<exists>wire tl. rd_rest rd = wire @ tl \<and> framed 0 wire d
     else \<exists>cmd. se_ssh sv (ssh_bin t) (exec_argv (windows sv) t (control_dir (sv_cfg s)) (remote_command r)) = Inr cmd \<and>
       sr_wait cmd False = None \<and> d = rd_rest (sr_out cmd))"
proof (cases "req_mode r = mode_inline")
  case True
  then have "receive_inline (se_buffer sv) (se_untar sv) (c_max_payload (sv_cfg s)) rd r sp w = (None, w')"
    using assms(5) by (auto simp: fetch_def Let_def split: if_splits)
  from receive_file [OF assms(1) this] obtain d cr' where
    d: "cr_drain (se_buffer sv) (new_chunk_reader rd (c_max_payload (sv_cfg s))) = ((d, None), cr')" "holds sp d w'" by blast
  have "int (length d) \<le> c_max_payload (sv_cfg s)"
    using drain_cap [OF cr_inv_new [OF assms(3,4)] d(1)] by (simp add: new_chunk_reader_def)
  moreover have "\<exists>wire tl. rd_rest rd = wire @ tl \<and> framed 0 wire d"
    using drain_sound [OF d(1)] by (auto simp: new_chunk_reader_def)
  ultimately show ?thesis using d(2) True by auto
next
  case False
  then have p: "pull (windows sv) (se_buffer sv) (se_untar sv) (se_ssh sv) (c_max_payload (sv_cfg s))
      (control_dir (sv_cfg s)) t r sp w = (None, w')"
    using assms(2,5) by (auto simp: fetch_def Let_def mode_inline_def mode_pull_def)
  have "c_max_payload (sv_cfg s) < max_i64" using assms(4) by (simp add: max_chunk_bytes_def)
  from pull_file_ok [OF assms(1) p assms(3) this] False show ?thesis by auto
qed

lemma handle_file:
  assumes "good_root (mir_root (sv_mir s))" and "index_apart (sv_mir s)"
    and "0 \<le> c_max_payload (sv_cfg s)" and "c_max_payload (sv_cfg s) \<le> max_i64 - int max_chunk_bytes"
    and "anchored (below_any (work_dirs (sv_mir s))) w"
    and "desktop_keeps (\<lambda>u v. tree (slot_comps (sv_mir s) k) (os_fs v) = tree (slot_comps (sv_mir s) k) (os_fs u)) (se_desktop sv)"
    and "read_request (se_decode sv) (rd_rest rd) = (Inr r, rest)" and "\<not> req_dir r"
    and "rel (h_label (tn_host t)) (req_path r) = Inr k"
    and "handle sv s t rd wr w = ((None, wr'), s', w')"
  shows "\<exists>d. file_data (os_fs w') (m_abs (sv_mir s) k) = Some d \<and> int (length d) \<le> c_max_payload (sv_cfg s) \<and>
    (if req_mode r = mode_inline then \<exists>wire tl. rest = wire @ tl \<and> framed 0 wire d
     else \<exists>cmd. se_ssh sv (ssh_bin t) (exec_argv (windows sv) t (control_dir (sv_cfg s)) (remote_command r)) = Inr cmd \<and>
       sr_wait cmd False = None \<and> d = rd_rest (sr_out cmd))"
proof -
  from handle_outcome [OF assms(1-3,5) assms(6) [folded spares_slot_def] assms(7,9,10)]
  obtain sp u v where f: "fetch sv s t r (rd\<lparr>rd_rest := rest\<rparr>) sp u = (None, v)"
    and T: "tree (slot_comps (sv_mir s) k) (os_fs w') = tree (path_comps sp) (os_fs v)"
    by (auto simp: slot_outcome_def installed_def)
  have "req_mode r \<in> {mode_inline, mode_pull}"
    using assms(10)
  proof (cases rule: handle_cases)
    case (slot r' rest' k')
    then show ?thesis using assms(7) by (auto simp: admit_None validate_None)
  qed (auto simp: fail_with_def)
  from fetch_file_ok [OF assms(8) this assms(3,4) f] obtain d where d: "holds sp d v" "int (length d) \<le> c_max_payload (sv_cfg s)"
    "if req_mode r = mode_inline then \<exists>wire tl. rd_rest (rd\<lparr>rd_rest := rest\<rparr>) = wire @ tl \<and> framed 0 wire d
     else \<exists>cmd. se_ssh sv (ssh_bin t) (exec_argv (windows sv) t (control_dir (sv_cfg s)) (remote_command r)) = Inr cmd \<and>
       sr_wait cmd False = None \<and> d = rd_rest (sr_out cmd)" by blast
  have "get (os_fs w') (slot_comps (sv_mir s) k) = get (os_fs v) (path_comps sp)"
    using fun_cong [OF T, of "[]"] by (simp add: tree_def)
  then have "file_data (os_fs w') (m_abs (sv_mir s) k) = Some d"
    using d(1) by (simp add: holds_def file_data_def slot_comps_def)
  moreover have "rd_rest (rd\<lparr>rd_rest := rest\<rparr>) = rest" by simp
  ultimately show ?thesis using d(2,3) by metis
qed

lemma receive_dir:
  assumes "receive_inline b untar m rd r sp u = (None, v)" and "req_dir r"
    and "framed 0 (rd_rest rd) d" and "int (length d) \<le> m" and "m \<le> max_i64 - int max_chunk_bytes"
    and "fst (untar d None) = archive (listing S fs)" and "tidy S fs" and "good_root sp" and "vacant (path_comps sp) u"
  shows "view (os_fs v) (path_comps sp @ q) = copied S fs q"
proof -
  let ?cr = "new_chunk_reader rd m"
  have "cr_inv ?cr" using assms(4,5) by (intro cr_inv_new) auto
  then obtain cr' where "cr_drain b ?cr = ((d, None), cr')"
    using drain_framed [of ?cr "rd_rest rd" d "[]" b] assms(3,4) by (auto simp: new_chunk_reader_def)
  then obtain sk where "unpack (archive (listing S fs)) sp m max_archive_entries u = ((sk, None), v)"
    using assms(1,2,6) by (auto simp: receive_inline_def Let_def split: prod.splits option.splits)
  from unpack_copy [OF this assms(7-9)] show ?thesis by simp
qed

lemma handle_dir:
  assumes "good_root (mir_root (sv_mir s))" and "index_apart (sv_mir s)"
    and "0 \<le> c_max_payload (sv_cfg s)" and "c_max_payload (sv_cfg s) \<le> max_i64 - int max_chunk_bytes"
    and "anchored (below_any (work_dirs (sv_mir s))) w"
    and "desktop_keeps (\<lambda>u v. tree (slot_comps (sv_mir s) k) (os_fs v) = tree (slot_comps (sv_mir s) k) (os_fs u)) (se_desktop sv)"
    and "nested (base_comps (sv_mir s)) (os_fs w)"
    and "read_request (se_decode sv) (rd_rest rd) = (Inr r, rest)" and "req_dir r" and "req_mode r = mode_inline"
    and "rel (h_label (tn_host t)) (req_path r) = Inr k"
    and "handle sv s t rd wr w = ((None, wr'), s', w')"
    and "framed 0 rest d" and "int (length d) \<le> c_max_payload (sv_cfg s)"
    and "fst (se_untar sv d None) = archive (listing S fs)" and "tidy S fs"
  shows "view (os_fs w') (slot_comps (sv_mir s) k @ q) = copied S fs q"
proof -
  from handle_outcome [OF assms(1-3,5) assms(6) [folded spares_slot_def] assms(8,11,12)] assms(7)
  obtain sp u v where f: "fetch sv s t r (rd\<lparr>rd_rest := rest\<rparr>) sp u = (None, v)"
    and T: "tree (slot_comps (sv_mir s) k) (os_fs w') = tree (path_comps sp) (os_fs v)"
    and sp: "good_root sp" "vacant (path_comps sp) u"
    by (auto simp: slot_outcome_def installed_def)
  have "receive_inline (se_buffer sv) (se_untar sv) (c_max_payload (sv_cfg s)) (rd\<lparr>rd_rest := rest\<rparr>) r sp u = (None, v)"
    using f assms(10) by (simp add: fetch_def Let_def split: if_splits)
  from receive_dir [OF this assms(9) _ assms(14,4,15,16) sp] assms(13)
  have "view (os_fs v) (path_comps sp @ q) = copied S fs q" by simp
  moreover have "view (os_fs w') (slot_comps (sv_mir s) k @ q) = view (os_fs v) (path_comps sp @ q)"
    using fun_cong [OF T, of q] by (simp add: view_def tree_def)
  ultimately show ?thesis by simp
qed

subsection \<open>Properties\<close>

text \<open>
  C1: one request never leaves a torn copy: whichever of its calls fail, and wherever the transfer
  breaks off, the slot of the requested path afterwards is what it was before (up to modification
  times of directories) with no success reported; or it is exactly the tree a complete, successful
  transfer had staged, from a world in which, if the work area was well formed, nothing was at or below
  the staged path; or, with no success reported, it is empty and the old copy lies whole below the
  staging area. What the opened application does to the slot is left out.
\<close>

theorem handle_atomic:
  assumes "good_root (mir_root (sv_mir s))" and "index_apart (sv_mir s)" and "0 \<le> c_max_payload (sv_cfg s)"
    and "anchored (below_any (work_dirs (sv_mir s))) w"
    and "desktop_keeps (\<lambda>u v. tree (slot_comps (sv_mir s) k) (os_fs v) = tree (slot_comps (sv_mir s) k) (os_fs u)) (se_desktop sv)"
    and "read_request (se_decode sv) (rd_rest rd) = (Inr r, rest)"
    and "rel (h_label (tn_host t)) (req_path r) = Inr k"
    and "handle sv s t rd wr w = ((res, wr'), s', w')"
  shows "res \<noteq> None \<and> same_copy (slot_comps (sv_mir s) k) (os_fs w) (slot_comps (sv_mir s) k) (os_fs w') \<or>
    (\<exists>staged u v. fetch sv s t r (rd\<lparr>rd_rest := rest\<rparr>) staged u = (None, v) \<and>
       tree (slot_comps (sv_mir s) k) (os_fs w') = tree (path_comps staged) (os_fs v) \<and> good_root staged \<and>
       (nested (base_comps (sv_mir s)) (os_fs w) \<longrightarrow> vacant (path_comps staged) u)) \<or>
    res \<noteq> None \<and> tree (slot_comps (sv_mir s) k) (os_fs w') = (\<lambda>_. None) \<and>
       (\<exists>q. strict_prefix (base_comps (sv_mir s)) q \<and> same_copy (slot_comps (sv_mir s) k) (os_fs w) q (os_fs w'))"
  using handle_outcome [OF assms(1-4) assms(5) [folded spares_slot_def] assms(6-8)]
  by (auto simp: slot_outcome_def installed_def)

definition pulled_request :: request where
  "pulled_request = demo_request\<lparr>req_mode := ''pull''\<rparr>"

lemma demo_admitted:
  "admit demo_server demo_tunnel pulled_request = None"
  "rel (org_label (req_origin pulled_request)) (req_path pulled_request) = Inr ''h/x''"
  by code_simp+

lemma demo_served:
  "fst (fst (serve_slot (demo_services pulled_request) demo_server demo_tunnel pulled_request ''h/x''
     (demo_conn\<lparr>rd_rest := demo_stream\<rparr>) open_writer served_os)) = None"
  by code_simp

lemma demo_pulled: "fst (fst (handle (demo_services pulled_request) demo_server demo_tunnel demo_conn open_writer served_os)) = None"
  using demo_admitted demo_served by (simp add: handle_def demo_read)

lemma demo_setup:
  "good_root (mir_root (sv_mir demo_server))" "index_apart (sv_mir demo_server)"
  "0 \<le> c_max_payload (sv_cfg demo_server)" "c_max_payload (sv_cfg demo_server) \<le> max_i64 - int max_chunk_bytes"
  "anchored (below_any (work_dirs (sv_mir demo_server))) served_os"
  "desktop_keeps (\<lambda>u v. tree p (os_fs v) = tree p (os_fs u)) (se_desktop (demo_services r))"
  "rel (h_label (tn_host demo_tunnel)) (req_path demo_request) = Inr ''h/x''"
proof -
  show "good_root (mir_root (sv_mir demo_server))" using demo_slot by (simp add: demo_server_def slot_of_def)
  show "index_apart (sv_mir demo_server)" using demo_apart by (simp add: demo_server_def)
  show "0 \<le> c_max_payload (sv_cfg demo_server)" "c_max_payload (sv_cfg demo_server) \<le> max_i64 - int max_chunk_bytes"
    by (simp_all add: demo_server_def max_i64_def max_chunk_bytes_def)
  have "is_dir (get (os_fs served_os) (take i d))" if "d \<in> work_dirs demo_mirror" "i < length d" for d i
  proof -
    have "path_comps (ix_path (mir_idx demo_mirror)) = [''s'', ''i'']"
      "path_comps (tmp_of (ix_path (mir_idx demo_mirror))) = [''s'', ''i.tmp'']"
      by (simp_all add: demo_mirror_def path_comps_def slash_def tmp_of_def)
    then have "take i d \<in> {[], [''m''], [''s'']}" using that by (auto simp: work_dirs_def demo_comps less_Suc_eq)
    then show ?thesis by (auto simp: served_os_def get_def)
  qed
  then show "anchored (below_any (work_dirs (sv_mir demo_server))) served_os"
    by (intro anchored_region) (simp_all add: demo_server_def)
  show "desktop_keeps (\<lambda>u v. tree p (os_fs v) = tree p (os_fs u)) (se_desktop (demo_services r))"
    by (simp add: desktop_keeps_def demo_services_def demo_desktop_def)
  show "rel (h_label (tn_host demo_tunnel)) (req_path demo_request) = Inr ''h/x''" by code_simp
qed

theorem handle_atomic_witness:
  "case handle (demo_services demo_request) demo_server demo_tunnel demo_conn open_writer served_os of (out, s', w') \<Rightarrow>
     get (os_fs w') [''m'', ''h'', ''x''] = Some (File ''old'' zero_time False) \<or>
     (\<exists>staged u v. fetch (demo_services demo_request) demo_server demo_tunnel demo_request
         (demo_conn\<lparr>rd_rest := demo_stream\<rparr>) staged u = (None, v)) \<or>
     get (os_fs w') [''m'', ''h'', ''x''] = None"
proof -
  obtain res wr' s' w' where run: "handle (demo_services demo_request) demo_server demo_tunnel demo_conn open_writer served_os =
      ((res, wr'), s', w')" by (metis surj_pair)
  have D: "slot_comps (sv_mir demo_server) ''h/x'' = [''m'', ''h'', ''x'']" using demo_comps by (simp add: demo_server_def)
  have old: "get (os_fs served_os) [''m'', ''h'', ''x''] = Some (File ''old'' zero_time False)"
    by (simp add: served_os_def get_def)
  from handle_atomic [OF demo_setup(1-3,5,6) demo_read demo_setup(7) run]
  have "get (os_fs w') [''m'', ''h'', ''x''] = Some (File ''old'' zero_time False) \<or>
     (\<exists>staged u v. fetch (demo_services demo_request) demo_server demo_tunnel demo_request
         (demo_conn\<lparr>rd_rest := demo_stream\<rparr>) staged u = (None, v)) \<or>
     get (os_fs w') [''m'', ''h'', ''x''] = None"
    unfolding D using same_copy_file [OF _ old] by (auto simp: tree_def dest: fun_cong [where x = "[]"])
  then show ?thesis unfolding run by simp
qed

end
