(* ===== verification/Progress.thy ===== *)
theory Progress
  imports Delivery
begin

text \<open>
  When no call fails: the calls of a request succeed one after the other, so that a request the guard
  lets through, with a complete payload that fits, is served.
\<close>

subsection \<open>Temporary directories\<close>

lemma decimal_inj: "decimal a = decimal b \<Longrightarrow> a = b"
proof (induction a arbitrary: b rule: decimal.induct)
  case (1 a)
  have digit: "x = y" if "x < 10" "y < 10" "(char_of (48 + x) :: char) = char_of (48 + y)" for x y :: nat
  proof -
    have "(of_char (char_of (48 + x) :: char) :: nat) = of_char (char_of (48 + y) :: char)" using that(3) by simp
    then show ?thesis using that(1,2) by (simp add: of_char_of)
  qed
  have ne: "decimal n \<noteq> []" for n by (subst decimal.simps) simp
  show ?case
  proof (cases "a < 10")
    case True
    then have "b < 10" using 1(2) ne [of "b div 10"] by (cases "b < 10") (simp_all add: decimal.simps [of a] decimal.simps [of b])
    then show ?thesis using True 1(2) digit [of a b] by (simp add: decimal.simps [of a] decimal.simps [of b])
  next
    case False
    then have b: "\<not> b < 10" using 1(2) ne [of "a div 10"] by (cases "b < 10") (simp_all add: decimal.simps [of a] decimal.simps [of b])
    then have "a div 10 = b div 10" "a mod 10 = b mod 10"
      using False 1 digit [of "a mod 10" "b mod 10"] by (simp_all add: decimal.simps [of a] decimal.simps [of b])
    then show ?thesis by (metis div_mult_mod_eq)
  qed
qed

lemma fresh_name_some: "fresh_name fs base pre \<noteq> None"
proof
  assume "fresh_name fs base pre = None"
  then have used: "get fs (base @ [pre @ decimal n]) \<noteq> None" if "n \<le> length fs" for n
    using that by (auto simp: fresh_name_def find_None_iff simp del: upt_Suc split: option.splits)
  let ?f = "\<lambda>n. base @ [pre @ decimal n]"
  have "?f ` {0..length fs} \<subseteq> fst ` set fs"
    using used by (auto simp: get_def map_of_eq_None_iff)
  then have "card (?f ` {0..length fs}) \<le> card (fst ` set fs)" by (simp add: card_mono)
  moreover have "card (?f ` {0..length fs}) = Suc (length fs)"
    by (subst card_image) (auto intro!: inj_onI decimal_inj)
  moreover have "card (fst ` set fs) \<le> length fs"
    using card_length [of "map fst fs"] by simp
  ultimately show False by simp
qed

lemma mkdir_temp_quiet:
  assumes "os_sched w = []" "is_dir (get (os_fs w) (path_comps base))"
  shows "\<exists>d w'. os_mkdir_temp base pre w = (Inr d, w') \<and> os_sched w' = []"
  using assms fresh_name_some [of "os_fs w" "path_comps base" pre]
  by (auto simp: os_mkdir_temp_def env_step_def Let_def)

subsection \<open>Directories, renames, and the index file\<close>

text \<open>Nothing but directories above a path, as far as there is anything.\<close>

definition clear_way :: "path \<Rightarrow> fs \<Rightarrow> bool" where
  "clear_way p fs \<longleftrightarrow> list_all (\<lambda>i. get fs (take i p) = None \<or> is_dir (get fs (take i p))) [0..<length p]"

lemma mk_dirs_ok:
  "\<forall>q \<in> set ps. get fs q = None \<or> is_dir (get fs q) \<Longrightarrow> fst (mk_dirs t ps fs) = None"
proof (induction t ps fs rule: mk_dirs.induct)
  case (2 t p ps fs)
  show ?case
  proof (cases "get fs p")
    case None
    then have "\<forall>q \<in> set ps. get (touch p t (put p (Dir t) fs)) q = None \<or> is_dir (get (touch p t (put p (Dir t) fs)) q)"
      using "2.prems" by (auto simp: get_touch get_put)
    then show ?thesis using 2(1) None by simp
  next
    case (Some n)
    then show ?thesis using 2 by (cases n) auto
  qed
qed simp

lemma mkdir_all_quiet:
  assumes "os_sched w = []" "path_comps s = p" "clear_way (p @ [c]) (os_fs w)"
  shows "\<exists>w'. os_mkdir_all s w = (Inr (), w') \<and> os_sched w' = []"
proof -
  let ?ps = "map (\<lambda>i. take (Suc i) p) [0..<length p]"
  have "get (os_fs w) (take i p) = None \<or> is_dir (get (os_fs w) (take i p))" if "i \<le> length p" for i
    using assms(3) that by (cases "i = length p") (auto simp: clear_way_def list_all_iff dest!: bspec [of _ _ i])
  then have "fst (mk_dirs (os_now w) ?ps (os_fs w)) = None" by (intro mk_dirs_ok) auto
  then show ?thesis
    using assms(1,2) by (cases "mk_dirs (os_now w) ?ps (os_fs w)") (simp add: os_mkdir_all_def env_step_def Let_def)
qed

lemma rename_quiet:
  assumes "os_sched w = []" "path_comps a \<parallel> path_comps b" "get (os_fs w) (path_comps a) \<noteq> None"
    and "get (os_fs w) (path_comps b) = None" "is_dir (get (os_fs w) (butlast (path_comps b)))"
  shows "\<exists>w'. os_rename a b w = (Inr (), w') \<and> os_sched w' = []"
  using assms by (auto simp: os_rename_def env_step_def Let_def parallel_def)

text \<open>The index can be written: its directory is there and neither it nor its temporary is a directory.\<close>

definition index_writable :: "index \<Rightarrow> fs \<Rightarrow> bool" where
  "index_writable ix fs \<longleftrightarrow> is_dir (get fs (butlast (path_comps (ix_path ix)))) \<and>
     \<not> is_dir (get fs (path_comps (ix_path ix))) \<and> \<not> is_dir (get fs (path_comps (tmp_of (ix_path ix))))"

lemma index_save_writes:
  assumes "os_sched w = []" "good_file (ix_path ix)" "index_writable ix (os_fs w)" "enc (ix_entries ix) = Inr b"
  shows "\<exists>w'. index_save enc ix w = (Inr (), w') \<and> os_sched w' = [] \<and> index_writable ix (os_fs w')"
proof -
  obtain d n where c: "path_comps (ix_path ix) = d @ [n]" "path_comps (tmp_of (ix_path ix)) = d @ [n @ ''.tmp'']"
    by (rule good_file_comps [OF assms(2)])
  let ?f = "put (d @ [n @ ''.tmp'']) (File b (os_now w) False) (os_fs w)"
  have w: "is_dir (get (os_fs w) d)" "\<not> is_dir (get (os_fs w) (d @ [n]))" "\<not> is_dir (get (os_fs w) (d @ [n @ ''.tmp'']))"
    using assms(3) c by (simp_all add: index_writable_def)
  have f: "get ?f (d @ [n @ ''.tmp'']) = Some (File b (os_now w) False)" "is_dir (get ?f d)" "\<not> is_dir (get ?f (d @ [n]))"
    using w by (auto simp: get_put)
  have 1: "os_write_file (tmp_of (ix_path ix)) b w = (Inr (), w\<lparr>os_fs := ?f\<rparr>)"
    using assms(1) w c by (simp add: os_write_file_def env_step_def Let_def)
  have np: "\<not> prefix (d @ [n @ ''.tmp'']) (d @ [n])" "\<not> prefix (d @ [n]) (d @ [n @ ''.tmp''])" "d @ [n @ ''.tmp''] \<noteq> d @ [n]"
    by simp_all
  let ?g = "touch (d @ [n @ ''.tmp'']) (os_now w) (touch (d @ [n]) (os_now w) (move (d @ [n @ ''.tmp'']) (d @ [n]) ?f))"
  have 2: "os_rename (tmp_of (ix_path ix)) (ix_path ix) (w\<lparr>os_fs := ?f\<rparr>) = (Inr (), w\<lparr>os_fs := ?g\<rparr>)"
    using assms(1) c f np by (simp add: os_rename_def env_step_def Let_def)
  have "index_writable ix ?g"
    using f c np w by (auto simp: index_writable_def get_touch get_move get_put)
  then show ?thesis using 1 2 assms(1,4) by (simp add: index_save_def Let_def)
qed

lemma writable_frame:
  assumes "index_apart m" "index_writable (mir_idx m) (os_fs w)" "frame (below_any D) w w'"
    and "\<And>d. d \<in> D \<Longrightarrow> prefix (path_comps (mir_root m)) d"
  shows "index_writable (mir_idx m) (os_fs w')"
proof -
  let ?i = "path_comps (ix_path (mir_idx m))" and ?t = "path_comps (tmp_of (ix_path (mir_idx m)))"
  have "\<not> prefix (path_comps (mir_root m)) ?i" "\<not> prefix (path_comps (mir_root m)) ?t"
    using assms(1) by (simp_all add: index_apart_def parallel_def)
  then have out: "\<not> below_any D ?i" "\<not> below_any D ?t" "\<not> below_any D (butlast ?i)"
    using assms(4) prefixeq_butlast [of ?i] by (meson below_any_def prefix_order.trans)+
  then show ?thesis
    using assms(2,3) by (auto simp: index_writable_def frame_def same_node_def)
qed

subsection \<open>The swap\<close>

text \<open>A work area whose unused names have nothing below them, as in a well-formed tree.\<close>

definition fresh_ok :: "path \<Rightarrow> fs \<Rightarrow> bool" where
  "fresh_ok B fs \<longleftrightarrow> (\<forall>c x. get fs (B @ [c]) = None \<longrightarrow> get fs (B @ c # x) = None)"

lemma fresh_ok_nested: "nested B fs \<Longrightarrow> fresh_ok B fs"
  using nested_below by (simp add: fresh_ok_def)

lemma swap_in_works:
  assumes q: "os_sched w = []" and slot: "slot_of m l k" and nm: "plain nm"
    and way: "clear_way (slot_comps m k) (os_fs w)" and base: "is_dir (get (os_fs w) (base_comps m))"
    and staged: "get (os_fs w) (base_comps m @ [nm, payload_name]) \<noteq> None" and fresh: "fresh_ok (base_comps m) (os_fs w)"
  shows "\<exists>w'. swap_in (staging_base m) (staged_path m nm) (m_abs m k) w = (Inr (), w') \<and> os_sched w' = []"
proof -
  let ?D = "slot_comps m k" and ?B = "base_comps m" and ?S = "base_comps m @ [nm, payload_name]"
  have g: "good_root (mir_root m)" using slot by (simp add: slot_of_def)
  obtain cs where cs: "?D = path_comps (mir_root m) @ l # cs" "cs \<noteq> []" "path_comps (path_dir (m_abs m k)) = butlast ?D" "?D \<parallel> ?B"
    by (rule slot_of_comps [OF slot])
  have D: "butlast ?D @ [last ?D] = ?D" "butlast ?D \<noteq> []" using cs(1,2) by (simp_all add: butlast_append)
  have DS: "?D \<parallel> ?S" using cs(4) by (rule parallel_below)
  have S: "path_comps (staged_path m nm) = ?S" by (rule staged_comps [OF g nm])
  have dst: "path_comps (m_abs m k) = ?D" by (simp add: slot_comps_def)
  obtain w1 where 1: "os_mkdir_all (path_dir (m_abs m k)) w = (Inr (), w1)" and q1: "os_sched w1 = []"
    using mkdir_all_quiet [OF q cs(3), of "last ?D"] way D(1) by auto
  have "upward (butlast ?D) w1" using mkdir_all_upward [OF 1] cs(3) by simp
  then have dir1: "is_dir (get (os_fs w1) (butlast ?D))"
    using D(2) by (auto simp: upward_def dest!: spec [of _ "length (butlast ?D)"])
  have par: "\<not> prefix (?B @ x) (butlast ?D)" for x
    using cs(4) prefixeq_butlast [of ?D] by (meson append_prefixD parallel_def prefix_order.trans)
  have same: "get (os_fs w1) (?B @ x) = get (os_fs w) (?B @ x)" for x
  proof -
    have "subtree (?B @ x) (os_fs w1) = subtree (?B @ x) (os_fs w)" using mkdir_all_subtree [OF _ 1] par cs(3) by simp
    from tree_subtree [OF this] show ?thesis by (auto simp: tree_def dest: fun_cong [where x = "[]"])
  qed
  have there: "get (os_fs w1) ?S \<noteq> None" using same [of "[nm, payload_name]"] staged by simp
  have stat: "os_stat (m_abs m k) w1 = ((case get (os_fs w1) ?D of None \<Rightarrow> Inl NotExist | Some n \<Rightarrow> Inr n), w1)"
    using q1 by (simp add: os_stat_def env_step_def dst split: option.split)
  show ?thesis
  proof (cases "get (os_fs w1) ?D")
    case None
    have "\<exists>w'. os_rename (staged_path m nm) (m_abs m k) w1 = (Inr (), w') \<and> os_sched w' = []"
      by (rule rename_quiet [OF q1]) (use S dst DS there None dir1 parallel_sym in auto)
    then show ?thesis using 1 stat None by (simp add: swap_in_def)
  next
    case (Some n)
    have "is_dir (get (os_fs w1) (path_comps (staging_base m)))" using same [of "[]"] base base_comps [OF g] by simp
    from mkdir_temp_quiet [OF q1 this, of "''old-''"] obtain aside w2 where
      2: "os_mkdir_temp (staging_base m) ''old-'' w1 = (Inr aside, w2)" and q2: "os_sched w2 = []" by blast
    from mkdir_temp_result [OF 2] obtain i where
      i: "aside = path_join [staging_base m, ''old-'' @ decimal i]" "get (os_fs w1) (?B @ [''old-'' @ decimal i]) = None"
        "is_dir (get (os_fs w2) (?B @ [''old-'' @ decimal i]))"
      and keep: "\<And>p. \<not> prefix p (?B @ [''old-'' @ decimal i]) \<Longrightarrow> subtree p (os_fs w2) = subtree p (os_fs w1)"
      by (auto simp: Let_def base_comps [OF g])
    let ?am = "''old-'' @ decimal i" and ?old = "path_join [aside, payload_name]"
    let ?O = "?B @ [?am, payload_name]"
    have A: "path_comps aside = ?B @ [?am]" "good_root aside"
      unfolding i(1) using join1_comps [OF base_good [OF g] plain_names(3)] join1_good [OF base_good [OF g] plain_names(3)]
        base_comps [OF g] by simp_all
    have O: "path_comps ?old = ?O" using join1_comps [OF A(2) plain_names(2)] A(1) by simp
    have same2: "get (os_fs w2) p = get (os_fs w1) p" if "\<not> prefix p (?B @ [?am])" for p
      using tree_subtree [OF keep [OF that]] by (auto simp: tree_def dest: fun_cong [where x = "[]"])
    have DA: "?D \<parallel> ?B @ [?am]" "?D \<parallel> ?O" using cs(4) by (simp_all add: parallel_below)
    have am: "?am \<noteq> nm"
      using i(2) same [of "[?am]"] fresh staged by (auto simp: fresh_ok_def)
    have O2: "get (os_fs w2) ?O = None"
      using same2 [of ?O] same [of "[?am, payload_name]"] same [of "[?am]"] i(2) fresh by (simp add: fresh_ok_def)
    have D2: "get (os_fs w2) ?D = Some n" using same2 [of ?D] DA(1) Some by (simp add: parallel_def)
    have S2: "get (os_fs w2) ?S \<noteq> None" using same2 [of ?S] there by simp
    have "frame (strict_prefix ?B) w1 w2"
      using mkdir_temp_frame [of "strict_prefix ?B" "staging_base m" w1 "''old-''"] 2 base_comps [OF g] by (simp add: strict_prefix_def)
    moreover have "\<not> strict_prefix ?B (butlast ?D)" using par [of "[]"] by (simp add: strict_prefix_def)
    ultimately have dir2: "is_dir (get (os_fs w2) (butlast ?D))" using dir1 by (simp add: frame_def same_node_def)
    obtain w3 where 3: "os_rename (m_abs m k) ?old w2 = (Inr (), w3)" and q3: "os_sched w3 = []"
      using rename_quiet [of w2 "m_abs m k" ?old] q2 dst O DA(2) D2 O2 i(3) by (auto simp: butlast_append)
    note t3 = rename_trees [OF 3, unfolded dst O, OF DA(2)]
    have SO: "?S \<parallel> ?D" "?S \<parallel> ?O" using parallel_sym [OF DS] am by (auto simp: parallel_def)
    have S3: "get (os_fs w3) ?S \<noteq> None"
      using t3 SO tree_subtree [of ?S "os_fs w3" "os_fs w2"] S2 by (auto simp: tree_def dest: fun_cong [where x = "[]"])
    have D3: "get (os_fs w3) ?D = None" using t3 by (auto simp: tree_def dest: fun_cong [where x = "[]"])
    have "frame (below_any {?D, ?O}) w2 w3"
      using below.rename_frame [of "{?D, ?O}" "m_abs m k" ?old w2] 3 dst O by (simp add: below_any_def)
    moreover have "\<not> prefix ?D (butlast ?D)"
      using prefix_length_le [of ?D "butlast ?D"] arg_cong [OF D(1), of length] by auto
    then have "\<not> below_any {?D, ?O} (butlast ?D)" using par [of "[?am, payload_name]"] by (simp add: below_any_def)
    ultimately have dir3: "is_dir (get (os_fs w3) (butlast ?D))" using dir2 by (simp add: frame_def same_node_def)
    obtain w4 where 4: "os_rename (staged_path m nm) (m_abs m k) w3 = (Inr (), w4)" and q4: "os_sched w4 = []"
      using rename_quiet [of w3 "staged_path m nm" "m_abs m k"] q3 dst S SO(1) S3 D3 dir3 by auto
    have "os_sched (snd (os_remove_all (path_dir ?old) w4)) = []"
      using quiet_calls(5) [OF q4 surjective_pairing] .
    then show ?thesis using 1 stat Some 2 3 4 by (simp add: swap_in_def exchange_def Let_def)
  qed
qed

subsection \<open>Promote\<close>

lemma promote_works:
  assumes q: "os_sched w = []" and slot: "slot_of m l k" and nm: "plain nm" and apart: "index_apart m"
    and way: "clear_way (slot_comps m k) (os_fs w)" and base: "is_dir (get (os_fs w) (base_comps m))"
    and staged: "get (os_fs w) (base_comps m @ [nm, payload_name]) \<noteq> None" and fresh: "fresh_ok (base_comps m) (os_fs w)"
    and anch: "anchored (below_any {label_comps m l, base_comps m}) w"
    and ix: "index_writable (mir_idx m) (os_fs w)" and enc: "\<forall>es. \<exists>b. enc es = Inr b"
  shows "\<exists>m' w'. promote enc m (staged_path m nm) k dir w = (Inr (), m', w') \<and> os_sched w' = []"
proof -
  let ?ix = "mir_idx m" and ?D = "{label_comps m l, base_comps m}"
  obtain w1 where 1: "swap_in (staging_base m) (staged_path m nm) (m_abs m k) w = (Inr (), w1)" and q1: "os_sched w1 = []"
    using swap_in_works [OF q slot nm way base staged fresh] by blast
  have gf: "good_file (ix_path ?ix)" using apart by (simp add: index_apart_def)
  have f1: "frame (below_any ?D) w w1"
    by (rule swap_in_below [OF slot _ _ anch nm 1]) (auto simp: below_any_def)
  have "index_writable ?ix (os_fs w1)" by (rule writable_frame [OF apart ix f1]) (auto simp: label_comps_def base_comps_def)
  moreover obtain sz t w2 where 2: "sync_stamp (m_abs m k) dir w1 = ((sz, t), w2)" by (metis prod.collapse)
  note q2 = index_ops_quiet(3) [OF q1 2]
  ultimately have ix2: "index_writable ?ix (os_fs w2)" using sync_stamp_fs [OF 2] by simp
  let ?P = "if dir then (\<lambda>k' _. below k k') else (\<lambda>k' e. ent_dir e \<and> below k' k)"
  obtain u ix1 w3 where 3: "ix_drop enc ?P ?ix w2 = (u, ix1, w3)" by (metis prod_cases3)
  note ix1 = ix_drop_result [OF 3] and q3 = index_ops_quiet(2) [OF q2 3]
  obtain b where "enc (ix_entries (drop_entries ?P ?ix)) = Inr b" using enc by blast
  then have "index_writable ?ix (os_fs w3)"
    using 3 ix2 index_save_writes [OF q2, of "drop_entries ?P ?ix" enc] gf
    by (auto simp: ix_drop_def Let_def index_writable_def split: if_splits prod.splits)
  then have ix3: "index_writable ix1 (os_fs w3)" by (simp add: ix1 index_writable_def)
  have tn: "time_now w3 = (os_now w3, w3)" using q3 by (simp add: time_now_def env_step_def)
  let ?e = "\<lparr>ent_rel = k, ent_dir = dir, ent_size = sz, ent_sync_mod = t, ent_last_sync = os_now w3, ent_last_used = os_now w3\<rparr>"
  obtain b where "enc (ix_entries (put_entry k ?e ix1)) = Inr b" using enc by blast
  then obtain w4 where "index_save enc (put_entry k ?e ix1) w3 = (Inr (), w4)" "os_sched w4 = []"
    using index_save_writes [OF q3, of "put_entry k ?e ix1" enc] gf ix1 ix3 by (auto simp: index_writable_def)
  then have "ix_record enc k dir sz t ix1 w3 = (Inr (), put_entry k ?e ix1, w4)"
    using tn by (simp add: ix_record_def Let_def)
  moreover have "(if dir then delete_descendants_of enc k ?ix w2 else delete_ancestor_dirs_of enc k ?ix w2) = (u, ix1, w3)"
    using 3 by (cases dir) (simp_all add: delete_descendants_of_def delete_ancestor_dirs_of_def)
  ultimately show ?thesis
    using 1 2 \<open>os_sched w4 = []\<close> by (simp add: promote_def)
qed

subsection \<open>Staging and the transfer\<close>

lemma clear_way_frame:
  assumes "clear_way p (os_fs w)" "frame R w w'" "\<And>i. i < length p \<Longrightarrow> \<not> R (take i p)"
  shows "clear_way p (os_fs w')"
  using assms by (auto simp: clear_way_def list_all_iff frame_def same_node_def)

lemma staging_works:
  assumes q: "os_sched w = []" and g: "good_root (mir_root m)" and n: "nested (base_comps m) (os_fs w)"
    and base: "get (os_fs w) (base_comps m) = None \<or> is_dir (get (os_fs w) (base_comps m))"
    and anch: "anchored (below_any {base_comps m}) w"
  shows "\<exists>nm w'. staging_dir m w = (Inr (path_join [staging_base m, nm]), w') \<and> plain nm \<and> os_sched w' = [] \<and>
    vacant (path_comps (staged_path m nm)) w' \<and> fresh_ok (base_comps m) (os_fs w') \<and>
    is_dir (get (os_fs w') (base_comps m)) \<and> is_dir (get (os_fs w') (base_comps m @ [nm]))"
proof -
  let ?B = "base_comps m"
  have B: "path_comps (staging_base m) = ?B" "?B \<noteq> []" by (simp_all add: base_comps [OF g]) (simp add: base_comps_def)
  have dirs: "is_dir (get (os_fs w) (take i ?B))" if "i < length ?B" for i
  proof -
    have "\<not> prefix ?B (take i ?B)" using that prefix_length_le [of ?B "take i ?B"] by auto
    then show ?thesis
      using anch [unfolded anchored_def, rule_format, of ?B "take i ?B"] by (simp add: below_any_def take_is_prefix)
  qed
  then have "clear_way (?B @ [c]) (os_fs w)" for c using base by (auto simp: clear_way_def list_all_iff nth_append less_Suc_eq)
  then obtain w1 where 1: "os_mkdir_all (staging_base m) w = (Inr (), w1)" and q1: "os_sched w1 = []"
    using mkdir_all_quiet [OF q B(1)] by blast
  have "is_dir (get (os_fs w1) ?B)"
    using mkdir_all_upward [OF 1] B by (auto simp: upward_def dest!: spec [of _ "length ?B"])
  then obtain d w2 where 2: "os_mkdir_temp (staging_base m) ''req-'' w1 = (Inr d, w2)" and q2: "os_sched w2 = []"
    using mkdir_temp_quiet [OF q1] B(1) by metis
  from mkdir_temp_result [OF 2] obtain i where
    i: "d = path_join [staging_base m, ''req-'' @ decimal i]" "is_dir (get (os_fs w2) (?B @ [''req-'' @ decimal i]))"
    and keep: "\<And>p. \<not> prefix p (?B @ [''req-'' @ decimal i]) \<Longrightarrow> subtree p (os_fs w2) = subtree p (os_fs w1)"
    by (auto simp: Let_def B(1))
  let ?nm = "''req-'' @ decimal i"
  have st: "staging_dir m w = (Inr (path_join [staging_base m, ?nm]), w2)"
    using 1 2 i(1) by (simp add: staging_dir_def)
  note v = staging_vacant [OF g plain_names(4) st n]
  have same: "get (os_fs w2) (?B @ c # x) = get (os_fs w) (?B @ c # x)" if "c \<noteq> ?nm" for c x
  proof -
    have "\<not> prefix (?B @ c # x) ?B" using prefix_length_le [of "?B @ c # x" ?B] by auto
    then have "subtree (?B @ c # x) (os_fs w2) = subtree (?B @ c # x) (os_fs w)"
      using keep [of "?B @ c # x"] that mkdir_all_subtree [OF _ 1, of "?B @ c # x"] B(1) by simp
    from tree_subtree [OF this] show ?thesis by (auto simp: tree_def dest: fun_cong [where x = "[]"])
  qed
  have "fresh_ok ?B (os_fs w2)"
    unfolding fresh_ok_def
  proof (intro allI impI)
    fix c x assume none: "get (os_fs w2) (?B @ [c]) = None"
    then have c: "c \<noteq> ?nm" using i(2) by auto
    then show "get (os_fs w2) (?B @ c # x) = None" using same none nested_below [OF n] by simp
  qed
  moreover have "is_dir (get (os_fs w2) ?B)"
  proof -
    have "length ?B \<in> set [1..<length (path_comps (staged_path m ?nm))]"
      using B(2) unfolding staged_comps [OF g plain_names(4)] by (simp add: Suc_le_eq)
    then show ?thesis using v unfolding vacant_def list_all_iff staged_comps [OF g plain_names(4)] by fastforce
  qed
  ultimately show ?thesis using st v q2 i(2) plain_names(4) by blast
qed

text \<open>A file's content is there to be had: complete and within the limit.\<close>

definition file_on_offer :: "services \<Rightarrow> server \<Rightarrow> tunnel \<Rightarrow> request \<Rightarrow> bytes \<Rightarrow> bytes \<Rightarrow> bool" where
  "file_on_offer sv s t r rest d \<longleftrightarrow> int (length d) \<le> c_max_payload (sv_cfg s) \<and>
     (if req_mode r = mode_inline then inline_allowed (sv_cfg s) \<and> (\<exists>wire tl. rest = wire @ tl \<and> framed 0 wire d)
      else \<exists>cmd. se_ssh sv (ssh_bin t) (exec_argv (windows sv) t (control_dir (sv_cfg s)) (remote_command r)) = Inr cmd \<and>
        sr_wait cmd False = None \<and> d = rd_rest (sr_out cmd))"

lemma fetch_works:
  assumes q: "os_sched w = []" and r: "\<not> req_dir r" "req_mode r \<in> {mode_inline, mode_pull}"
    and cap: "0 \<le> c_max_payload (sv_cfg s)" "c_max_payload (sv_cfg s) \<le> max_i64 - int max_chunk_bytes"
    and v: "get (os_fs w) (path_comps sp) = None" "is_dir (get (os_fs w) (butlast (path_comps sp)))" and offer: "file_on_offer sv s t r (rd_rest rd) d"
  shows "\<exists>w'. fetch sv s t r rd sp w = (None, w') \<and> holds sp d w' \<and> os_sched w' = []"
proof -
  obtain w1 where c: "os_create_excl sp False w = (Inr (), w1)"
    using q v by (simp add: os_create_excl_def env_step_def Let_def)
  show ?thesis
  proof (cases "req_mode r = mode_inline")
    case True
    then obtain wire tl where o: "inline_allowed (sv_cfg s)" "rd_rest rd = wire @ tl" "framed 0 wire d" "int (length d) \<le> c_max_payload (sv_cfg s)"
      using offer by (auto simp: file_on_offer_def)
    let ?cr = "new_chunk_reader rd (c_max_payload (sv_cfg s))"
    obtain cr' where "cr_drain (se_buffer sv) ?cr = ((d, None), cr')"
      using drain_framed [of ?cr wire d tl "se_buffer sv", OF cr_inv_new [OF cap]] o by (auto simp: new_chunk_reader_def)
    from receive_file_quiet [OF r(1) q c this, of "se_untar sv"] show ?thesis
      using True o(1) by (auto simp: fetch_def Let_def)
  next
    case False
    then obtain cmd where o: "se_ssh sv (ssh_bin t) (exec_argv (windows sv) t (control_dir (sv_cfg s)) (remote_command r)) = Inr cmd"
        "sr_wait cmd False = None" "d = rd_rest (sr_out cmd)" "int (length d) \<le> c_max_payload (sv_cfg s)"
      using offer by (auto simp: file_on_offer_def)
    have n: "i64 (c_max_payload (sv_cfg s) + 1) = c_max_payload (sv_cfg s) + 1"
      using cap by (intro i64_id) (simp add: in_i64_def min_i64_def max_chunk_bytes_def)
    from pull_file_quiet [where ssh = "se_ssh sv" and t = t and windows = "windows sv" and ctl = "control_dir (sv_cfg s)"
        and cmd = cmd, OF r(1) q c o(1), of "se_buffer sv" "se_untar sv" "c_max_payload (sv_cfg s)"] show ?thesis
      using False r(2) o(2-4) cap(1) by (auto simp: fetch_def Let_def n mode_inline_def mode_pull_def)
  qed
qed

subsection \<open>The whole request\<close>

text \<open>
  A request that the guard lets through can be served: no call is going to fail, there is room for it
  (no file is in the way of a directory, the index can be written, the work area is well formed), the
  index can be encoded, the application opens, and the client still listens.
\<close>

definition servable :: "services \<Rightarrow> server \<Rightarrow> tunnel \<Rightarrow> request \<Rightarrow> string \<Rightarrow> writer \<Rightarrow> os \<Rightarrow> bool" where
  "servable sv s t r k wr w \<longleftrightarrow> admit s t r = None \<and> os_sched w = [] \<and> wr_left wr = None \<and>
     fst (check_overwrite (sv_mir s) k (req_force r) w) = Inr () \<and>
     clear_way (slot_comps (sv_mir s) k) (os_fs w) \<and>
     (get (os_fs w) (base_comps (sv_mir s)) = None \<or> is_dir (get (os_fs w) (base_comps (sv_mir s)))) \<and>
     nested (base_comps (sv_mir s)) (os_fs w) \<and> index_writable (mir_idx (sv_mir s)) (os_fs w) \<and>
     (\<forall>es. \<exists>b. se_index sv es = Inr b) \<and>
     (\<forall>u. fst (open_target (se_desktop sv) (sv_open_command s) r (m_abs (sv_mir s) k) u) = None)"

lemma anchored_root:
  assumes "index_apart m" "anchored (below_any (work_dirs m)) w" "\<forall>d \<in> D. d = label_comps m l \<or> d = base_comps m"
  shows "anchored (below_any D) w"
  unfolding anchored_def
proof (intro allI impI)
  fix p q assume p: "below_any D p" "prefix q p" "\<not> below_any D q"
  let ?R = "path_comps (mir_root m)"
  obtain d where d: "d \<in> D" "prefix d p" using p(1) by (auto simp: below_any_def)
  have "\<not> prefix d q" using p(3) d(1) by (auto simp: below_any_def)
  then have "prefix q d" "q \<noteq> d" using prefix_same_cases [OF p(2) d(2)] by auto
  then have qR: "prefix q ?R" using assms(3) d(1) by (auto simp: label_comps_def base_comps_def)
  have "\<not> prefix (base_comps m) q" using qR by (auto simp: base_comps_def prefix_def)
  moreover have "\<not> prefix (path_comps (ix_path (mir_idx m))) q" "\<not> prefix (path_comps (tmp_of (ix_path (mir_idx m)))) q"
    using assms(1) qR by (auto simp: index_apart_def parallel_def intro: prefix_order.trans)
  ultimately have "\<not> below_any (work_dirs m) q" by (auto simp: below_any_def work_dirs_def)
  moreover have "below_any (work_dirs m) (base_comps m)" "prefix q (base_comps m)"
    using qR by (auto simp: below_any_def work_dirs_def base_comps_def)
  ultimately show "is_dir (get (os_fs w) q)" using assms(2) unfolding anchored_def by blast
qed

lemma deliver_works:
  assumes q: "os_sched w = []" and slot: "slot_of (sv_mir s) l k" and nm: "plain nm" and apart: "index_apart (sv_mir s)"
    and way: "clear_way (slot_comps (sv_mir s) k) (os_fs w)"
    and base: "is_dir (get (os_fs w) (base_comps (sv_mir s)))" "is_dir (get (os_fs w) (base_comps (sv_mir s) @ [nm]))"
    and v: "vacant (path_comps (staged_path (sv_mir s) nm)) w" and fresh: "fresh_ok (base_comps (sv_mir s)) (os_fs w)"
    and anch: "anchored (below_any {label_comps (sv_mir s) l, base_comps (sv_mir s)}) w"
    and ix: "index_writable (mir_idx (sv_mir s)) (os_fs w)" and enc: "\<forall>es. \<exists>b. se_index sv es = Inr b"
    and opens: "\<forall>u. fst (open_target (se_desktop sv) (sv_open_command s) r (m_abs (sv_mir s) k) u) = None"
    and r: "\<not> req_dir r" "req_mode r \<in> {mode_inline, mode_pull}"
    and cap: "0 \<le> c_max_payload (sv_cfg s)" "c_max_payload (sv_cfg s) \<le> max_i64 - int max_chunk_bytes"
    and offer: "file_on_offer sv s t r (rd_rest rd) d"
  shows "fst (deliver sv s t r k rd (path_join [staging_base (sv_mir s), nm]) wr w) = say sv done_ok wr"
proof -
  let ?m = "sv_mir s" and ?sp = "staged_path (sv_mir s) nm" and ?B = "base_comps (sv_mir s)"
  have g: "good_root (mir_root ?m)" using slot by (simp add: slot_of_def)
  note S = staged_comps [OF g nm]
  have none: "get (os_fs w) (path_comps ?sp) = None" by (rule vacantE [OF v]) (metis append_Nil2)
  obtain w1 where 1: "fetch sv s t r rd ?sp w = (None, w1)" and h: "holds ?sp d w1" and q1: "os_sched w1 = []"
    using fetch_works [OF q r cap none _ offer] base(2) S by (auto simp: butlast_append)
  have a: "anchored (below_any {?B @ [nm]}) w"
  proof (rule anchored_below)
    fix i assume i: "i < length (?B @ [nm])"
    show "is_dir (get (os_fs w) (take i (?B @ [nm])))"
    proof (cases "i = length ?B")
      case True
      then show ?thesis using base(1) by simp
    next
      case False
      then have R: "prefix (take i (?B @ [nm])) (path_comps (mir_root ?m))" (is "prefix ?q ?R")
        using i by (simp add: base_comps_def take_is_prefix less_Suc_eq_le)
      have "\<not> prefix (?R @ [c]) ?q" for c
        using prefix_length_le [OF R] prefix_length_le [of "?R @ [c]" ?q] by auto
      then have "\<not> below_any {label_comps ?m l, ?B} ?q"
        by (auto simp: below_any_def base_comps_def label_comps_def)
      moreover have "below_any {label_comps ?m l, ?B} ?B" "prefix ?q ?B"
        using R by (auto simp: below_any_def base_comps_def)
      ultimately show ?thesis using anch unfolding anchored_def by blast
    qed
  qed
  have "inside {?B} ?sp" by (rule staged_inside(2) [OF g nm]) (simp add: below_any_def)
  then have ins: "inside {?B @ [nm]} ?sp" using S by (simp add: inside_def below_any_def)
  have f: "frame (below_any {?B @ [nm]}) w w1"
    by (rule fetch_frame [OF staged_inside(1) [OF g nm] ins a cap(1) 1]) (auto simp: below_any_def)
  have DB: "slot_comps ?m k \<parallel> ?B @ [nm]" by (rule slot_of_comps [OF slot]) (rule parallel_below)
  have way1: "clear_way (slot_comps ?m k) (os_fs w1)"
  proof (rule clear_way_frame [OF way f])
    fix i show "\<not> below_any {?B @ [nm]} (take i (slot_comps ?m k))"
      using DB take_is_prefix [of i "slot_comps ?m k"] by (auto simp: below_any_def parallel_def dest: prefix_order.trans)
  qed
  have nB: "\<not> below_any {?B @ [nm]} ?B" by (auto simp: below_any_def dest: prefix_length_le)
  then have base1: "is_dir (get (os_fs w1) ?B)" using f base(1) by (simp add: frame_def same_node_def)
  have staged1: "get (os_fs w1) (?B @ [nm, payload_name]) \<noteq> None"
    using h S by (auto simp: holds_def file_data_def split: option.splits)
  have fresh1: "fresh_ok ?B (os_fs w1)"
    unfolding fresh_ok_def
  proof (intro allI impI)
    fix c x assume none1: "get (os_fs w1) (?B @ [c]) = None"
    then have c: "c \<noteq> nm" using fetch_keeps [OF cap(1) 1, of "?B @ [nm]"] base(2) by (auto elim: is_dirE)
    have out: "same_node (get (os_fs w) (?B @ c # y)) (get (os_fs w1) (?B @ c # y))" for y
      using f c by (simp add: frame_def below_any_def)
    have "get (os_fs w) (?B @ [c]) = None" using out [of "[]"] none1 by (auto simp: same_node_def split: if_splits)
    then have "get (os_fs w) (?B @ c # x) = None" using fresh by (simp add: fresh_ok_def)
    then show "get (os_fs w1) (?B @ c # x) = None" using out [of x] by (simp add: same_node_def)
  qed
  have "frame (below_any {label_comps ?m l, ?B}) w w1"
    by (rule frame_mono [OF f]) (auto simp: below_any_def dest: append_prefixD)
  then have anch1: "anchored (below_any {label_comps ?m l, ?B}) w1" using anch by (rule frame_anchored)
  have ix1: "index_writable (mir_idx ?m) (os_fs w1)"
    by (rule writable_frame [OF apart ix f]) (auto simp: base_comps_def)
  obtain m' w2 where 2: "promote (se_index sv) ?m ?sp k (req_dir r) w1 = (Inr (), m', w2)"
    using promote_works [OF q1 slot nm apart way1 base1 staged1 fresh1 anch1 ix1 enc] by blast
  obtain w3 where 3: "open_target (se_desktop sv) (sv_open_command s) r (m_abs ?m k) w2 = (None, w3)"
    using opens by (metis prod.collapse)
  have "m_abs m' = m_abs ?m" using promote_same_files [OF 2] by (simp add: m_abs_def fun_eq_iff)
  then show ?thesis
    using 1 2 3 by (simp add: deliver_def Let_def staged_path_def split: prod.split)
qed

lemma serve_slot_works:
  assumes sb: "servable sv s t r k wr w" and slot: "slot_of (sv_mir s) l k" and apart: "index_apart (sv_mir s)"
    and anch: "anchored (below_any (work_dirs (sv_mir s))) w"
    and r: "\<not> req_dir r" "req_mode r \<in> {mode_inline, mode_pull}"
    and cap: "0 \<le> c_max_payload (sv_cfg s)" "c_max_payload (sv_cfg s) \<le> max_i64 - int max_chunk_bytes"
    and offer: "file_on_offer sv s t r (rd_rest rd) d"
  shows "fst (serve_slot sv s t r k rd wr w) = say sv done_ok (snd (say sv received_event wr))"
proof -
  let ?m = "sv_mir s" and ?B = "base_comps (sv_mir s)"
  have g: "good_root (mir_root ?m)" using slot by (simp add: slot_of_def)
  have sv: "os_sched w = []" "fst (check_overwrite ?m k (req_force r) w) = Inr ()" "clear_way (slot_comps ?m k) (os_fs w)"
    "get (os_fs w) ?B = None \<or> is_dir (get (os_fs w) ?B)" "nested ?B (os_fs w)" "index_writable (mir_idx ?m) (os_fs w)"
    "\<forall>es. \<exists>b. se_index sv es = Inr b"
    "\<forall>u. fst (open_target (se_desktop sv) (sv_open_command s) r (m_abs ?m k) u) = None"
    using sb by (simp_all add: servable_def)
  have "snd (check_overwrite ?m k (req_force r) w) = w"
    by (simp add: check_overwrite_def check_entries_iff [OF sv(1)])
  then have c: "check_overwrite ?m k (req_force r) w = (Inr (), w)" using sv(2) by (simp add: prod_eq_iff)
  have a: "anchored (below_any {?B}) w" "anchored (below_any {label_comps ?m l, ?B}) w"
    by (rule anchored_root [OF apart anch, of _ l]; simp)+
  obtain nm w1 where 1: "staging_dir ?m w = (Inr (path_join [staging_base ?m, nm]), w1)" and nm: "plain nm"
    and q1: "os_sched w1 = []" and v: "vacant (path_comps (staged_path ?m nm)) w1" and fr: "fresh_ok ?B (os_fs w1)"
    and dirs: "is_dir (get (os_fs w1) ?B)" "is_dir (get (os_fs w1) (?B @ [nm]))"
    using staging_works [OF sv(1) g sv(5,4) a(1)] by blast
  have f: "frame (below_any {?B}) w w1" by (rule staging_dir_below [OF g _ a(1) 1]) (simp add: below_any_def)
  have "slot_comps ?m k \<parallel> ?B" by (rule slot_of_comps [OF slot])
  then have way1: "clear_way (slot_comps ?m k) (os_fs w1)"
    using take_is_prefix [of _ "slot_comps ?m k"]
    by (intro clear_way_frame [OF sv(3) f]) (auto simp: below_any_def parallel_def dest: prefix_order.trans)
  have "frame (below_any {label_comps ?m l, ?B}) w w1" by (rule frame_mono [OF f]) (auto simp: below_any_def)
  then have anch1: "anchored (below_any {label_comps ?m l, ?B}) w1" using a(2) by (rule frame_anchored)
  have ix1: "index_writable (mir_idx ?m) (os_fs w1)"
    by (rule writable_frame [OF apart sv(6) f]) (auto simp: base_comps_def)
  obtain out s' w2 where d: "deliver sv s t r k rd (path_join [staging_base ?m, nm]) (snd (say sv received_event wr)) w1 = (out, s', w2)"
    by (metis prod_cases3)
  from deliver_works [OF q1 slot nm apart way1 dirs v fr anch1 ix1 sv(7,8) r cap offer, of "snd (say sv received_event wr)"]
  have "out = say sv done_ok (snd (say sv received_event wr))" using d by simp
  then show ?thesis using d c 1 by (simp add: serve_slot_def Let_def)
qed

lemma handle_works:
  assumes "servable sv s t r k wr w" "good_root (mir_root (sv_mir s))" "index_apart (sv_mir s)"
    and "anchored (below_any (work_dirs (sv_mir s))) w" "\<not> req_dir r"
    and "0 \<le> c_max_payload (sv_cfg s)" "c_max_payload (sv_cfg s) \<le> max_i64 - int max_chunk_bytes"
    and "read_request (se_decode sv) (rd_rest rd) = (Inr r, rest)" "rel (h_label (tn_host t)) (req_path r) = Inr k"
    and "file_on_offer sv s t r rest d"
  shows "fst (handle sv s t rd wr w) =
    (None, wr\<lparr>wr_out := wr_out wr @ se_event sv received_event @ [newline] @ se_event sv done_ok @ [newline]\<rparr>)"
proof -
  have adm: "admit s t r = None" and wr: "wr_left wr = None" using assms(1) by (simp_all add: servable_def)
  note slot = slot_of_request [OF adm assms(9,2)]
  have mode: "req_mode r \<in> {mode_inline, mode_pull}" using adm by (auto simp: admit_None validate_None)
  have l: "org_label (req_origin r) = h_label (tn_host t)" using adm by (simp add: admit_None)
  have "fst (serve_slot sv s t r k (rd\<lparr>rd_rest := rest\<rparr>) wr w) = say sv done_ok (snd (say sv received_event wr))"
    by (rule serve_slot_works [OF assms(1) slot assms(3,4,5) mode assms(6,7)]) (use assms(10) in simp)
  then show ?thesis
    using assms(8,9) adm l wr by (simp add: handle_def say_open line_of_def)
qed

subsection \<open>Property\<close>

text \<open>
  C17: when a file request ends with success, whichever calls failed on the way, the slot holds one file
  with exactly the right bytes: the payload of the complete framed stream the client sent, or the whole
  output of the remote \<open>cat\<close>, which ended well; and never more than the configured limit. And it does
  end with success, answered by \<open>received\<close> and then \<open>done\<close> with \<open>ok\<close>, when it is admitted, the guard
  lets it through, the content is on offer, no call fails and there is room for the file.
\<close>

theorem handle_delivers:
  assumes "good_root (mir_root (sv_mir s))" and "index_apart (sv_mir s)"
    and "0 \<le> c_max_payload (sv_cfg s)" and "c_max_payload (sv_cfg s) \<le> max_i64 - int max_chunk_bytes"
    and "anchored (below_any (work_dirs (sv_mir s))) w"
    and "desktop_keeps (\<lambda>u v. tree (slot_comps (sv_mir s) k) (os_fs v) = tree (slot_comps (sv_mir s) k) (os_fs u)) (se_desktop sv)"
    and "read_request (se_decode sv) (rd_rest rd) = (Inr r, rest)" and "\<not> req_dir r"
    and "rel (h_label (tn_host t)) (req_path r) = Inr k"
    and "handle sv s t rd wr w = ((res, wr'), s', w')"
  shows "(res = None \<longrightarrow>
      (\<exists>d. file_data (os_fs w') (m_abs (sv_mir s) k) = Some d \<and> int (length d) \<le> c_max_payload (sv_cfg s) \<and>
        (if req_mode r = mode_inline then \<exists>wire tl. rest = wire @ tl \<and> framed 0 wire d
         else \<exists>cmd. se_ssh sv (ssh_bin t) (exec_argv (windows sv) t (control_dir (sv_cfg s)) (remote_command r)) = Inr cmd \<and>
           sr_wait cmd False = None \<and> d = rd_rest (sr_out cmd)))) \<and>
    (servable sv s t r k wr w \<and> file_on_offer sv s t r rest d \<longrightarrow>
      res = None \<and> file_data (os_fs w') (m_abs (sv_mir s) k) = Some d \<and>
      wr_out wr' = wr_out wr @ se_event sv received_event @ [newline] @ se_event sv done_ok @ [newline])"
    (is "(_ \<longrightarrow> (\<exists>d. ?content d)) \<and> _")
proof (intro conjI impI)
  assume "res = None"
  then show "\<exists>d. ?content d" using handle_file [OF assms(1-9), of wr wr' s' w'] assms(10) by blast
next
  assume can: "servable sv s t r k wr w \<and> file_on_offer sv s t r rest d"
  then have "fst (handle sv s t rd wr w) =
      (None, wr\<lparr>wr_out := wr_out wr @ se_event sv received_event @ [newline] @ se_event sv done_ok @ [newline]\<rparr>)"
    using handle_works [OF _ assms(1,2,5,8,3,4,7,9)] by blast
  then show res: "res = None"
    and "wr_out wr' = wr_out wr @ se_event sv received_event @ [newline] @ se_event sv done_ok @ [newline]"
    using assms(10) by simp_all
  obtain d' where d': "?content d'" using handle_file [OF assms(1-9), of wr wr' s' w'] assms(10) res by blast
  have "d' = d"
  proof (cases "req_mode r = mode_inline")
    case True
    then obtain wire tl wire' tl' where "rest = wire @ tl" "framed 0 wire d" "rest = wire' @ tl'" "framed 0 wire' d'"
      using d' can by (auto simp: file_on_offer_def)
    then show ?thesis by (metis framed_unique)
  next
    case False
    then show ?thesis using d' can by (auto simp: file_on_offer_def)
  qed
  then show "file_data (os_fs w') (m_abs (sv_mir s) k) = Some d" using d' by simp
qed

lemma demo_servable: "servable (demo_services pulled_request) demo_server demo_tunnel pulled_request ''h/x'' open_writer served_os"
proof -
  have sv: "sv_mir demo_server = demo_mirror" "sv_open_command demo_server = []" by (simp_all add: demo_server_def)
  have "clear_way (slot_comps demo_mirror ''h/x'') (os_fs served_os)" "is_dir (get (os_fs served_os) (base_comps demo_mirror))"
    "nested (base_comps demo_mirror) (os_fs served_os)" "index_writable (mir_idx demo_mirror) (os_fs served_os)"
    by code_simp+
  moreover have "fst (check_overwrite demo_mirror ''h/x'' f served_os) = Inr ()" for f
    by (simp add: check_overwrite_def descendants_def demo_mirror_def)
  moreover have "fst (open_target (se_desktop (demo_services pulled_request)) [] pulled_request p u) = None" for p u
    by (simp add: open_target_def open_platform_def open_darwin_def run_open_def demo_services_def demo_desktop_def)
  ultimately show ?thesis
    using demo_admitted(1) by (simp add: servable_def sv served_os_def open_writer_def demo_services_def)
qed

theorem handle_delivers_witness:
  "case handle (demo_services pulled_request) demo_server demo_tunnel demo_conn open_writer served_os of ((res, wr'), _, w') \<Rightarrow>
     res = None \<and> file_data (os_fs w') ''/m/h/x'' = Some ''data'' \<and>
     wr_out wr' = ''received'' @ [newline] @ ''done'' @ [newline]"
proof -
  obtain res wr' s' w' where run: "handle (demo_services pulled_request) demo_server demo_tunnel demo_conn open_writer served_os =
      ((res, wr'), s', w')" by (metis surj_pair)
  have r: "\<not> req_dir pulled_request" "req_mode pulled_request \<noteq> mode_inline" "req_path pulled_request = req_path demo_request"
    by (simp_all add: pulled_request_def demo_request_def sample_request_def mode_inline_def)
  have rel: "rel (h_label (tn_host demo_tunnel)) (req_path pulled_request) = Inr ''h/x''" using demo_setup(7) r(3) by simp
  have path: "m_abs (sv_mir demo_server) ''h/x'' = ''/m/h/x''"
    by (simp add: m_abs_def mirror_abs_def demo_server_def demo_mirror_def path_join_def path_clean_def path_comps_def slash_def)
  have "file_on_offer (demo_services pulled_request) demo_server demo_tunnel pulled_request demo_stream ''data''"
    using r(2) by (simp add: file_on_offer_def demo_services_def demo_run_def demo_server_def)
  then show ?thesis
    using handle_delivers [OF demo_setup(1-6) demo_read r(1) rel run] demo_servable
    unfolding run path by (simp add: demo_services_def received_event_def done_ok_def open_writer_def)
qed

end
