(* ===== verification/Client.thy ===== *)
theory Client
  imports Tarstream
begin

text \<open>
  The remote command's core, \<open>internal/client/client.go\<close>: the agent configuration, resolving the path,
  dialling with retries, the request, the payload and the wait for the verdict. What the machine
  provides (the home and working directory, links, the host name, the network, JSON and the bytes of
  \<open>archive/tar\<close>) are the fields of \<open>machine\<close>. A connection is what the daemon will send over it and a
  writer. Messages to the terminal are left out.
\<close>

record options =
  lo_agent :: string
  lo_addr :: string
  lo_label :: string
  lo_token :: string
  lo_wait :: bool
  lo_force :: bool
  lo_reveal :: bool
  lo_app :: string
  lo_retry :: int
  lo_max_size :: int

record conn =
  cn_in :: bytes
  cn_out :: writer

text \<open>
  \<open>mc_tar\<close> gives the \<open>Write\<close> calls of \<open>archive/tar\<close> for the members of an archive and whether it was
  closed; \<open>Suc (mc_buffer mc)\<close> is the size of the copy buffer.
\<close>

record machine =
  mc_home :: "string result"
  mc_getwd :: "string result"
  mc_eval_links :: "string \<Rightarrow> os \<Rightarrow> string result \<times> os"
  mc_hostname :: string
  mc_dial :: "string \<Rightarrow> os \<Rightarrow> conn result \<times> os"
  mc_agent :: "bytes \<Rightarrow> agent_config option"
  mc_request :: "request \<Rightarrow> bytes"
  mc_event :: "bytes \<Rightarrow> event option"
  mc_tar :: "member list \<Rightarrow> bool \<Rightarrow> bytes list"
  mc_buffer :: nat

subsection \<open>The agent configuration\<close>

definition default_agent_path :: "machine \<Rightarrow> string" where
  "default_agent_path mc =
     path_join [case mc_home mc of Inl _ \<Rightarrow> [] | Inr h \<Rightarrow> h, ''.lopen'', ''agent.json'']"

definition load_agent :: "machine \<Rightarrow> string \<Rightarrow> os \<Rightarrow> agent_config result \<times> os" where
  "load_agent mc path w =
     (case os_read_file path w of
        (Inl e, w') \<Rightarrow> (Inl (if e = NotExist then NotEnrolled path else e), w')
      | (Inr b, w') \<Rightarrow>
          (case mc_agent mc b of
             None \<Rightarrow> (Inl ConfigError, w')
           | Some a \<Rightarrow>
               if ag_label a = [] \<or> ag_token a = [] then (Inl IncompleteAgent, w')
               else if ag_port a < 1 \<or> 65535 < ag_port a then (Inl (InvalidAgentPort (ag_port a)), w')
               else (Inr a, w')))"

definition loopback :: "int \<Rightarrow> string" where
  "loopback port = ''127.0.0.1:'' @ itoa port"

definition resolve_options :: "machine \<Rightarrow> options \<Rightarrow> os \<Rightarrow> options result \<times> os" where
  "resolve_options mc lo w =
     (if lo_label lo = [] \<or> lo_addr lo = [] \<or> lo_token lo = [] then
        (let path = (if lo_agent lo = [] then default_agent_path mc else lo_agent lo) in
         bind_os (load_agent mc path w) (\<lambda>a w'.
           (Inr (lo\<lparr>lo_label := (if lo_label lo = [] then ag_label a else lo_label lo),
                   lo_addr := (if lo_addr lo = [] then loopback (ag_port a) else lo_addr lo),
                   lo_token := (if lo_token lo = [] then ag_token a else lo_token lo)\<rparr>), w')))
      else (Inr lo, w))"

subsection \<open>The path and its size\<close>

definition abs_path :: "machine \<Rightarrow> string \<Rightarrow> string result" where
  "abs_path mc path =
     (if rooted path then Inr (path_clean path)
      else case mc_getwd mc of Inl e \<Rightarrow> Inl e | Inr wd \<Rightarrow> Inr (path_join [wd, path]))"

text \<open>The callback of \<open>filepath.WalkDir\<close> over the nodes of the walk, which reads each directory.\<close>

fun size_walk :: "(path \<times> node) list \<Rightarrow> int \<Rightarrow> os \<Rightarrow> int result \<times> os" where
  "size_walk [] acc w = (Inr acc, w)"
| "size_walk ((p, n) # ns) acc w =
     (let f = slash # join_with slash p in
      case n of
        File _ _ _ \<Rightarrow>
          (case os_stat f w of
             (Inl _, w') \<Rightarrow> size_walk ns acc w'
           | (Inr info, w') \<Rightarrow> size_walk ns (i64 (acc + size_of info)) w')
      | Dir _ \<Rightarrow> (case os_read_dir f w of (Inl e, w') \<Rightarrow> (Inl e, w') | (Inr _, w') \<Rightarrow> size_walk ns acc w')
      | Special _ _ \<Rightarrow> size_walk ns acc w)"

definition dir_size :: "string \<Rightarrow> os \<Rightarrow> int result \<times> os" where
  "dir_size root w =
     (case os_stat root w of
        (Inl e, w') \<Rightarrow> (Inl e, w')
      | (Inr _, w') \<Rightarrow> size_walk (walk (path_comps root) (os_fs w')) 0 w')"

subsection \<open>Dialling\<close>

definition default_window :: int where
  "default_window = 10 * second"

definition retry_pause :: int where
  "retry_pause = 500000000"

definition os_sleep :: "int \<Rightarrow> os \<Rightarrow> os" where
  "os_sleep d w = w\<lparr>os_now := time_add (os_now w) d\<rparr>"

text \<open>The loop has no bound of its own: its value is \<open>None\<close> if it never returns.\<close>

partial_function (option) dial_loop ::
    "(string \<Rightarrow> os \<Rightarrow> conn result \<times> os) \<Rightarrow> string \<Rightarrow> gotime \<Rightarrow> os \<Rightarrow> (conn result \<times> os) option" where
  "dial_loop dial addr deadline w =
     (case dial addr w of
        (Inr c, w1) \<Rightarrow> Some (Inr c, w1)
      | (Inl e, w1) \<Rightarrow>
          (case time_now w1 of
             (now, w2) \<Rightarrow>
               if time_after now deadline then Some (Inl (CannotReach addr e), w2)
               else dial_loop dial addr deadline (os_sleep retry_pause w2)))"

definition dial_retry ::
    "(string \<Rightarrow> os \<Rightarrow> conn result \<times> os) \<Rightarrow> string \<Rightarrow> int \<Rightarrow> os \<Rightarrow> (conn result \<times> os) option" where
  "dial_retry dial addr window w =
     (let win = (if window = 0 then default_window else window) in
      case time_now w of (now, w') \<Rightarrow> dial_loop dial addr (time_add now win) w')"

subsection \<open>The payload\<close>

text \<open>\<open>Write\<close> calls of a \<open>ChunkWriter\<close>, up to the first that fails.\<close>

fun cw_writes :: "bytes list \<Rightarrow> writer \<Rightarrow> error option \<times> writer" where
  "cw_writes [] wr = (None, wr)"
| "cw_writes (p # ps) wr =
     (case cw_write p wr of
        ((_, Some e), wr') \<Rightarrow> (Some e, wr')
      | ((_, None), wr') \<Rightarrow> cw_writes ps wr')"

text \<open>The pieces in which a copy with a buffer of \<open>Suc b\<close> bytes reads a file.\<close>

fun pieces :: "nat \<Rightarrow> bytes \<Rightarrow> bytes list" where
  "pieces b [] = []"
| "pieces b (c # cs) = (c # take b cs) # pieces b (drop b cs)"

text \<open>A file is opened and copied; a read that fails ends the copy after the pieces before it.\<close>

definition send_file :: "machine \<Rightarrow> string \<Rightarrow> writer \<Rightarrow> os \<Rightarrow> (error option \<times> writer) \<times> os" where
  "send_file mc f wr w =
     (case os_read_file f w of
        (Inl e, w1) \<Rightarrow> ((Some e, wr), w1)
      | (Inr d, w1) \<Rightarrow>
          (case env_step w1 of
             (stop, w2) \<Rightarrow>
               (case cw_writes (pieces (mc_buffer mc) (case stop of None \<Rightarrow> d | Some k \<Rightarrow> take k d)) wr of
                  (Some e, wr') \<Rightarrow> ((Some e, wr'), w2)
                | (None, wr') \<Rightarrow> ((if stop = None then None else Some IoError, wr'), w2))))"

definition send_dir :: "machine \<Rightarrow> string \<Rightarrow> writer \<Rightarrow> os \<Rightarrow> (error option \<times> writer) \<times> os" where
  "send_dir mc dir wr w =
     (case pack dir w of
        ((_, ms), e, w1) \<Rightarrow>
          (case cw_writes (mc_tar mc ms (e = None)) wr of
             (Some we, wr') \<Rightarrow> ((Some (Packing we), wr'), w1)
           | (None, wr') \<Rightarrow> ((map_option Packing e, wr'), w1)))"

subsection \<open>The conversation\<close>

definition done_to_err :: "event \<Rightarrow> error option" where
  "done_to_err ev = (if ev_status ev = ''ok'' then None else Some (Reported (ev_error ev)))"

text \<open>The buffer of \<open>bufio.NewReader\<close> is 4096 bytes.\<close>

definition next_event :: "machine \<Rightarrow> bytes \<Rightarrow> event result \<times> bytes" where
  "next_event mc s = read_event (mc_event mc) 4095 s"

lemma read_slice_rest:
  "read_slice (Suc n) s = ((frag, e), s') \<Longrightarrow> length s' \<le> length s \<and> (e \<noteq> Some EndOfFile \<longrightarrow> length s' < length s)"
  by (auto simp: read_slice_def Let_def split: if_splits)

lemma read_line_from_rest: "read_line_from n m buf s = (r, s') \<Longrightarrow> succeeds r \<Longrightarrow> length s' < length s"
proof (induction n m buf s arbitrary: r s' rule: read_line_from.induct)
  case (1 n m buf s)
  obtain frag e t where sl: "read_slice (Suc n) s = ((frag, e), t)" by (metis surj_pair)
  note rest = read_slice_rest [OF sl]
  show ?case
    using "1.prems" "1.IH" [OF sl [symmetric] HOL.refl] rest
    by (auto simp: read_line_from.simps [of n m buf s] sl split: if_splits option.splits)
qed

lemma next_event_rest: "next_event mc s = (Inr ev, s') \<Longrightarrow> length s' < length s"
  by (auto simp: next_event_def read_event_def read_line_def split: prod.splits sum.splits option.splits
      dest!: read_line_from_rest)

text \<open>The wait for the closing event: events that are not \<open>done\<close> are skipped.\<close>

function await_done :: "machine \<Rightarrow> bytes \<Rightarrow> error option" where
  "await_done mc s =
     (case next_event mc s of
        (Inl e, _) \<Rightarrow> Some (ConnectionLost e)
      | (Inr ev, s') \<Rightarrow> if ev_event ev = ''done'' then done_to_err ev else await_done mc s')"
  by pat_completeness auto
termination
  by (relation "measure (\<lambda>(mc, s). length s)") (auto dest!: next_event_rest [OF sym])

declare await_done.simps [simp del]

text \<open>
  From the request on: the header, the first event, the payload and its terminator, and the verdict
  unless the caller does not want to wait.
\<close>

definition conversation ::
    "machine \<Rightarrow> options \<Rightarrow> request \<Rightarrow> conn \<Rightarrow> os \<Rightarrow> (error option \<times> writer) \<times> os" where
  "conversation mc lo r cn w =
     (case write_request (mc_request mc) r (cn_out cn) of
        (Some e, wr) \<Rightarrow> ((Some e, wr), w)
      | (None, wr) \<Rightarrow>
          (case next_event mc (cn_in cn) of
             (Inl e, _) \<Rightarrow> ((Some (DaemonError e), wr), w)
           | (Inr ev, s) \<Rightarrow>
               if ev_event ev = ''done'' then ((done_to_err ev, wr), w)
               else
                 (case (if req_dir r then send_dir else send_file) mc (req_path r) wr w of
                   ((Some e, wr1), w1) \<Rightarrow> ((Some e, wr1), w1)
                 | ((None, wr1), w1) \<Rightarrow>
                     (case cw_close wr1 of
                        (Some e, wr2) \<Rightarrow> ((Some e, wr2), w1)
                      | (None, wr2) \<Rightarrow> ((if lo_wait lo then await_done mc s else None, wr2), w1)))))"

subsection \<open>Opening a path\<close>

definition make_request :: "machine \<Rightarrow> options \<Rightarrow> string \<Rightarrow> bool \<Rightarrow> int \<Rightarrow> request" where
  "make_request mc lo p dir sz =
     \<lparr>req_v = version, req_op = (if lo_reveal lo then op_reveal else op_open),
      req_origin = \<lparr>org_host = mc_hostname mc, org_label = lo_label lo\<rparr>, req_path = p, req_dir = dir,
      req_wait = lo_wait lo, req_force = lo_force lo, req_app = lo_app lo, req_size = sz,
      req_mode = mode_inline, req_token = lo_token lo\<rparr>"

text \<open>The resolved path, whether it is a directory, and its size, or the error that keeps it here.\<close>

definition measure_path :: "machine \<Rightarrow> options \<Rightarrow> string \<Rightarrow> os \<Rightarrow> (string \<times> bool \<times> int) result \<times> os" where
  "measure_path mc lo path w =
     (case abs_path mc path of
        Inl e \<Rightarrow> (Inl e, w)
      | Inr a \<Rightarrow>
          (case mc_eval_links mc a w of
             (Inl e, w1) \<Rightarrow> (Inl (CannotResolve e), w1)
           | (Inr p, w1) \<Rightarrow>
               bind_os (os_stat p w1) (\<lambda>fi w2.
                 bind_os (if is_dir (Some fi) then dir_size p w2 else (Inr (size_of fi), w2)) (\<lambda>sz w3.
                   if lo_max_size lo < sz \<and> \<not> lo_force lo then (Inl (TooLargeToSend sz (lo_max_size lo)), w3)
                   else (Inr (p, is_dir (Some fi), sz), w3)))))"

text \<open>
  The whole command: the error, and what was written if a connection was made. \<open>None\<close> if dialling
  never ends.
\<close>

definition client_open ::
    "machine \<Rightarrow> string \<Rightarrow> options \<Rightarrow> os \<Rightarrow> ((error option \<times> writer option) \<times> os) option" where
  "client_open mc path opts w =
     (case resolve_options mc opts w of
        (Inl e, w1) \<Rightarrow> Some ((Some e, None), w1)
      | (Inr lo1, w1) \<Rightarrow>
          if \<not> valid_label (lo_label lo1) then Some ((Some (InvalidAgentLabel (lo_label lo1)), None), w1)
          else
            let lo = (if lo_max_size lo1 = 0 then lo1\<lparr>lo_max_size := default_max_payload\<rparr> else lo1) in
            case measure_path mc lo path w1 of
              (Inl e, w2) \<Rightarrow> Some ((Some e, None), w2)
            | (Inr (p, dir, sz), w2) \<Rightarrow>
                (case dial_retry (mc_dial mc) (lo_addr lo) (lo_retry lo) w2 of
                   None \<Rightarrow> None
                 | Some (Inl e, w3) \<Rightarrow> Some ((Some e, None), w3)
                 | Some (Inr cn, w3) \<Rightarrow>
                     (case conversation mc lo (make_request mc lo p dir sz) cn w3 of
                        ((e, wr), w4) \<Rightarrow> Some ((e, Some wr), w4))))"
subsection \<open>The retry loop ends\<close>

lemma time_now_mono: "time_now w = (t, w') \<Longrightarrow> t = os_now w' \<and> nanos (os_now w) \<le> nanos (os_now w')"
  by (auto simp: time_now_def env_step_def time_add_def split: list.splits)

text \<open>What a dial may do to the clock: it never runs backwards.\<close>

definition clocked :: "(string \<Rightarrow> os \<Rightarrow> conn result \<times> os) \<Rightarrow> bool" where
  "clocked dial \<longleftrightarrow> (\<forall>a u. os_now u \<le> os_now (snd (dial a u)))"

lemma clockedD: "clocked dial \<Longrightarrow> dial a u = (r, u') \<Longrightarrow> nanos (os_now u) \<le> nanos (os_now u')"
  unfolding clocked_def by (metis less_eq_gotime_def snd_conv)

lemma dial_loop_ends:
  assumes "clocked dial"
  shows "\<exists>r w'. dial_loop dial addr (Instant D) w = Some (r, w') \<and>
     (case r of
        Inr c \<Rightarrow> \<exists>u. dial addr u = (Inr c, w')
      | Inl e \<Rightarrow> D < nanos (os_now w') \<and> (\<exists>u x. fst (dial addr u) = Inl x \<and> e = CannotReach addr x))"
proof (induction "nat (D + 1 - nanos (os_now w))" arbitrary: w rule: less_induct)
  case less
  obtain r w1 where d: "dial addr w = (r, w1)" by (metis surj_pair)
  obtain now w2 where n: "time_now w1 = (now, w2)" by (metis surj_pair)
  note step = dial_loop.simps [of dial addr "Instant D" w] d n
  show ?case
  proof (cases r)
    case (Inr c)
    then show ?thesis by (auto simp: step intro!: exI [of _ w])
  next
    case (Inl e)
    have mono: "nanos (os_now w) \<le> nanos (os_now w2)" "now = os_now w2"
      using clockedD [OF assms d] time_now_mono [OF n] by auto
    show ?thesis
    proof (cases "D < nanos (os_now w2)")
      case True
      then show ?thesis using Inl mono d by (auto simp: step time_defs intro!: exI [of _ w])
    next
      case False
      then have "nat (D + 1 - nanos (os_now (os_sleep retry_pause w2))) < nat (D + 1 - nanos (os_now w))"
        using mono by (simp add: os_sleep_def retry_pause_def time_add_def)
      from less [OF this] show ?thesis using False Inl mono by (simp add: step time_defs)
    qed
  qed
qed

lemma dial_loop_time:
  assumes "clocked dial"
    and limit: "\<And>a u. nanos (os_now (snd (dial a u))) \<le> nanos (os_now u) + T \<and> (os_sched u = [] \<longrightarrow> os_sched (snd (dial a u)) = [])"
    and "os_sched w = []" and "dial_loop dial addr (Instant D) w = Some (r, w')"
  shows "nanos (os_now w') \<le> max (nanos (os_now w)) (D + retry_pause) + T"
  using assms(3,4)
proof (induction "nat (D + 1 - nanos (os_now w))" arbitrary: w rule: less_induct)
  case less
  obtain q w1 where d: "dial addr w = (q, w1)" by (metis surj_pair)
  then have w1: "nanos (os_now w1) \<le> nanos (os_now w) + T" "os_sched w1 = []" "nanos (os_now w) \<le> nanos (os_now w1)"
    using limit [of addr w] less.prems(1) clockedD [OF assms(1) d] by auto
  then have n: "time_now w1 = (os_now w1, w1)" by (simp add: time_now_def env_step_def)
  note step = dial_loop.simps [of dial addr "Instant D" w] d n
  show ?case
  proof (cases "succeeds q \<or> D < nanos (os_now w1)")
    case True
    then have "w' = w1" using less.prems(2) by (auto simp: step time_defs split: sum.splits)
    then show ?thesis using w1 by simp
  next
    case False
    let ?w = "os_sleep retry_pause w1"
    have "dial_loop dial addr (Instant D) ?w = Some (r, w')"
      using less.prems(2) False by (auto simp: step time_defs split: sum.splits)
    moreover have "nat (D + 1 - nanos (os_now ?w)) < nat (D + 1 - nanos (os_now w))" "os_sched ?w = []"
      "nanos (os_now ?w) \<le> D + retry_pause"
      using False w1 by (simp_all add: os_sleep_def retry_pause_def time_add_def)
    ultimately show ?thesis using less.hyps [of ?w] by simp
  qed
qed

subsection \<open>Properties\<close>

text \<open>
  C20: dialling always comes to an end when the clock does not run backwards: with a connection, or
  with an error after the window has passed. When a single attempt takes at most two seconds and no
  other delay occurs, the command is never held up for more than two and a half seconds beyond the
  window, ten seconds unless another was asked for.
\<close>

theorem dial_retry_returns:
  assumes "\<forall>a u. os_now u \<le> os_now (snd (dial a u))"
  shows "\<exists>r w'. dial_retry dial addr window w = Some (r, w') \<and>
    (case r of
       Inr c \<Rightarrow> \<exists>u. dial addr u = (Inr c, w')
     | Inl e \<Rightarrow> \<exists>u x. fst (dial addr u) = Inl x \<and> e = CannotReach addr x) \<and>
    (os_sched w = [] \<longrightarrow>
     (\<forall>a u. nanos (os_now (snd (dial a u))) \<le> nanos (os_now u) + 2 * second \<and>
        (os_sched u = [] \<longrightarrow> os_sched (snd (dial a u)) = [])) \<longrightarrow>
     0 \<le> window \<longrightarrow>
     nanos (os_now w') - nanos (os_now w) \<le> (if window = 0 then 10 * second else window) + 2500000000 \<and>
     (succeeds r \<or> (if window = 0 then 10 * second else window) < nanos (os_now w') - nanos (os_now w)))"
proof -
  define win where "win = (if window = 0 then 10 * second else window)"
  obtain now v where n: "time_now w = (now, v)" by (metis surj_pair)
  have c: "clocked dial" using assms by (simp add: clocked_def)
  let ?D = "nanos now + win"
  have run: "dial_retry dial addr window w = dial_loop dial addr (Instant ?D) v"
    by (simp add: dial_retry_def n Let_def win_def time_add_def default_window_def)
  obtain r w' where loop: "dial_loop dial addr (Instant ?D) v = Some (r, w')"
    and res: "case r of Inr c \<Rightarrow> \<exists>u. dial addr u = (Inr c, w')
       | Inl e \<Rightarrow> ?D < nanos (os_now w') \<and> (\<exists>u x. fst (dial addr u) = Inl x \<and> e = CannotReach addr x)"
    using dial_loop_ends [OF c] by blast
  have late: "nanos (os_now w') - nanos (os_now w) \<le> win + 2500000000 \<and> (succeeds r \<or> win < nanos (os_now w') - nanos (os_now w))"
    if "os_sched w = []" "\<forall>a u. nanos (os_now (snd (dial a u))) \<le> nanos (os_now u) + 2 * second \<and>
        (os_sched u = [] \<longrightarrow> os_sched (snd (dial a u)) = [])" "0 \<le> window"
  proof -
    have v: "v = w" "now = os_now w" using n that(1) by (auto simp: time_now_def env_step_def)
    have "nanos (os_now w') \<le> max (nanos (os_now w)) (?D + retry_pause) + 2 * second"
      using that(1,2) loop unfolding v(1) by (intro dial_loop_time [OF c]) auto
    moreover have "0 \<le> win" using that(3) by (simp add: win_def second_def)
    ultimately show ?thesis using v res by (cases r) (auto simp: retry_pause_def second_def)
  qed
  show ?thesis
    using loop res late by (intro exI [of _ r] exI [of _ w']) (auto simp: run win_def split: sum.splits)
qed

theorem dial_retry_returns_witness:
  "\<exists>w'. dial_retry (\<lambda>_ w. (Inl IoError, w)) ''h:1'' 0 \<lparr>os_fs = [], os_now = zero_time, os_sched = []\<rparr> =
      Some (Inl (CannotReach ''h:1'' IoError), w') \<and>
    nanos (os_now w') - nanos zero_time \<le> 12500000000 \<and> 10000000000 < nanos (os_now w') - nanos zero_time"
proof -
  let ?dial = "\<lambda>(_ :: string) w. (Inl IoError :: conn result, w)"
  have "\<forall>a u. os_now u \<le> os_now (snd (?dial a u))" by simp
  note ends = dial_retry_returns [OF this, of "''h:1''" 0 "\<lparr>os_fs = [], os_now = zero_time, os_sched = []\<rparr>"]
  show ?thesis
    by (rule exE [OF ends], erule exE, rename_tac r w', case_tac r) (auto simp: second_def)
qed

end
