(* ===== verification/End_To_End.thy ===== *)
theory End_To_End
  imports Client Delivery
begin

text \<open>
  The command and the daemon together: what one writes the other reads. The lemmas follow a file from
  the remote disk through the frames, the request handler and \<open>Promote\<close> to the slot of the mirror.
\<close>

subsection \<open>Reading a line of events\<close>

lemma read_slice_parts: "read_slice n s = ((frag, e), s') \<Longrightarrow> s = frag @ s'"
  by (auto simp: read_slice_def Let_def split: if_splits)

lemma read_line_from_parts: "read_line_from n m buf s = (Inr l, s') \<Longrightarrow> l @ s' = buf @ s"
proof (induction n m buf s rule: read_line_from.induct)
  case (1 n m buf s)
  obtain frag e t where sl: "read_slice (Suc n) s = ((frag, e), t)" by (metis surj_pair)
  have s: "s = frag @ t" by (rule read_slice_parts [OF sl])
  show ?case
  proof (cases "\<not> m < length buf + length frag \<and> e = Some BufferFull")
    case True
    then have "read_line_from n m buf s = read_line_from n m (buf @ frag) t"
      by (subst read_line_from.simps) (simp add: sl)
    then have "l @ s' = (buf @ frag) @ t"
      using "1.prems" "1.IH" [OF sl [symmetric] HOL.refl] True by simp
    then show ?thesis using s by simp
  next
    case False
    with "1.prems" have "l = buf @ frag \<and> s' = t"
      by (subst (asm) read_line_from.simps) (auto simp: sl split: if_splits option.splits)
    then show ?thesis using s by simp
  qed
qed

lemma next_event_line:
  assumes "newline \<notin> set b" and "next_event mc (b @ newline # t) = (Inr ev, s)"
  shows "mc_event mc (b @ [newline]) = Some ev \<and> s = t"
proof -
  obtain l where l: "read_line 4095 max_event_bytes (b @ newline # t) = (Inr l, s)" "mc_event mc l = Some ev"
    using assms(2) by (auto simp: next_event_def read_event_def split: prod.splits sum.splits option.splits)
  have "line_index (b @ newline # t) = length b" using assms(1) by (rule line_index_append)
  then have "l = b @ [newline]"
    using l(1) read_line_from_spec [of "[]" max_event_bytes 4095 "b @ newline # t"]
    by (auto simp: read_line_def line_spec_def split: if_splits)
  with l read_line_from_parts show ?thesis by (fastforce simp: read_line_def)
qed

subsection \<open>What the command writes\<close>

lemma concat_pieces: "concat (pieces b d) = d"
  by (induction b d rule: pieces.induct) simp_all

lemma cw_writes_all: "cw_writes ps w = (None, w') \<Longrightarrow> cw_all ps w = cw_close w'"
  by (induction ps arbitrary: w) (auto split: prod.splits option.splits)

lemma converse_parts:
  assumes "conversation mc lo r cn w = ((None, wr), w')" and "lo_wait lo" and "wr_out (cn_out cn) = []"
    and "\<And>ev s. next_event mc (cn_in cn) = (Inr ev, s) \<Longrightarrow> ev_event ev = ''done'' \<Longrightarrow> ev_status ev \<noteq> ''ok''"
  obtains ev s wr0 wr1 where "next_event mc (cn_in cn) = (Inr ev, s)" "ev_event ev \<noteq> ''done''" "await_done mc s = None"
    "wr_out wr0 = mc_request mc r @ [newline]"
    "(if req_dir r then send_dir else send_file) mc (req_path r) wr0 w = ((None, wr1), w')" "cw_close wr1 = (None, wr)"
proof -
  obtain wr0 where w0: "write_request (mc_request mc) r (cn_out cn) = (None, wr0)"
    using assms(1) by (auto simp: conversation_def split: prod.splits option.splits)
  then have o0: "wr_out wr0 = mc_request mc r @ [newline]"
    using assms(3) by (auto simp: write_request_def Let_def split: if_splits dest: wr_write_out)
  obtain ev s where ev: "next_event mc (cn_in cn) = (Inr ev, s)"
    using assms(1) w0 by (auto simp: conversation_def split: prod.splits sum.splits)
  then have open_ended: "ev_event ev \<noteq> ''done''"
    using assms(1,4) w0 by (auto simp: conversation_def done_to_err_def split: if_splits)
  let ?send = "if req_dir r then send_dir else send_file"
  obtain se wr1 w1 where send: "?send mc (req_path r) wr0 w = ((se, wr1), w1)" by (metis surj_pair)
  have "se = None \<and> cw_close wr1 = (None, wr) \<and> await_done mc s = None \<and> w' = w1"
    using assms(1,2) open_ended unfolding conversation_def w0 option.case prod.case ev sum.case send
    by (auto split: prod.splits option.splits)
  then show thesis using that [OF ev open_ended _ o0] send by blast
qed

lemma wire_of_writes:
  assumes "cw_writes ps wr0 = (None, wr1)" "cw_close wr1 = (None, wr)"
  shows "wr_out wr = wr_out wr0 @ concat (map frames ps) @ be32_put 0"
  using cw_all_out [of ps wr0 wr] cw_writes_all [OF assms(1)] assms(2) by simp

lemma send_file_ok:
  assumes "send_file mc f wr0 w = ((None, wr1), w')"
  obtains d where "file_data (os_fs w) f = Some d" "cw_writes (pieces (mc_buffer mc) d) wr0 = (None, wr1)" "os_fs w' = os_fs w"
proof -
  obtain d w2 where rd: "os_read_file f w = (Inr d, w2)"
    and e2: "env_step w2 = (None, w')" and ws: "cw_writes (pieces (mc_buffer mc) d) wr0 = (None, wr1)"
    using assms by (auto simp: send_file_def split: prod.splits sum.splits option.splits if_splits)
  have "file_data (os_fs w) f = Some d"
    using rd by (auto simp: os_read_file_def file_data_def env_step_fs split: prod.splits option.splits node.splits)
  moreover have "os_fs w' = os_fs w" using env_step_fs [OF e2] read_fs(3) [OF rd] by simp
  ultimately show thesis using that ws by blast
qed

lemma send_dir_ok:
  assumes "send_dir mc f wr0 w = ((None, wr1), w')" and "tidy (path_comps f) (os_fs w)" and "good_root f"
  shows "cw_writes (mc_tar mc (archive (listing (path_comps f) (os_fs w))) True) wr0 = (None, wr1) \<and> os_fs w' = os_fs w"
proof -
  obtain s ms where p: "pack f w = ((s, ms), None, w')" and ws: "cw_writes (mc_tar mc ms True) wr0 = (None, wr1)"
    using assms(1) by (auto simp: send_dir_def split: prod.splits option.splits)
  from pack_archive [OF p assms(2,3)] ws show ?thesis by simp
qed

text \<open>The closing event the command waits for is the last of the conversation.\<close>

lemma await_line:
  assumes "newline \<notin> set b" and "await_done mc (b @ [newline]) = None" and "mc_event mc (b @ [newline]) = Some ev"
    and "ev_event ev = ''done''"
  shows "ev_status ev = ''ok''"
proof -
  obtain r s where n: "next_event mc (b @ [newline]) = (r, s)" by (metis surj_pair)
  then obtain ev' where "r = Inr ev'" using assms(2) by (cases r) (simp_all add: await_done.simps)
  with n next_event_line [OF assms(1), of mc "[]" ev' s] assms have "r = Inr ev" by simp
  with n assms(2,4) show ?thesis by (simp add: await_done.simps done_to_err_def split: if_splits)
qed

subsection \<open>The two sides\<close>

text \<open>
  What the two JSON codecs must agree on: the command reads the daemon's events as what they are, up
  to the text of an error, and the daemon reads the command's request.
\<close>

definition same_verdict :: "event \<Rightarrow> event \<Rightarrow> bool" where
  "same_verdict a b \<longleftrightarrow> ev_event a = ev_event b \<and> ev_status a = ev_status b"

definition daemon_event :: "event \<Rightarrow> bool" where
  "daemon_event ev \<longleftrightarrow> ev = received_event \<or> ev = done_ok \<or> (\<exists>e. ev = done_error e)"

definition understood :: "services \<Rightarrow> machine \<Rightarrow> event \<Rightarrow> bool" where
  "understood sv mc ev \<longleftrightarrow> newline \<notin> set (se_event sv ev) \<and>
     (case mc_event mc (se_event sv ev @ [newline]) of None \<Rightarrow> False | Some ev' \<Rightarrow> same_verdict ev' ev)"

text \<open>The daemon's side of the conversation as the command reads it.\<close>

lemma first_event:
  assumes "\<forall>ev. daemon_event ev \<longrightarrow> understood sv mc ev" and "wr_left dwr0 = None" "wr_out dwr0 = []"
    and "handle sv s t rd dwr0 v = ((res, dwr), s', v')"
    and "next_event mc (wr_out dwr) = (Inr ev, q)"
  shows "if ev_event ev = ''done'' then ev_status ev \<noteq> ''ok'' else await_done mc q = None \<longrightarrow> res = None"
proof -
  let ?line = "\<lambda>ev. se_event sv ev @ [newline]"
  from handle_talk [OF assms(2,4)] obtain evs where out: "wr_out dwr = concat (map ?line evs)"
    and evs: "case res of None \<Rightarrow> evs = [received_event, done_ok]
      | Some e \<Rightarrow> evs = [] \<or> evs = [done_error e] \<or> evs = [received_event, done_error e]"
    by (auto simp: assms(3))
  have u: "newline \<notin> set (se_event sv ev)" "\<exists>ev'. mc_event mc (?line ev) = Some ev' \<and> same_verdict ev' ev" if "daemon_event ev" for ev
    using assms(1) that by (auto simp: understood_def split: option.splits)
  have evs_ok [simp]: "daemon_event received_event" "daemon_event done_ok" "daemon_event (done_error e)" for e
    by (auto simp: daemon_event_def)
  have head: "ev' = ev \<and> q = tl" if "wr_out dwr = ?line x @ tl" "mc_event mc (?line x) = Some ev'" "daemon_event x" for x tl ev'
    using that(1,2) assms(5) next_event_line [OF u(1) [OF that(3)], of mc tl ev q] by simp
  obtain r d where rd: "mc_event mc (?line received_event) = Some r" "same_verdict r received_event"
    using u(2) evs_ok by blast
  show ?thesis
  proof (cases res)
    case None
    then have "wr_out dwr = ?line received_event @ ?line done_ok" using out evs by simp
    from head [OF this rd(1) evs_ok(1)] rd(2) None show ?thesis by (simp add: same_verdict_def received_event_def)
  next
    case (Some e)
    obtain f where f: "mc_event mc (?line (done_error e)) = Some f" "same_verdict f (done_error e)"
      using u(2) evs_ok by blast
    from Some evs consider "evs = []" | "evs = [done_error e]" | "evs = [received_event, done_error e]" by auto
    then show ?thesis
    proof cases
      case 1
      then show ?thesis using out assms(5) next_event_rest [of mc "[]" ev q] by simp
    next
      case 2
      then have "wr_out dwr = ?line (done_error e) @ []" using out by simp
      from head [OF this f(1) evs_ok(3)] f(2) show ?thesis by (simp add: same_verdict_def done_error_def)
    next
      case 3
      then have "wr_out dwr = ?line received_event @ ?line (done_error e)" using out by simp
      from head [OF this rd(1) evs_ok(1)] rd(2) have q: "ev_event ev = ''received''" "q = ?line (done_error e)"
        by (simp_all add: same_verdict_def received_event_def)
      have "await_done mc q \<noteq> None"
        using await_line [OF u(1) [OF evs_ok(3)] _ f(1)] f(2) q(2) by (auto simp: same_verdict_def done_error_def)
      then show ?thesis using q(1) by auto
    qed
  qed
qed

text \<open>
  When the command reports success, so does the daemon, and it has read the command's own request with
  the payload's frames after it.
\<close>

lemma both_sides:
  assumes "\<forall>ev. daemon_event ev \<longrightarrow> understood sv mc ev"
    and "se_decode sv (mc_request mc r @ [newline]) = Some r" and "newline \<notin> set (mc_request mc r)" and "lo_wait lo"
    and "conversation mc lo r \<lparr>cn_in = wr_out dwr, cn_out = open_writer\<rparr> w = ((None, wr), w')"
    and "handle sv s t \<lparr>rd_sched = sched, rd_rest = wr_out wr\<rparr> open_writer v = ((res, dwr), s', v')"
  obtains wr0 wr1 where "res = None"
    "(if req_dir r then send_dir else send_file) mc (req_path r) wr0 w = ((None, wr1), w')"
    "\<And>ps. cw_writes ps wr0 = (None, wr1) \<Longrightarrow>
       read_request (se_decode sv) (wr_out wr) = (Inr r, concat (map frames ps) @ be32_put 0)"
proof -
  have ow: "wr_left open_writer = None" "wr_out open_writer = []" by (simp_all add: open_writer_def)
  note first = first_event [OF assms(1) ow assms(6)]
  have nd: "ev_status ev \<noteq> ''ok''" if "next_event mc (cn_in \<lparr>cn_in = wr_out dwr, cn_out = open_writer\<rparr>) = (Inr ev, q)"
    "ev_event ev = ''done''" for ev q
    using first [of ev q] that by simp
  show thesis
  proof (rule converse_parts [OF assms(5,4) _ nd])
    fix ev q wr0 wr1
    assume ev: "next_event mc (cn_in \<lparr>cn_in = wr_out dwr, cn_out = open_writer\<rparr>) = (Inr ev, q)"
        "ev_event ev \<noteq> ''done''" "await_done mc q = None"
      and o0: "wr_out wr0 = mc_request mc r @ [newline]"
      and send: "(if req_dir r then send_dir else send_file) mc (req_path r) wr0 w = ((None, wr1), w')"
      and shut: "cw_close wr1 = (None, wr)"
    have res: "res = None" using first [of ev q] ev by simp
    have "read_request (se_decode sv) (wr_out wr) = (Inr r, concat (map frames ps) @ be32_put 0)"
      if ws: "cw_writes ps wr0 = (None, wr1)" for ps
    proof -
      have out: "wr_out wr = mc_request mc r @ newline # concat (map frames ps) @ be32_put 0"
        using wire_of_writes [OF ws shut] o0 by simp
      have idx: "line_index (wr_out wr) = length (mc_request mc r)"
        unfolding out using assms(3) by (rule line_index_append)
      from assms(6) show ?thesis
      proof (cases rule: handle_cases)
        case (slot r' rest' k')
        then show ?thesis using idx assms(2) unfolding out
          by (auto simp: read_request_def read_slice_def Let_def split: if_splits)
      qed (auto simp: res fail_with_def)
    qed
    then show thesis using that [OF res send] by blast
  qed (simp_all add: ow)
qed

subsection \<open>Properties\<close>

text \<open>
  C4: when the command reports that a file was opened, the slot of its path in the local mirror holds
  exactly the bytes of the remote file, which has not changed. The two sides are run against each
  other: the command on what the daemon writes, the daemon on what the command writes, with any short
  reads, and either side may have failing calls.
\<close>

theorem open_delivers_file:
  assumes "good_root (mir_root (sv_mir s))" and "index_apart (sv_mir s)"
    and "0 \<le> c_max_payload (sv_cfg s)" and "c_max_payload (sv_cfg s) \<le> max_i64 - int max_chunk_bytes"
    and "anchored (below_any (work_dirs (sv_mir s))) v"
    and "desktop_keeps (\<lambda>x y. tree (slot_comps (sv_mir s) k) (os_fs y) = tree (slot_comps (sv_mir s) k) (os_fs x)) (se_desktop sv)"
    and "\<forall>ev. daemon_event ev \<longrightarrow> understood sv mc ev"
    and "se_decode sv (mc_request mc r @ [newline]) = Some r" and "newline \<notin> set (mc_request mc r)"
    and "\<not> req_dir r" and "req_mode r = mode_inline" and "lo_wait lo" and "rel (h_label (tn_host t)) (req_path r) = Inr k"
    and "conversation mc lo r \<lparr>cn_in = wr_out dwr, cn_out = open_writer\<rparr> w = ((None, wr), w')"
    and "handle sv s t \<lparr>rd_sched = sched, rd_rest = wr_out wr\<rparr> open_writer v = ((res, dwr), s', v')"
  shows "res = None \<and> (\<exists>d. file_data (os_fs w) (req_path r) = Some d \<and> os_fs w' = os_fs w \<and>
    file_data (os_fs v') (m_abs (sv_mir s) k) = Some d)"
proof (rule both_sides [OF assms(7-9,12,14,15)])
  fix wr0 wr1
  assume res: "res = None"
    and send: "(if req_dir r then send_dir else send_file) mc (req_path r) wr0 w = ((None, wr1), w')"
    and read: "\<And>ps. cw_writes ps wr0 = (None, wr1) \<Longrightarrow>
      read_request (se_decode sv) (wr_out wr) = (Inr r, concat (map frames ps) @ be32_put 0)"
  obtain d where d: "file_data (os_fs w) (req_path r) = Some d" "os_fs w' = os_fs w"
    and ws: "cw_writes (pieces (mc_buffer mc) d) wr0 = (None, wr1)"
    by (rule send_file_ok [of mc "req_path r" wr0 w wr1 w']) (use send assms(10) in simp_all)
  let ?wire = "concat (map frames (pieces (mc_buffer mc) d)) @ be32_put 0"
  have run: "handle sv s t \<lparr>rd_sched = sched, rd_rest = wr_out wr\<rparr> open_writer v = ((None, dwr), s', v')"
    using assms(15) res by simp
  from handle_file [OF assms(1-6) _ assms(10,13) run] read [OF ws] assms(11)
  obtain d' wire tl where d': "file_data (os_fs v') (m_abs (sv_mir s) k) = Some d'"
    and wire: "?wire = wire @ tl" "framed 0 wire d'" by auto
  have "d = d'" using framed_unique [OF framed_writes [of "pieces (mc_buffer mc) d"] wire(2), of "[]" tl] wire(1)
    by (simp add: concat_pieces)
  with res d d' show ?thesis by blast
qed

definition demo_machine :: machine where
  "demo_machine = \<lparr>mc_home = Inr ''/home/u'', mc_getwd = Inr ''/'', mc_eval_links = (\<lambda>p w. (Inr p, w)), mc_hostname = ''h'',
     mc_dial = (\<lambda>_ w. (Inl NotExist, w)), mc_agent = (\<lambda>_. None), mc_request = (\<lambda>_. ''q''),
     mc_event = (\<lambda>b. let n = takeWhile (\<lambda>c. c \<noteq> CHR '':'') b in
       Some \<lparr>ev_event = n, ev_status = takeWhile (\<lambda>c. c \<noteq> newline) (drop (Suc (length n)) b), ev_error = None, ev_detail = []\<rparr>),
     mc_tar = (\<lambda>_ _. []), mc_buffer = 9\<rparr>"

definition demo_options :: options where
  "demo_options = \<lparr>lo_agent = [], lo_addr = [], lo_label = ''h'', lo_token = ''secret'', lo_wait = True, lo_force = False,
     lo_reveal = False, lo_app = [], lo_retry = 0, lo_max_size = 0\<rparr>"

definition remote_os :: os where
  "remote_os = \<lparr>os_fs = [([], Dir zero_time), ([''x''], File ''ab'' zero_time False)], os_now = zero_time, os_sched = []\<rparr>"

definition talking_services :: services where
  "talking_services = (demo_services demo_request)\<lparr>se_event := (\<lambda>ev. ev_event ev @ '':'' @ ev_status ev)\<rparr>"

definition done_line :: bytes where
  "done_line = ''done:ok'' @ [newline]"

definition verdict_stream :: bytes where
  "verdict_stream = ''received:'' @ newline # done_line"

lemma demo_understood: "daemon_event ev \<Longrightarrow> understood talking_services demo_machine ev"
  by (auto simp: daemon_event_def understood_def talking_services_def demo_services_def demo_machine_def same_verdict_def
      received_event_def done_ok_def done_error_def newline_def)

lemma next_event_read:
  assumes "newline \<notin> set b" and "length b < 4096" and "mc_event mc (b @ [newline]) = Some ev"
  shows "next_event mc (b @ newline # t) = (Inr ev, t)"
  using assms
  by (simp add: next_event_def read_event_def read_line_def read_line_from.simps read_slice_def line_index_append
      max_event_bytes_def Let_def)

lemma demo_events:
  "next_event demo_machine verdict_stream = (Inr received_event, done_line)"
  "next_event demo_machine done_line = (Inr done_ok, [])"
  unfolding verdict_stream_def done_line_def
  by (rule next_event_read; simp add: demo_machine_def newline_def received_event_def done_ok_def)+

lemma demo_read_file: "os_read_file ''/x'' remote_os = (Inr ''ab'', remote_os)"
  by code_simp

lemma demo_converse:
  "conversation demo_machine demo_options demo_request \<lparr>cn_in = verdict_stream, cn_out = open_writer\<rparr> remote_os =
     ((None, \<lparr>wr_out = ''q'' @ newline # demo_stream, wr_left = None\<rparr>), remote_os)"
proof -
  let ?wr = "\<lambda>b. \<lparr>wr_out = b, wr_left = None\<rparr>"
  have w: "write_request (mc_request demo_machine) demo_request open_writer = (None, ?wr (''q'' @ [newline]))"
    by (simp add: write_request_def demo_machine_def max_header_bytes_def wr_write_def open_writer_def)
  have r: "req_path demo_request = ''/x''" "\<not> req_dir demo_request"
    by (simp_all add: demo_request_def sample_request_def)
  have "cw_writes (pieces (mc_buffer demo_machine) ''ab'') (?wr b) = (None, ?wr (b @ be32_put (of_nat 2) @ ''ab''))" for b
    by (simp add: demo_machine_def cw_write.simps max_chunk_bytes_def wr_write_def)
  then have s: "send_file demo_machine ''/x'' (?wr b) remote_os = ((None, ?wr (b @ be32_put (of_nat 2) @ ''ab'')), remote_os)" for b
    by (simp add: send_file_def demo_read_file) (simp add: env_step_def remote_os_def)
  have "await_done demo_machine done_line = None"
    by (subst await_done.simps) (simp add: demo_events(2), simp add: done_ok_def done_to_err_def)
  then show ?thesis
    using r by (simp add: conversation_def w demo_events(1) s) (simp add: received_event_def cw_close_def wr_write_def demo_stream_def demo_options_def)
qed

lemma cr_header_code [code]:
  "cr_header cr =
     (if cr_remaining cr \<noteq> 0 then (None, cr)
      else case read_full 4 (cr_src cr) of
        ((_, Some e), src') \<Rightarrow> (Some (ReadingChunkHeader e), cr\<lparr>cr_src := src'\<rparr>)
      | ((hdr, None), src') \<Rightarrow>
          (let n = unat (be32_get hdr) in
           if n = 0 then (Some EndOfFile, cr\<lparr>cr_src := src', cr_done := True\<rparr>)
           else if 1048576 < int n then (Some (ChunkExceedsLimit n), cr\<lparr>cr_src := src'\<rparr>)
           else (None, cr\<lparr>cr_src := src', cr_remaining := n\<rparr>)))"
proof -
  have "1048576 < int n \<longleftrightarrow> max_chunk_bytes < n" for n by (simp add: max_chunk_bytes_def)
  then show ?thesis unfolding cr_header_def by (simp only:)
qed

lemma demo_answer:
  "fst (serve_slot talking_services demo_server demo_tunnel demo_request ''h/x''
     \<lparr>rd_sched = [0, 2], rd_rest = demo_stream\<rparr> open_writer served_os) = (None, \<lparr>wr_out = verdict_stream, wr_left = None\<rparr>)"
  by code_simp

theorem open_delivers_file_witness:
  "case handle talking_services demo_server demo_tunnel \<lparr>rd_sched = [0, 2], rd_rest = ''q'' @ newline # demo_stream\<rparr>
      open_writer served_os of ((res, _), _, v) \<Rightarrow> res = None \<and> file_data (os_fs v) ''/m/h/x'' = Some ''ab''"
proof -
  let ?rd = "\<lparr>rd_sched = [0, 2], rd_rest = ''q'' @ newline # demo_stream\<rparr>"
  have D: "se_decode talking_services (mc_request demo_machine demo_request @ [newline]) = Some demo_request"
    "newline \<notin> set (mc_request demo_machine demo_request)" "\<not> req_dir demo_request" "req_mode demo_request = mode_inline"
    "lo_wait demo_options" "se_desktop talking_services = se_desktop (demo_services demo_request)"
    by (simp_all add: talking_services_def demo_services_def demo_machine_def demo_request_def sample_request_def
        mode_inline_def demo_options_def newline_def)
  have "read_request (se_decode talking_services) (rd_rest ?rd) = (Inr demo_request, demo_stream)"
    using D(1) by (simp add: read_request_def read_slice_def line_index_def newline_def max_header_bytes_def demo_machine_def)
  moreover have "admit demo_server demo_tunnel demo_request = None" by code_simp
  moreover have "rel (org_label (req_origin demo_request)) (req_path demo_request) = Inr ''h/x''" by code_simp
  ultimately have "fst (handle talking_services demo_server demo_tunnel ?rd open_writer served_os) =
      (None, \<lparr>wr_out = verdict_stream, wr_left = None\<rparr>)"
    using demo_answer by (simp add: handle_def)
  then obtain s' v where run: "handle talking_services demo_server demo_tunnel ?rd open_writer served_os =
      ((None, \<lparr>wr_out = verdict_stream, wr_left = None\<rparr>), s', v)"
    by (metis prod.collapse)
  have path: "m_abs (sv_mir demo_server) ''h/x'' = ''/m/h/x''"
    by (simp add: m_abs_def mirror_abs_def demo_server_def demo_mirror_def path_join_def path_clean_def path_comps_def slash_def)
  have x: "file_data (os_fs remote_os) (req_path demo_request) = Some ''ab''" by code_simp
  let ?dw = "\<lparr>wr_out = verdict_stream, wr_left = None\<rparr>" and ?cw = "\<lparr>wr_out = ''q'' @ newline # demo_stream, wr_left = None\<rparr>"
  have sides: "conversation demo_machine demo_options demo_request \<lparr>cn_in = wr_out ?dw, cn_out = open_writer\<rparr> remote_os =
      ((None, ?cw), remote_os)"
    "handle talking_services demo_server demo_tunnel \<lparr>rd_sched = [0, 2], rd_rest = wr_out ?cw\<rparr> open_writer served_os =
      ((None, ?dw), s', v)"
    using demo_converse run by simp_all
  have talk: "\<forall>ev. daemon_event ev \<longrightarrow> understood talking_services demo_machine ev" using demo_understood by blast
  from open_delivers_file [OF demo_setup(1-5) demo_setup(6) [of _ demo_request, folded D(6)] talk D(1-5) demo_setup(7) sides] x
  show ?thesis unfolding run path by simp
qed

text \<open>
  C5: when the command reports that a directory was opened, the slot of its path in the local mirror holds
  exactly the remote tree, links and other special nodes apart. \<open>archive/tar\<close> is assumed to read
  back the archive it wrote; staging and mirror may hold anything before, either side may have failing
  calls, and the reads may be short.
\<close>

theorem open_delivers_dir:
  assumes "good_root (mir_root (sv_mir s))" and "index_apart (sv_mir s)"
    and "0 \<le> c_max_payload (sv_cfg s)" and "c_max_payload (sv_cfg s) \<le> max_i64 - int max_chunk_bytes"
    and "anchored (below_any (work_dirs (sv_mir s))) v"
    and "desktop_keeps (\<lambda>x y. tree (slot_comps (sv_mir s) k) (os_fs y) = tree (slot_comps (sv_mir s) k) (os_fs x)) (se_desktop sv)"
    and "nested (base_comps (sv_mir s)) (os_fs v)"
    and "\<forall>ev. daemon_event ev \<longrightarrow> understood sv mc ev"
    and "se_decode sv (mc_request mc r @ [newline]) = Some r" and "newline \<notin> set (mc_request mc r)"
    and "req_dir r" and "req_mode r = mode_inline" and "lo_wait lo" and "rel (h_label (tn_host t)) (req_path r) = Inr k"
    and "good_root (req_path r)" and "tidy (path_comps (req_path r)) (os_fs w)"
    and "bs = concat (mc_tar mc (archive (listing (path_comps (req_path r)) (os_fs w))) True)"
    and "int (length bs) \<le> c_max_payload (sv_cfg s)"
    and "fst (se_untar sv bs None) = archive (listing (path_comps (req_path r)) (os_fs w))"
    and "conversation mc lo r \<lparr>cn_in = wr_out dwr, cn_out = open_writer\<rparr> w = ((None, wr), w')"
    and "handle sv s t \<lparr>rd_sched = sched, rd_rest = wr_out wr\<rparr> open_writer v = ((res, dwr), s', v')"
  shows "res = None \<and> os_fs w' = os_fs w \<and>
    (\<forall>q. view (os_fs v') (path_comps (m_abs (sv_mir s) k) @ q) = copied (path_comps (req_path r)) (os_fs w) q)"
proof (rule both_sides [OF assms(8-10,13,20,21)])
  fix wr0 wr1
  assume res: "res = None"
    and send: "(if req_dir r then send_dir else send_file) mc (req_path r) wr0 w = ((None, wr1), w')"
    and read: "\<And>ps. cw_writes ps wr0 = (None, wr1) \<Longrightarrow>
      read_request (se_decode sv) (wr_out wr) = (Inr r, concat (map frames ps) @ be32_put 0)"
  let ?A = "archive (listing (path_comps (req_path r)) (os_fs w))"
  have "cw_writes (mc_tar mc ?A True) wr0 = (None, wr1) \<and> os_fs w' = os_fs w"
    by (rule send_dir_ok [OF _ assms(16,15)]) (use send assms(11) in simp)
  then have rq: "read_request (se_decode sv) (rd_rest \<lparr>rd_sched = sched, rd_rest = wr_out wr\<rparr>) =
      (Inr r, concat (map frames (mc_tar mc ?A True)) @ be32_put 0)" and fs: "os_fs w' = os_fs w"
    using read by simp_all
  have run: "handle sv s t \<lparr>rd_sched = sched, rd_rest = wr_out wr\<rparr> open_writer v = ((None, dwr), s', v')"
    using assms(21) res by simp
  have "framed 0 (concat (map frames (mc_tar mc ?A True)) @ be32_put 0) bs"
    unfolding assms(17) by (rule framed_writes)
  from handle_dir [OF assms(1-7) rq assms(11,12,14) run this assms(18,19,16)] res fs
  show ?thesis by (simp add: slot_comps_def)
qed

definition source_tree :: listing where
  "source_tree = listing [''d''] (os_fs source_os)"

definition tar_machine :: machine where
  "tar_machine = demo_machine\<lparr>mc_tar := (\<lambda>ms closed. if ms = archive source_tree \<and> closed then [''T''] else [])\<rparr>"

definition dir_request :: request where
  "dir_request = demo_request\<lparr>req_path := ''/d'', req_dir := True\<rparr>"

definition tar_services :: services where
  "tar_services = talking_services\<lparr>se_decode := (\<lambda>_. Some dir_request),
     se_untar := (\<lambda>d e. (if d = ''T'' then archive source_tree else [], length d))\<rparr>"

definition dir_stream :: bytes where
  "dir_stream = be32_put (of_nat 1) @ ''T'' @ be32_put 0"

lemma source_facts:
  "good_root ''/d''" "tidy [''d''] (os_fs source_os)" "path_comps ''/d'' = [''d'']" "quiet source_os"
  "nested (base_comps (sv_mir demo_server)) (os_fs served_os)"
  "rel (h_label (tn_host demo_tunnel)) (req_path dir_request) = Inr ''h/d''"
  by code_simp+

lemma tar_send:
  "send_dir tar_machine ''/d'' \<lparr>wr_out = b, wr_left = None\<rparr> source_os =
     ((None, \<lparr>wr_out = b @ be32_put (of_nat 1) @ ''T'', wr_left = None\<rparr>), snd (send_dir tar_machine ''/d'' \<lparr>wr_out = b, wr_left = None\<rparr> source_os))"
proof -
  obtain s ms e w' where p: "pack ''/d'' source_os = ((s, ms), e, w')" by (metis surj_pair)
  have "e = None" "ms = archive source_tree"
    using pack_archive [OF p] source_facts by (simp_all add: source_tree_def)
  then show ?thesis using p
    by (simp add: send_dir_def tar_machine_def cw_write.simps max_chunk_bytes_def wr_write_def)
qed

lemma tar_converse:
  "\<exists>w'. conversation tar_machine demo_options dir_request \<lparr>cn_in = verdict_stream, cn_out = open_writer\<rparr> source_os =
     ((None, \<lparr>wr_out = ''q'' @ newline # dir_stream, wr_left = None\<rparr>), w')"
proof -
  let ?wr = "\<lambda>b. \<lparr>wr_out = b, wr_left = None\<rparr>"
  have same: "next_event tar_machine = next_event demo_machine"
    by (rule ext) (simp add: next_event_def tar_machine_def)
  have w: "write_request (mc_request tar_machine) dir_request open_writer = (None, ?wr (''q'' @ [newline]))"
    by (simp add: write_request_def tar_machine_def demo_machine_def max_header_bytes_def wr_write_def open_writer_def)
  have r: "req_path dir_request = ''/d''" "req_dir dir_request"
    by (simp_all add: dir_request_def)
  have "await_done tar_machine done_line = None"
    by (subst await_done.simps) (simp add: same demo_events(2), simp add: done_ok_def done_to_err_def)
  moreover have "cw_close (?wr b) = (None, ?wr (b @ be32_put 0))" for b
    by (simp add: cw_close_def wr_write_def)
  moreover obtain w' where "send_dir tar_machine ''/d'' (?wr (''q'' @ [newline])) source_os =
      ((None, ?wr ((''q'' @ [newline]) @ be32_put (of_nat 1) @ ''T'')), w')"
    using tar_send by metis
  ultimately show ?thesis
    using r by (simp add: conversation_def w same demo_events(1))
      (simp add: received_event_def dir_stream_def demo_options_def)
qed

lemma tar_answer:
  "fst (serve_slot tar_services demo_server demo_tunnel dir_request ''h/d''
     \<lparr>rd_sched = [0, 2], rd_rest = dir_stream\<rparr> open_writer served_os) = (None, \<lparr>wr_out = verdict_stream, wr_left = None\<rparr>)"
  by code_simp

theorem open_delivers_dir_witness:
  "case handle tar_services demo_server demo_tunnel \<lparr>rd_sched = [0, 2], rd_rest = ''q'' @ newline # dir_stream\<rparr>
      open_writer served_os of ((res, _), _, v) \<Rightarrow>
     res = None \<and> view (os_fs v) [''m'', ''h'', ''d'', ''s'', ''x''] = Some (File ''run'' zero_time True)"
proof -
  let ?rd = "\<lparr>rd_sched = [0, 2], rd_rest = ''q'' @ newline # dir_stream\<rparr>"
  let ?dw = "\<lparr>wr_out = verdict_stream, wr_left = None\<rparr>" and ?cw = "\<lparr>wr_out = ''q'' @ newline # dir_stream, wr_left = None\<rparr>"
  have D: "se_decode tar_services (mc_request tar_machine dir_request @ [newline]) = Some dir_request"
    "newline \<notin> set (mc_request tar_machine dir_request)" "req_dir dir_request" "req_mode dir_request = mode_inline"
    "lo_wait demo_options"
    by (simp_all add: tar_services_def tar_machine_def demo_machine_def dir_request_def demo_request_def sample_request_def
        mode_inline_def demo_options_def newline_def)
  have desk: "se_desktop tar_services = se_desktop (demo_services demo_request)"
    by (simp add: tar_services_def talking_services_def demo_services_def)
  have talk: "\<forall>ev. daemon_event ev \<longrightarrow> understood tar_services tar_machine ev"
    using demo_understood by (simp add: understood_def tar_services_def tar_machine_def)
  have "read_request (se_decode tar_services) (rd_rest ?rd) = (Inr dir_request, dir_stream)"
    using D(1) by (simp add: read_request_def read_slice_def line_index_def newline_def max_header_bytes_def tar_machine_def demo_machine_def)
  moreover have "admit demo_server demo_tunnel dir_request = None" by code_simp
  moreover have "rel (org_label (req_origin dir_request)) (req_path dir_request) = Inr ''h/d''" by code_simp
  ultimately have "fst (handle tar_services demo_server demo_tunnel ?rd open_writer served_os) = (None, ?dw)"
    using tar_answer by (simp add: handle_def)
  then obtain s' v where run: "handle tar_services demo_server demo_tunnel ?rd open_writer served_os = ((None, ?dw), s', v)"
    by (metis prod.collapse)
  obtain w' where conv: "conversation tar_machine demo_options dir_request \<lparr>cn_in = wr_out ?dw, cn_out = open_writer\<rparr> source_os =
      ((None, ?cw), w')" using tar_converse by auto
  have run': "handle tar_services demo_server demo_tunnel \<lparr>rd_sched = [0, 2], rd_rest = wr_out ?cw\<rparr> open_writer served_os =
      ((None, ?dw), s', v)" using run by simp
  have p: "req_path dir_request = ''/d''" by (simp add: dir_request_def)
  have src: "good_root (req_path dir_request)" "tidy (path_comps (req_path dir_request)) (os_fs source_os)"
    using source_facts by (simp_all add: p)
  let ?A = "archive (listing (path_comps (req_path dir_request)) (os_fs source_os))"
  have A: "?A = archive source_tree" by (simp add: p source_facts source_tree_def)
  have tar: "''T'' = concat (mc_tar tar_machine ?A True)" "int (length ''T'') \<le> c_max_payload (sv_cfg demo_server)"
    "fst (se_untar tar_services ''T'' None) = ?A"
    unfolding A by (simp_all add: tar_machine_def tar_services_def demo_server_def)
  have path: "path_comps (m_abs (sv_mir demo_server) ''h/d'') = [''m'', ''h'', ''d'']"
    by (simp add: m_abs_def mirror_abs_def demo_server_def demo_mirror_def path_join_def path_clean_def path_comps_def slash_def)
  have "copied (path_comps (req_path dir_request)) (os_fs source_os) [''s'', ''x''] = Some (File ''run'' zero_time True)"
    by code_simp
  with open_delivers_dir [OF demo_setup(1-5) demo_setup(6) [of _ demo_request, folded desk] source_facts(5) talk D source_facts(6)
      src tar conv run'] show ?thesis
    unfolding run path by (auto dest: spec [where x = "[''s'', ''x'']"])
qed

end
