(* ===== verification/Transition.thy ===== *)
theory Transition
  imports Prelude
begin

text \<open>
  Transition systems whose steps emit observable events, and the interface under which one refines
  another: an invariant of the concrete system and a relation between the states that every step
  keeps. The concurrent parts of the daemon are stated as such systems.
\<close>

inductive runs :: "('s \<Rightarrow> 'e list \<Rightarrow> 's \<Rightarrow> bool) \<Rightarrow> 's \<Rightarrow> 'e list \<Rightarrow> 's \<Rightarrow> bool"
  for step :: "'s \<Rightarrow> 'e list \<Rightarrow> 's \<Rightarrow> bool" where
  runs_nil: "runs step s [] s"
| runs_step: "runs step s tr s' \<Longrightarrow> step s' es s'' \<Longrightarrow> runs step s (tr @ es) s''"

lemma runs_one: "step s es s' \<Longrightarrow> runs step s es s'"
  using runs_step [OF runs_nil, of step s es s'] by simp

lemma runs_trans: "runs step s' tr' s'' \<Longrightarrow> runs step s tr s' \<Longrightarrow> runs step s (tr @ tr') s''"
  by (induction rule: runs.induct) (auto intro: runs_step simp flip: append_assoc)

locale system =
  fixes step :: "'s \<Rightarrow> 'e list \<Rightarrow> 's \<Rightarrow> bool" and init :: 's and inv :: "'s \<Rightarrow> bool"
  assumes inv_init: "inv init"
    and inv_step: "inv s \<Longrightarrow> step s es s' \<Longrightarrow> inv s'"
begin

lemma kept: "runs step s0 tr s \<Longrightarrow> inv s0 \<Longrightarrow> inv s"
  by (induction rule: runs.induct) (auto intro: inv_step)

lemma invariant: "runs step init tr s \<Longrightarrow> inv s"
  by (rule kept [OF _ inv_init])

end

locale refinement = system step init inv
  for step :: "'s \<Rightarrow> 'e list \<Rightarrow> 's \<Rightarrow> bool" and init inv +
  fixes astep :: "'a \<Rightarrow> 'e list \<Rightarrow> 'a \<Rightarrow> bool" and ainit :: 'a and rel :: "'s \<Rightarrow> 'a \<Rightarrow> bool"
  assumes rel_init: "rel init ainit"
    and rel_step: "inv s \<Longrightarrow> rel s a \<Longrightarrow> step s es s' \<Longrightarrow> \<exists>a'. runs astep a es a' \<and> rel s' a'"
begin

lemma simulates: "runs step s0 tr s \<Longrightarrow> inv s0 \<Longrightarrow> rel s0 a0 \<Longrightarrow> \<exists>a. runs astep a0 tr a \<and> rel s a"
proof (induction rule: runs.induct)
  case (runs_nil s)
  then show ?case by (blast intro: runs.runs_nil)
next
  case (runs_step s tr s' es s'')
  then obtain a where a: "runs astep a0 tr a" "rel s' a" by blast
  from rel_step [OF kept [OF runs_step(1,4)] a(2) runs_step(2)] obtain a' where
    "runs astep a es a'" "rel s'' a'" by blast
  with runs_trans [OF this(1) a(1)] show ?case by blast
qed

lemma refines: "runs step init tr s \<Longrightarrow> \<exists>a. runs astep ainit tr a \<and> rel s a"
  by (rule simulates [OF _ inv_init rel_init])

end

end
