(* ===== verification/Keyed_Mutex.thy ===== *)
theory Keyed_Mutex
  imports Transition
begin

text \<open>
  The reference-counted lock per mirror slot, \<open>keyedMutex\<close> of \<open>internal/daemon/server.go\<close>, used by any
  number of threads: the sections under the inner mutex \<open>k.mu\<close> are atomic, taking and giving back the
  slot's own mutex are steps of their own, and the steps of different threads interleave freely. A
  \<open>*refMutex\<close> is an address, so that a thread can hold on to one the map has dropped.
\<close>

record ref_mutex =
  rm_locked :: bool
  rm_refs :: int

datatype pc = Idle | Waiting string nat | Holding string nat | Releasing string nat

record keyed =
  km_locks :: "string \<Rightarrow> nat option"
  km_heap :: "nat \<Rightarrow> ref_mutex"
  km_next :: nat
  km_pc :: "nat \<Rightarrow> pc"

definition km_init :: keyed where
  "km_init = \<lparr>km_locks = (\<lambda>_. None), km_heap = (\<lambda>_. \<lparr>rm_locked = False, rm_refs = 0\<rparr>), km_next = 0, km_pc = (\<lambda>_. Idle)\<rparr>"

subsection \<open>The operations\<close>

text \<open>The section of \<open>Lock\<close> under \<open>k.mu\<close>: find or make the key's mutex and count a reference.\<close>

definition lock_enter :: "string \<Rightarrow> keyed \<Rightarrow> nat \<times> keyed" where
  "lock_enter k s =
     (case km_locks s k of
        None \<Rightarrow>
          (km_next s, s\<lparr>km_locks := (km_locks s)(k := Some (km_next s)),
             km_heap := (km_heap s)(km_next s := \<lparr>rm_locked = False, rm_refs = 1\<rparr>), km_next := Suc (km_next s)\<rparr>)
      | Some rm \<Rightarrow>
          (rm, s\<lparr>km_heap := (km_heap s)(rm := (km_heap s rm)\<lparr>rm_refs := rm_refs (km_heap s rm) + 1\<rparr>)\<rparr>))"

definition set_locked :: "nat \<Rightarrow> bool \<Rightarrow> keyed \<Rightarrow> keyed" where
  "set_locked rm b s = s\<lparr>km_heap := (km_heap s)(rm := (km_heap s rm)\<lparr>rm_locked := b\<rparr>)\<rparr>"

text \<open>The section of the returned unlock function under \<open>k.mu\<close>.\<close>

definition unlock_exit :: "string \<Rightarrow> nat \<Rightarrow> keyed \<Rightarrow> keyed" where
  "unlock_exit k rm s =
     (let n = rm_refs (km_heap s rm) - 1;
          s' = s\<lparr>km_heap := (km_heap s)(rm := (km_heap s rm)\<lparr>rm_refs := n\<rparr>)\<rparr>
      in if n = 0 then s'\<lparr>km_locks := (km_locks s')(k := None)\<rparr> else s')"

definition at :: "nat \<Rightarrow> pc \<Rightarrow> keyed \<Rightarrow> keyed" where
  "at t p s = s\<lparr>km_pc := (km_pc s)(t := p)\<rparr>"

datatype lock_event = Acquired nat string | Released nat string

inductive km_step :: "keyed \<Rightarrow> lock_event list \<Rightarrow> keyed \<Rightarrow> bool" where
  km_enter: "km_pc s t = Idle \<Longrightarrow> lock_enter k s = (rm, s') \<Longrightarrow> km_step s [] (at t (Waiting k rm) s')"
| km_acquire: "km_pc s t = Waiting k rm \<Longrightarrow> \<not> rm_locked (km_heap s rm) \<Longrightarrow>
     km_step s [Acquired t k] (at t (Holding k rm) (set_locked rm True s))"
| km_release: "km_pc s t = Holding k rm \<Longrightarrow>
     km_step s [Released t k] (at t (Releasing k rm) (set_locked rm False s))"
| km_exit: "km_pc s t = Releasing k rm \<Longrightarrow> km_step s [] (at t Idle (unlock_exit k rm s))"

subsection \<open>The invariant\<close>

fun pc_lock :: "pc \<Rightarrow> (string \<times> nat) option" where
  "pc_lock Idle = None"
| "pc_lock (Waiting k rm) = Some (k, rm)"
| "pc_lock (Holding k rm) = Some (k, rm)"
| "pc_lock (Releasing k rm) = Some (k, rm)"

definition users :: "keyed \<Rightarrow> string \<Rightarrow> nat \<Rightarrow> nat set" where
  "users s k rm = {t. pc_lock (km_pc s t) = Some (k, rm)}"

definition km_inv :: "keyed \<Rightarrow> bool" where
  "km_inv s \<longleftrightarrow>
     finite {t. km_pc s t \<noteq> Idle} \<and>
     (\<forall>t k rm. pc_lock (km_pc s t) = Some (k, rm) \<longrightarrow> km_locks s k = Some rm) \<and>
     (\<forall>k rm. km_locks s k = Some rm \<longrightarrow>
        rm < km_next s \<and> rm_refs (km_heap s rm) = int (card (users s k rm)) \<and> users s k rm \<noteq> {} \<and>
        rm_locked (km_heap s rm) = (\<exists>t. km_pc s t = Holding k rm)) \<and>
     (\<forall>k k' rm. km_locks s k = Some rm \<longrightarrow> km_locks s k' = Some rm \<longrightarrow> k = k') \<and>
     (\<forall>t t' k rm. km_pc s t = Holding k rm \<longrightarrow> km_pc s t' = Holding k rm \<longrightarrow> t = t')"

lemma km_invI:
  assumes "finite {t. km_pc s t \<noteq> Idle}"
    and "\<And>t k rm. pc_lock (km_pc s t) = Some (k, rm) \<Longrightarrow> km_locks s k = Some rm"
    and "\<And>k rm. km_locks s k = Some rm \<Longrightarrow> rm < km_next s"
    and "\<And>k rm. km_locks s k = Some rm \<Longrightarrow> rm_refs (km_heap s rm) = int (card (users s k rm))"
    and "\<And>k rm. km_locks s k = Some rm \<Longrightarrow> users s k rm \<noteq> {}"
    and "\<And>k rm. km_locks s k = Some rm \<Longrightarrow> rm_locked (km_heap s rm) = (\<exists>t. km_pc s t = Holding k rm)"
    and "\<And>k k' rm. km_locks s k = Some rm \<Longrightarrow> km_locks s k' = Some rm \<Longrightarrow> k = k'"
    and "\<And>t t' k rm. km_pc s t = Holding k rm \<Longrightarrow> km_pc s t' = Holding k rm \<Longrightarrow> t = t'"
  shows "km_inv s"
  using assms unfolding km_inv_def by blast

lemma km_invD:
  assumes "km_inv s"
  shows "finite {t. km_pc s t \<noteq> Idle}"
    and "pc_lock (km_pc s t) = Some (k, rm) \<Longrightarrow> km_locks s k = Some rm"
    and "km_locks s k = Some rm \<Longrightarrow> rm < km_next s"
    and "km_locks s k = Some rm \<Longrightarrow> rm_refs (km_heap s rm) = int (card (users s k rm))"
    and "km_locks s k = Some rm \<Longrightarrow> users s k rm \<noteq> {}"
    and "km_locks s k = Some rm \<Longrightarrow> rm_locked (km_heap s rm) = (\<exists>t. km_pc s t = Holding k rm)"
    and "km_locks s k = Some rm \<Longrightarrow> km_locks s k' = Some rm \<Longrightarrow> k = k'"
    and "km_pc s t = Holding k rm \<Longrightarrow> km_pc s t' = Holding k rm \<Longrightarrow> t = t'"
  using assms unfolding km_inv_def by blast+

lemma users_finite: "km_inv s \<Longrightarrow> finite (users s k rm)"
  by (rule finite_subset [OF _ km_invD(1)]) (auto simp: users_def)

lemma users_at:
  "users (at t p s) k rm = (if pc_lock p = Some (k, rm) then insert t (users s k rm) else users s k rm - {t})"
  by (auto simp: users_def at_def)

lemma at_simps [simp]:
  "km_locks (at t p s) = km_locks s" "km_heap (at t p s) = km_heap s" "km_next (at t p s) = km_next s"
  "km_pc (at t p s) = (km_pc s)(t := p)"
  by (simp_all add: at_def)

lemma set_locked_simps [simp]:
  "km_locks (set_locked rm b s) = km_locks s" "km_next (set_locked rm b s) = km_next s"
  "km_pc (set_locked rm b s) = km_pc s"
  "km_heap (set_locked rm b s) = (km_heap s)(rm := (km_heap s rm)\<lparr>rm_locked := b\<rparr>)"
  by (simp_all add: set_locked_def)

lemma unlock_exit_simps [simp]:
  "km_pc (unlock_exit k rm s) = km_pc s" "km_next (unlock_exit k rm s) = km_next s"
  by (simp_all add: unlock_exit_def Let_def)

lemma active_at: "finite {u. km_pc s u \<noteq> Idle} \<Longrightarrow> finite {u. ((km_pc s)(t := p)) u \<noteq> Idle}"
  by (rule finite_subset [of _ "insert t {u. km_pc s u \<noteq> Idle}"]) auto

fun is_holding :: "pc \<Rightarrow> bool" where
  "is_holding (Holding k rm) = True"
| "is_holding _ = False"

lemma holding_at:
  "\<not> is_holding (km_pc s t) \<Longrightarrow> \<not> is_holding p \<Longrightarrow>
   (((km_pc s)(t := p)) u = Holding k r) = (km_pc s u = Holding k r)"
  by auto

lemma km_inv_init: "km_inv km_init"
  by (auto simp: km_inv_def km_init_def)

lemma km_inv_enter:
  assumes inv: "km_inv s" and idle: "km_pc s t = Idle" and enter: "lock_enter k s = (rm, s')"
  shows "km_inv (at t (Waiting k rm) s')"
proof (cases "km_locks s k")
  case None
  then have rm: "rm = km_next s" "km_locks s' = (km_locks s)(k := Some rm)"
    "km_heap s' = (km_heap s)(rm := \<lparr>rm_locked = False, rm_refs = 1\<rparr>)" "km_next s' = Suc rm" "km_pc s' = km_pc s"
    using enter by (auto simp: lock_enter_def)
  have fresh: "km_locks s k' \<noteq> Some rm" for k' using km_invD(3) [OF inv, of k' rm] rm(1) by auto
  have nobody: "pc_lock (km_pc s u) \<noteq> Some (k', rm)" for u k' using km_invD(2) [OF inv] fresh by blast
  have none: "pc_lock (km_pc s u) \<noteq> Some (k, r)" for u r using km_invD(2) [OF inv, of u k r] None by auto
  have users: "users (at t (Waiting k rm) s') k' r = (if k' = k \<and> r = rm then {t} else users s k' r)"
    if "km_locks s' k' = Some r" for k' r
    using that rm(5) nobody none idle by (auto simp: users_def)
  show ?thesis
  proof (rule km_invI)
    show "finite {u. km_pc (at t (Waiting k rm) s') u \<noteq> Idle}"
      using active_at [OF km_invD(1) [OF inv]] rm(5) by simp
  next
    fix u k' r assume "pc_lock (km_pc (at t (Waiting k rm) s') u) = Some (k', r)"
    then show "km_locks (at t (Waiting k rm) s') k' = Some r"
      using km_invD(2) [OF inv, of u k' r] rm none by (auto split: if_splits)
  next
    fix k' r assume l: "km_locks (at t (Waiting k rm) s') k' = Some r"
    then show "r < km_next (at t (Waiting k rm) s')" using rm km_invD(3) [OF inv, of k' r] by (auto split: if_splits)
    show "rm_refs (km_heap (at t (Waiting k rm) s') r) = int (card (users (at t (Waiting k rm) s') k' r))"
      using l users [of k' r] rm km_invD(4) [OF inv, of k' r] fresh by (auto split: if_splits)
    show "users (at t (Waiting k rm) s') k' r \<noteq> {}"
      using l users [of k' r] rm km_invD(5) [OF inv, of k' r] by (auto split: if_splits)
    show "rm_locked (km_heap (at t (Waiting k rm) s') r) = (\<exists>u. km_pc (at t (Waiting k rm) s') u = Holding k' r)"
    proof (cases "k' = k")
      case True
      have "km_pc s u \<noteq> Holding k rm" for u using none [of u rm] by auto
      then show ?thesis using True l rm by auto
    next
      case False
      then have "km_locks s k' = Some r" "r \<noteq> rm" using l rm(2) fresh [of k'] by auto
      then show ?thesis using km_invD(6) [OF inv, of k' r] rm(3,5) holding_at [of s t "Waiting k rm"] idle by simp
    qed
  next
    fix k' k'' r assume "km_locks (at t (Waiting k rm) s') k' = Some r" "km_locks (at t (Waiting k rm) s') k'' = Some r"
    then show "k' = k''" using km_invD(7) [OF inv, of k' r k''] rm fresh by (auto split: if_splits)
  next
    fix u u' k' r assume "km_pc (at t (Waiting k rm) s') u = Holding k' r" "km_pc (at t (Waiting k rm) s') u' = Holding k' r"
    then show "u = u'" using km_invD(8) [OF inv, of u k' r u'] rm by (auto split: if_splits)
  qed
next
  case (Some r0)
  then have rm: "rm = r0" "km_locks s' = km_locks s" "km_next s' = km_next s" "km_pc s' = km_pc s"
    "km_heap s' = (km_heap s)(rm := (km_heap s rm)\<lparr>rm_refs := rm_refs (km_heap s rm) + 1\<rparr>)"
    using enter by (auto simp: lock_enter_def)
  have users: "users (at t (Waiting k rm) s') k' r = (if k' = k \<and> r = rm then insert t (users s k' r) else users s k' r)"
    for k' r
    using rm(4) idle by (auto simp: users_def)
  have t: "t \<notin> users s k rm" using idle by (simp add: users_def)
  show ?thesis
  proof (rule km_invI)
    show "finite {u. km_pc (at t (Waiting k rm) s') u \<noteq> Idle}"
      using active_at [OF km_invD(1) [OF inv]] rm(4) by simp
  next
    fix u k' r assume "pc_lock (km_pc (at t (Waiting k rm) s') u) = Some (k', r)"
    then show "km_locks (at t (Waiting k rm) s') k' = Some r"
      using km_invD(2) [OF inv, of u k' r] rm Some by (auto split: if_splits)
  next
    fix k' r assume l: "km_locks (at t (Waiting k rm) s') k' = Some r"
    then have l': "km_locks s k' = Some r" using rm by simp
    then have same: "r = rm \<longleftrightarrow> k' = k" using Some rm(1) km_invD(7) [OF inv, of k' r k] by auto
    show "r < km_next (at t (Waiting k rm) s')" using rm km_invD(3) [OF inv l'] by simp
    show "rm_refs (km_heap (at t (Waiting k rm) s') r) = int (card (users (at t (Waiting k rm) s') k' r))"
      using users [of k' r] rm(5) km_invD(4) [OF inv l'] same t users_finite [OF inv, of k rm] by auto
    show "users (at t (Waiting k rm) s') k' r \<noteq> {}" using users [of k' r] km_invD(5) [OF inv l'] by auto
    show "rm_locked (km_heap (at t (Waiting k rm) s') r) = (\<exists>u. km_pc (at t (Waiting k rm) s') u = Holding k' r)"
      using rm(4,5) km_invD(6) [OF inv l'] holding_at [of s t "Waiting k rm"] idle by auto
  next
    fix k' k'' r assume "km_locks (at t (Waiting k rm) s') k' = Some r" "km_locks (at t (Waiting k rm) s') k'' = Some r"
    then show "k' = k''" using km_invD(7) [OF inv, of k' r k''] rm by simp
  next
    fix u u' k' r assume "km_pc (at t (Waiting k rm) s') u = Holding k' r" "km_pc (at t (Waiting k rm) s') u' = Holding k' r"
    then show "u = u'" using km_invD(8) [OF inv, of u k' r u'] rm by (auto split: if_splits)
  qed
qed

text \<open>Taking or giving back the key's own mutex: no reference and no map entry changes.\<close>

lemma km_inv_mutex:
  assumes inv: "km_inv s" and pc: "pc_lock (km_pc s t) = Some (k, rm)" "pc_lock p = Some (k, rm)"
    and own: "\<And>u. ((km_pc s)(t := p)) u = Holding k rm \<Longrightarrow> b \<and> u = t" and b: "b \<Longrightarrow> p = Holding k rm"
  shows "km_inv (at t p (set_locked rm b s))"
proof -
  let ?s = "at t p (set_locked rm b s)"
  have lk: "km_locks s k = Some rm" by (rule km_invD(2) [OF inv pc(1)])
  have users: "users ?s k' r = users s k' r" for k' r
    using pc by (auto simp: users_def)
  have other: "km_pc ?s u = Holding k' r \<longleftrightarrow> km_pc s u = Holding k' r" if "r \<noteq> rm" for u k' r
    using that pc by auto
  have owner: "(\<exists>u. km_pc ?s u = Holding k rm) = b"
  proof
    assume "\<exists>u. km_pc ?s u = Holding k rm"
    then obtain u where "((km_pc s)(t := p)) u = Holding k rm" by (auto simp del: fun_upd_apply)
    then show b using own by blast
  next
    assume b
    then have "km_pc ?s t = Holding k rm" using b by simp
    then show "\<exists>u. km_pc ?s u = Holding k rm" by blast
  qed
  show ?thesis
  proof (rule km_invI)
    show "finite {u. km_pc ?s u \<noteq> Idle}" using active_at [OF km_invD(1) [OF inv]] by simp
  next
    fix u k' r assume "pc_lock (km_pc ?s u) = Some (k', r)"
    then show "km_locks ?s k' = Some r" using km_invD(2) [OF inv, of u k' r] lk pc(2) by (auto split: if_splits)
  next
    fix k' r assume l: "km_locks ?s k' = Some r"
    then have l': "km_locks s k' = Some r" by simp
    show "r < km_next ?s" using km_invD(3) [OF inv l'] by simp
    show "rm_refs (km_heap ?s r) = int (card (users ?s k' r))" using users km_invD(4) [OF inv l'] by auto
    show "users ?s k' r \<noteq> {}" using users km_invD(5) [OF inv l'] by simp
    show "rm_locked (km_heap ?s r) = (\<exists>u. km_pc ?s u = Holding k' r)"
    proof (cases "r = rm")
      case True
      then have "k' = k" using l' lk km_invD(7) [OF inv] by blast
      then show ?thesis using True owner by simp
    next
      case False
      then show ?thesis using km_invD(6) [OF inv l'] other [OF False] by simp
    qed
  next
    fix k' k'' r assume "km_locks ?s k' = Some r" "km_locks ?s k'' = Some r"
    then show "k' = k''" using km_invD(7) [OF inv, of k' r k''] by simp
  next
    fix u u' k' r assume h: "km_pc ?s u = Holding k' r" "km_pc ?s u' = Holding k' r"
    show "u = u'"
    proof (cases "r = rm")
      case True
      have "pc_lock (km_pc ?s u) = Some (k', r)" using h(1) by simp
      then have "km_locks s k' = Some rm" using km_invD(2) [OF inv, of u k' r] lk pc(2) True by (auto split: if_splits)
      then have "k' = k" using lk km_invD(7) [OF inv] by blast
      then have "((km_pc s)(t := p)) u = Holding k rm" "((km_pc s)(t := p)) u' = Holding k rm"
        using h True by (simp_all only: at_simps set_locked_simps)
      then show ?thesis using own by blast
    next
      case False
      then show ?thesis using h other [OF False] km_invD(8) [OF inv] by blast
    qed
  qed
qed

lemma km_inv_exit:
  assumes inv: "km_inv s" and pc: "km_pc s t = Releasing k rm"
  shows "km_inv (at t Idle (unlock_exit k rm s))"
proof -
  let ?s = "at t Idle (unlock_exit k rm s)" and ?n = "rm_refs (km_heap s rm) - 1"
  have lk: "km_locks s k = Some rm" using km_invD(2) [OF inv, of t k rm] pc by simp
  have t: "t \<in> users s k rm" using pc by (simp add: users_def)
  have users: "users ?s k' r = (if k' = k \<and> r = rm then users s k rm - {t} else users s k' r)" for k' r
    using pc by (auto simp: users_def unlock_exit_def Let_def)
  have fin: "finite (users s k rm)" by (rule users_finite [OF inv])
  have n: "?n = int (card (users s k rm - {t}))"
    using km_invD(4) [OF inv lk] t fin by (simp add: card_Diff_singleton) (metis card_gt_0_iff empty_iff of_nat_1 of_nat_diff Suc_leI One_nat_def)
  have st: "km_heap ?s = (km_heap s)(rm := (km_heap s rm)\<lparr>rm_refs := ?n\<rparr>)" "km_next ?s = km_next s"
    "km_pc ?s = (km_pc s)(t := Idle)" "km_locks ?s = (if ?n = 0 then (km_locks s)(k := None) else km_locks s)"
    by (simp_all add: unlock_exit_def Let_def)
  have gone: "users s k rm = {t}" if "?n = 0"
  proof -
    have "card (users s k rm - {t}) = 0" using that n by linarith
    then have "users s k rm - {t} = {}" using fin by (simp only: card_0_eq finite_Diff)
    then show ?thesis using t by blast
  qed
  have sub: "km_locks s k' = Some r" if "km_locks ?s k' = Some r" for k' r
    using that [unfolded st(4)] by (auto split: if_splits)
  have left: "users ?s k' r \<noteq> {}" if "km_locks ?s k' = Some r" for k' r
  proof (cases "k' = k \<and> r = rm")
    case True
    then have "?n \<noteq> 0" using that st(4) by auto
    then show ?thesis using users [of k' r] True n fin by (auto simp: card_gt_0_iff)
  next
    case False
    then show ?thesis using users [of k' r] km_invD(5) [OF inv sub [OF that]] by auto
  qed
  have hold: "km_pc ?s u = Holding k' r \<longleftrightarrow> km_pc s u = Holding k' r" for u k' r
    using pc st(3) by auto
  show ?thesis
  proof (rule km_invI)
    show "finite {u. km_pc ?s u \<noteq> Idle}" using active_at [OF km_invD(1) [OF inv]] st(3) by simp
  next
    fix u k' r assume u: "pc_lock (km_pc ?s u) = Some (k', r)"
    then have u': "u \<noteq> t" "pc_lock (km_pc s u) = Some (k', r)" by (auto split: if_splits)
    note l = km_invD(2) [OF inv u'(2)]
    have "?n \<noteq> 0 \<or> k' \<noteq> k"
    proof (rule ccontr)
      assume "\<not> (?n \<noteq> 0 \<or> k' \<noteq> k)"
      then have "users s k rm = {t}" "k' = k" using gone by simp_all
      moreover have "u \<in> users s k' r" using u'(2) by (simp add: users_def)
      moreover have "r = rm" using l lk calculation(2) by simp
      ultimately have "u = t" by blast
      then show False using u'(1) by simp
    qed
    then show "km_locks ?s k' = Some r" unfolding st(4) using l by auto
  next
    fix k' r assume l: "km_locks ?s k' = Some r"
    note l' = sub [OF l]
    have same: "r = rm \<longleftrightarrow> k' = k" using lk l' km_invD(7) [OF inv, of k' r k] by auto
    show "r < km_next ?s" using st(2) km_invD(3) [OF inv l'] by simp
    show "rm_refs (km_heap ?s r) = int (card (users ?s k' r))"
      using users [of k' r] st(1) n same km_invD(4) [OF inv l'] by auto
    show "users ?s k' r \<noteq> {}" by (rule left [OF l])
    show "rm_locked (km_heap ?s r) = (\<exists>u. km_pc ?s u = Holding k' r)"
      unfolding hold using st(1) km_invD(6) [OF inv l'] by auto
  next
    fix k' k'' r assume "km_locks ?s k' = Some r" "km_locks ?s k'' = Some r"
    then show "k' = k''" using sub km_invD(7) [OF inv] by blast
  next
    fix u u' k' r assume "km_pc ?s u = Holding k' r" "km_pc ?s u' = Holding k' r"
    then show "u = u'" unfolding hold using km_invD(8) [OF inv] by blast
  qed
qed

lemma km_inv_step: "km_inv s \<Longrightarrow> km_step s es s' \<Longrightarrow> km_inv s'"
proof (erule km_step.cases)
  fix s0 t k rm s0'
  assume "km_inv s" "s = s0" "s' = at t (Waiting k rm) s0'" "km_pc s0 t = Idle" "lock_enter k s0 = (rm, s0')"
  then show "km_inv s'" using km_inv_enter by blast
next
  fix s0 t k rm
  assume h: "km_inv s" "s = s0" "s' = at t (Holding k rm) (set_locked rm True s0)" "km_pc s0 t = Waiting k rm"
    "\<not> rm_locked (km_heap s0 rm)"
  then have "km_locks s k = Some rm" using km_invD(2) [OF h(1), of t k rm] by simp
  then have "km_pc s u \<noteq> Holding k rm" for u using km_invD(6) [OF h(1), of k rm] h(2,5) by blast
  then have "((km_pc s)(t := Holding k rm)) u = Holding k rm \<Longrightarrow> True \<and> u = t" for u by (simp split: if_splits)
  from km_inv_mutex [OF h(1) _ _ this] h(2-4) show "km_inv s'" by simp
next
  fix s0 t k rm
  assume h: "km_inv s" "s = s0" "s' = at t (Releasing k rm) (set_locked rm False s0)" "km_pc s0 t = Holding k rm"
  then have "u = t" if "km_pc s u = Holding k rm" for u using that km_invD(8) [OF h(1), of u k rm t] by simp
  then have "((km_pc s)(t := Releasing k rm)) u = Holding k rm \<Longrightarrow> False \<and> u = t" for u by (auto split: if_splits)
  from km_inv_mutex [OF h(1) _ _ this] h(2-4) show "km_inv s'" by simp
next
  fix s0 t k rm
  assume "km_inv s" "s = s0" "s' = at t Idle (unlock_exit k rm s0)" "km_pc s0 t = Releasing k rm"
  then show "km_inv s'" using km_inv_exit by blast
qed

subsection \<open>A lock per key\<close>

text \<open>
  What the daemon relies on: a key's lock is taken only when nobody has it, and given back only by
  the thread that has it.
\<close>

inductive lock_step :: "(string \<Rightarrow> nat option) \<Rightarrow> lock_event list \<Rightarrow> (string \<Rightarrow> nat option) \<Rightarrow> bool" where
  lock_take: "own k = None \<Longrightarrow> lock_step own [Acquired t k] (own(k := Some t))"
| lock_give: "own k = Some t \<Longrightarrow> lock_step own [Released t k] (own(k := None))"

definition owned :: "keyed \<Rightarrow> (string \<Rightarrow> nat option) \<Rightarrow> bool" where
  "owned s own \<longleftrightarrow> (\<forall>k t. own k = Some t \<longleftrightarrow> (\<exists>rm. km_pc s t = Holding k rm))"

lemma lock_enter_pc: "lock_enter k s = (rm, s') \<Longrightarrow> km_pc s' = km_pc s"
  by (auto simp: lock_enter_def split: option.splits)

lemma owned_at:
  "\<not> is_holding (km_pc s t) \<Longrightarrow> \<not> is_holding p \<Longrightarrow> km_pc s' = km_pc s \<Longrightarrow> owned (at t p s') own = owned s own"
  by (simp add: owned_def holding_at del: fun_upd_apply)

lemma owned_step:
  assumes "km_inv s" "owned s own" "km_step s es s'"
  shows "\<exists>own'. runs lock_step own es own' \<and> owned s' own'"
  using assms(3)
proof cases
  case (km_enter t k rm s1)
  have "owned (at t (Waiting k rm) s1) own = owned s own"
    by (rule owned_at) (simp_all add: km_enter(3) lock_enter_pc [OF km_enter(4)])
  then show ?thesis using runs_nil [of lock_step own] km_enter(1,2) assms(2) by auto
next
  case (km_acquire t k rm)
  have lk: "km_locks s k = Some rm" using km_invD(2) [OF assms(1), of t k rm] km_acquire(3) by simp
  have "own k = None"
  proof (rule ccontr)
    assume "own k \<noteq> None"
    then obtain u r where u: "km_pc s u = Holding k r" using assms(2) by (auto simp: owned_def)
    then have "r = rm" using km_invD(2) [OF assms(1), of u k r] lk by simp
    then show False using u km_acquire(4) km_invD(6) [OF assms(1) lk] by blast
  qed
  moreover have "km_pc s u \<noteq> Holding k r" for u r
    using assms(2) \<open>own k = None\<close> by (metis option.distinct(1) owned_def)
  then have "owned s' (own(k := Some t))"
    using assms(2) km_acquire by (auto simp: owned_def)
  ultimately show ?thesis using runs_one [where step = lock_step, OF lock_take] km_acquire(1) by blast
next
  case (km_release t k rm)
  then have "own k = Some t" using assms(2) by (auto simp: owned_def)
  moreover have "km_pc s u \<noteq> Holding k r" if "u \<noteq> t" for u r
    using assms(2) \<open>own k = Some t\<close> that by (metis option.inject owned_def)
  then have "owned s' (own(k := None))"
    using assms(2) km_release by (auto simp: owned_def)
  ultimately show ?thesis using runs_one [where step = lock_step, OF lock_give] km_release(1) by blast
next
  case (km_exit t k rm)
  have "owned (at t Idle (unlock_exit k rm s)) own = owned s own"
    by (rule owned_at) (simp_all add: km_exit(3))
  then show ?thesis using runs_nil [of lock_step own] km_exit(1,2) assms(2) by auto
qed

interpretation km: refinement km_step km_init km_inv lock_step "\<lambda>_. None" owned
  using km_inv_init km_inv_step owned_step by unfold_locales (auto simp: owned_def km_init_def)

subsection \<open>Properties\<close>

text \<open>
  C8: however the threads interleave, the keyed mutex behaves as one simple lock per key: the
  sequence of acquisitions and releases it allows is one that the abstract locks allow, and the
  holders are the abstract owners. In particular two requests never hold the same slot.
\<close>

theorem keyed_mutex_refines_locks:
  assumes "runs km_step km_init tr s"
  shows "\<exists>own. runs lock_step (\<lambda>_. None) tr own \<and>
    (\<forall>k t. own k = Some t \<longleftrightarrow> (\<exists>rm. km_pc s t = Holding k rm))"
  using km.refines [OF assms] by (simp add: owned_def)

text \<open>
  C18: in every reachable state the map has an entry for a key exactly when some thread is using that
  key, so it never outgrows the number of active requests; and a thread that waits can go on as soon
  as no other holds its key.
\<close>

theorem keyed_mutex_bounded:
  assumes "runs km_step km_init tr s"
  shows "(\<forall>k. km_locks s k \<noteq> None \<longleftrightarrow> (\<exists>t rm. pc_lock (km_pc s t) = Some (k, rm))) \<and>
    finite (dom (km_locks s)) \<and> card (dom (km_locks s)) \<le> card {t. km_pc s t \<noteq> Idle} \<and>
    (\<forall>t k rm. km_pc s t = Waiting k rm \<and> (\<forall>u r. km_pc s u \<noteq> Holding k r) \<longrightarrow>
       km_step s [Acquired t k] (at t (Holding k rm) (set_locked rm True s)))"
proof -
  note inv = km.invariant [OF assms]
  have entry: "km_locks s k \<noteq> None \<longleftrightarrow> (\<exists>t rm. pc_lock (km_pc s t) = Some (k, rm))" for k
    using km_invD(2,5) [OF inv] by (fastforce simp: users_def)
  let ?A = "{t. km_pc s t \<noteq> Idle}" and ?key = "\<lambda>t. fst (the (pc_lock (km_pc s t)))"
  have "dom (km_locks s) \<subseteq> ?key ` ?A"
  proof
    fix k assume "k \<in> dom (km_locks s)"
    then obtain t rm where t: "pc_lock (km_pc s t) = Some (k, rm)" using entry by blast
    then have "km_pc s t \<noteq> Idle" by auto
    then show "k \<in> ?key ` ?A" using t by (intro image_eqI [of _ _ t]) simp_all
  qed
  then have "finite (dom (km_locks s))" "card (dom (km_locks s)) \<le> card ?A"
    using km_invD(1) [OF inv] by (auto intro: finite_subset [OF _ finite_imageI] surj_card_le)
  moreover have "km_step s [Acquired t k] (at t (Holding k rm) (set_locked rm True s))"
    if w: "km_pc s t = Waiting k rm" "\<forall>u r. km_pc s u \<noteq> Holding k r" for t k rm
  proof -
    have "km_locks s k = Some rm" using km_invD(2) [OF inv, of t k rm] w(1) by simp
    then have "\<not> rm_locked (km_heap s rm)" using km_invD(6) [OF inv] w(2) by blast
    then show ?thesis by (rule km_step.km_acquire [OF w(1)])
  qed
  ultimately show ?thesis using entry by blast
qed

text \<open>Two threads on one slot: the second enters while the first holds it, and waits.\<close>

definition two_waiting :: keyed where
  "two_waiting = at 2 (Waiting ''h/x'' 0) (snd (lock_enter ''h/x''
     (at 1 (Holding ''h/x'' 0) (set_locked 0 True (at 1 (Waiting ''h/x'' 0) (snd (lock_enter ''h/x'' km_init)))))))"

lemma two_waiting_run: "runs km_step km_init [Acquired 1 ''h/x''] two_waiting"
proof -
  let ?s1 = "at 1 (Waiting ''h/x'' 0) (snd (lock_enter ''h/x'' km_init))"
  let ?s2 = "at 1 (Holding ''h/x'' 0) (set_locked 0 True ?s1)"
  have 1: "km_step km_init [] ?s1"
    by (rule km_step.km_enter) (simp_all add: km_init_def lock_enter_def)
  have 2: "km_step ?s1 [Acquired 1 ''h/x''] ?s2"
    by (rule km_step.km_acquire) (simp_all add: km_init_def lock_enter_def)
  have 3: "km_step ?s2 [] two_waiting"
    unfolding two_waiting_def by (rule km_step.km_enter) (simp_all add: km_init_def lock_enter_def)
  have r1: "runs km_step km_init [] ?s1" using 1 by (rule runs_one)
  have r2: "runs km_step km_init [Acquired 1 ''h/x''] ?s2"
    using runs_step [where step = km_step and tr = "[]" and es = "[Acquired 1 ''h/x'']", OF r1 2] by simp
  show ?thesis
    using runs_step [where step = km_step and tr = "[Acquired 1 ''h/x'']" and es = "[]", OF r2 3] by simp
qed

lemma two_waiting_pc: "km_pc two_waiting 1 = Holding ''h/x'' 0" "km_pc two_waiting 2 = Waiting ''h/x'' 0"
  by (simp_all add: two_waiting_def km_init_def lock_enter_def)

theorem keyed_mutex_refines_locks_witness: "\<exists>own. runs lock_step (\<lambda>_. None) [Acquired 1 ''h/x''] own \<and> own ''h/x'' = Some 1"
  using keyed_mutex_refines_locks [OF two_waiting_run] two_waiting_pc by blast

theorem keyed_mutex_bounded_witness: "km_locks two_waiting ''h/x'' \<noteq> None \<and> km_locks two_waiting ''h/y'' = None"
proof -
  have "pc_lock (km_pc two_waiting t) \<noteq> Some (''h/y'', rm)" for t rm
    by (simp add: two_waiting_def km_init_def lock_enter_def)
  moreover have "pc_lock (km_pc two_waiting 1) = Some (''h/x'', 0)" by (simp only: two_waiting_pc pc_lock.simps)
  ultimately show ?thesis using keyed_mutex_bounded [OF two_waiting_run, THEN conjunct1] by blast
qed

end
