(* ===== verification/Accept.thy ===== *)
theory Accept
  imports Server Transition "HOL-Library.Multiset"
begin

text \<open>
  The accept loops, \<open>Server.acceptLoop\<close> of \<open>internal/daemon/server.go\<close>: one loop per tunnel and one
  goroutine per connection, with the channel \<open>sem\<close> as a counting semaphore of \<open>maxConcurrentRequests\<close>
  slots that all loops share. What a handler does is left open here; its end gives the slot back.
\<close>

text \<open>A loop waits in \<open>Accept\<close>, or holds a connection and waits for a slot or the end, or has returned.\<close>

datatype apc = Accepting | Blocked | Returned

record accepts =
  ac_loop :: "nat \<Rightarrow> apc"
  ac_sem :: nat
  ac_running :: "nat multiset"
  ac_cancelled :: bool

datatype accept_event = Begun nat | Ended nat

definition ac_init :: accepts where
  "ac_init = \<lparr>ac_loop = (\<lambda>_. Accepting), ac_sem = 0, ac_running = {#}, ac_cancelled = False\<rparr>"

definition set_loop :: "nat \<Rightarrow> apc \<Rightarrow> accepts \<Rightarrow> accepts" where
  "set_loop l a s = s\<lparr>ac_loop := (ac_loop s)(l := a)\<rparr>"

text \<open>\<open>s.sem <- struct{}{}\<close> and the start of the goroutine.\<close>

definition begin_request :: "nat \<Rightarrow> accepts \<Rightarrow> accepts" where
  "begin_request l s = s\<lparr>ac_sem := ac_sem s + 1, ac_running := add_mset l (ac_running s)\<rparr>"

text \<open>The deferred \<open><-s.sem\<close> of the goroutine.\<close>

definition end_request :: "nat \<Rightarrow> accepts \<Rightarrow> accepts" where
  "end_request l s = s\<lparr>ac_sem := ac_sem s - 1, ac_running := ac_running s - {#l#}\<rparr>"

inductive accept_step :: "accepts \<Rightarrow> accept_event list \<Rightarrow> accepts \<Rightarrow> bool" where
  ac_accept: "ac_loop s l = Accepting \<Longrightarrow> accept_step s [] (set_loop l Blocked s)"
| ac_closed: "ac_loop s l = Accepting \<Longrightarrow> accept_step s [] (set_loop l Returned s)"
| ac_slot: "ac_loop s l = Blocked \<Longrightarrow> ac_sem s < max_concurrent_requests \<Longrightarrow>
     accept_step s [Begun l] (begin_request l (set_loop l Accepting s))"
| ac_done: "ac_loop s l = Blocked \<Longrightarrow> ac_cancelled s \<Longrightarrow> accept_step s [] (set_loop l Returned s)"
| ac_end: "l \<in># ac_running s \<Longrightarrow> accept_step s [Ended l] (end_request l s)"
| ac_cancel: "accept_step s [] (s\<lparr>ac_cancelled := True\<rparr>)"

inductive_cases accept_stepE: "accept_step s es s'"

definition ac_inv :: "accepts \<Rightarrow> bool" where
  "ac_inv s \<longleftrightarrow> ac_sem s = size (ac_running s) \<and> ac_sem s \<le> max_concurrent_requests"

lemma ac_inv_step: "ac_inv s \<Longrightarrow> accept_step s es s' \<Longrightarrow> ac_inv s'"
  by (erule accept_stepE)
    (auto simp: ac_inv_def set_loop_def begin_request_def end_request_def size_Diff_singleton)

interpretation ac: system accept_step ac_init ac_inv
proof
  show "ac_inv ac_init" by (simp add: ac_inv_def ac_init_def)
qed (rule ac_inv_step)

text \<open>The requests in flight, told from the events alone.\<close>

fun in_flight :: "accept_event list \<Rightarrow> nat multiset" where
  "in_flight [] = {#}"
| "in_flight (Begun l # es) = add_mset l (in_flight es)"
| "in_flight (Ended l # es) = in_flight es - {#l#}"

lemma running_events: "runs accept_step s tr s' \<Longrightarrow> s = ac_init \<Longrightarrow> ac_running s' = in_flight (rev tr)"
proof (induction rule: runs.induct)
  case (runs_step s tr s' es s'')
  from runs_step(2) show ?case
    by (rule accept_stepE) (use runs_step in \<open>auto simp: set_loop_def begin_request_def end_request_def\<close>)
qed (simp add: ac_init_def)

lemma slot_run:
  "ac_loop s l = Blocked \<Longrightarrow> ac_sem s < max_concurrent_requests \<Longrightarrow>
     runs accept_step s [Begun l] (begin_request l (set_loop l Accepting s))"
  by (rule runs_one) (rule ac_slot)

lemma end_run: "l \<in># ac_running s \<Longrightarrow> runs accept_step s [Ended l] (end_request l s)"
  by (rule runs_one) (rule ac_end)

lemma slot_frees:
  assumes "ac_inv s" and "ac_loop s l = Blocked"
  shows "\<exists>tr s'. runs accept_step s tr s' \<and> Begun l \<in> set tr \<and> length tr \<le> 2"
proof (cases "ac_sem s < max_concurrent_requests")
  case True
  from slot_run [OF assms(2) this] show ?thesis by (metis list.set_intros(1) length_Cons list.size(3) one_le_numeral One_nat_def)
next
  case False
  then have "ac_running s \<noteq> {#}" "ac_sem s = max_concurrent_requests"
    using assms(1) by (auto simp: ac_inv_def max_concurrent_requests_def)
  then obtain m where m: "m \<in># ac_running s" by blast
  let ?s = "end_request m s"
  have "ac_loop ?s l = Blocked" "ac_sem ?s < max_concurrent_requests"
    using assms \<open>ac_sem s = _\<close> by (simp_all add: end_request_def max_concurrent_requests_def)
  from runs_trans [OF slot_run [OF this] end_run [OF m]] show ?thesis by (intro exI conjI) auto
qed

subsection \<open>Properties\<close>

text \<open>
  C19: whatever the peers do, at most eight requests have begun and not ended at any time, over all
  tunnels together; and a connection that waits for a slot is never stuck: it gets one at once, or as
  soon as one of the running requests ends.
\<close>

theorem accept_bounded:
  assumes "runs accept_step ac_init tr s"
  shows "size (in_flight (rev tr)) \<le> 8 \<and> ac_sem s = size (in_flight (rev tr)) \<and>
    (\<forall>l. ac_loop s l = Blocked \<longrightarrow>
       (\<exists>tr' s'. runs accept_step s tr' s' \<and> Begun l \<in> set tr' \<and> length tr' \<le> 2))"
  using ac.invariant [OF assms] running_events [OF assms HOL.refl] slot_frees
  by (auto simp: ac_inv_def max_concurrent_requests_def)

theorem accept_bounded_witness:
  "\<exists>s. runs accept_step ac_init [Begun 3] s \<and> ac_sem s = 1"
proof -
  let ?s = "set_loop 3 Blocked ac_init"
  have 1: "runs accept_step ac_init [] ?s" by (intro runs_one ac_accept) (simp add: ac_init_def)
  have 2: "runs accept_step ?s [Begun 3] (begin_request 3 (set_loop 3 Accepting ?s))"
    by (intro runs_one ac_slot) (simp_all add: set_loop_def ac_init_def max_concurrent_requests_def)
  from runs_trans [OF 2 1] have run: "runs accept_step ac_init [Begun 3] (begin_request 3 (set_loop 3 Accepting ?s))"
    by simp
  from accept_bounded [OF run] run show ?thesis by auto
qed

end
