(* ===== verification/Flags.thy ===== *)
theory Flags
  imports GoText
begin

text \<open>
  Go's \<open>flag\<close> package as the two commands of \<open>src/cmd\<close> use it: a set of named flags of three kinds,
  parsed from the front of the argument list up to the first argument that is not a flag. Reading an
  integer (\<open>strconv.ParseInt\<close> with base 0) is the parameter \<open>atoi\<close>.
\<close>

datatype flag_kind = BoolFlag | StringFlag | IntFlag

datatype flag_value = VBool bool | VString string | VInt int

text \<open>Why parsing stops the process: help was asked for (status 0), or the arguments are wrong (status 2).\<close>

datatype flag_stop = HelpAsked | BadFlags

type_synonym formals = "(string \<times> flag_kind) list"
type_synonym settings = "(string \<times> flag_value) list"

definition dash :: char where
  "dash = CHR ''-''"

definition parse_bool :: "string \<Rightarrow> bool option" where
  "parse_bool s =
     (if s \<in> set [''1'', ''t'', ''T'', ''true'', ''TRUE'', ''True''] then Some True
      else if s \<in> set [''0'', ''f'', ''F'', ''false'', ''FALSE'', ''False''] then Some False
      else None)"

definition set_flag :: "(string \<Rightarrow> int option) \<Rightarrow> flag_kind \<Rightarrow> string \<Rightarrow> flag_value option" where
  "set_flag atoi k v =
     (case k of BoolFlag \<Rightarrow> map_option VBool (parse_bool v) | StringFlag \<Rightarrow> Some (VString v)
      | IntFlag \<Rightarrow> map_option VInt (atoi v))"

text \<open>The name in a flag argument of at least two bytes, without its one or two dashes.\<close>

definition flag_name :: "string \<Rightarrow> string" where
  "flag_name s = (if take 1 (drop 1 s) = [dash] then drop 2 s else drop 1 s)"

definition starts_with :: "char \<Rightarrow> string \<Rightarrow> bool" where
  "starts_with c s = (take 1 s = [c])"

fun parse_flags ::
    "(string \<Rightarrow> int option) \<Rightarrow> formals \<Rightarrow> string list \<Rightarrow> settings \<Rightarrow> flag_stop + settings \<times> string list" where
  "parse_flags atoi fs [] vs = Inr (vs, [])"
| "parse_flags atoi fs (s # ss) vs =
     (if length s < 2 \<or> \<not> starts_with dash s then Inr (vs, s # ss)
      else if s = [dash, dash] then Inr (vs, ss)
      else if flag_name s = [] \<or> starts_with dash (flag_name s) \<or> starts_with (CHR ''='') (flag_name s) then Inl BadFlags
      else
        case cut_at (CHR ''='') (flag_name s) of
          (name, v, given) \<Rightarrow>
            (case map_of fs name of
               None \<Rightarrow> Inl (if name = ''help'' \<or> name = ''h'' then HelpAsked else BadFlags)
             | Some k \<Rightarrow>
                 if given then
                   (case set_flag atoi k v of
                      None \<Rightarrow> Inl BadFlags | Some x \<Rightarrow> parse_flags atoi fs ss (AList.update name x vs))
                 else if k = BoolFlag then parse_flags atoi fs ss (AList.update name (VBool True) vs)
                 else
                   (case ss of
                      [] \<Rightarrow> Inl BadFlags
                    | a # ss' \<Rightarrow>
                        (case set_flag atoi k a of
                           None \<Rightarrow> Inl BadFlags
                         | Some x \<Rightarrow> parse_flags atoi fs ss' (AList.update name x vs)))))"

declare parse_flags.simps(2) [simp del]

text \<open>The values with their defaults: false, the empty string, zero.\<close>

definition bool_flag :: "settings \<Rightarrow> string \<Rightarrow> bool" where
  "bool_flag vs n = (map_of vs n = Some (VBool True))"

definition string_flag :: "settings \<Rightarrow> string \<Rightarrow> string" where
  "string_flag vs n = (case map_of vs n of Some (VString s) \<Rightarrow> s | _ \<Rightarrow> [])"

definition int_flag :: "settings \<Rightarrow> string \<Rightarrow> int" where
  "int_flag vs n = (case map_of vs n of Some (VInt k) \<Rightarrow> k | _ \<Rightarrow> 0)"

subsection \<open>Arguments written out and read back\<close>

definition plain_name :: "string \<Rightarrow> bool" where
  "plain_name n \<longleftrightarrow> n \<noteq> [] \<and> \<not> starts_with dash n \<and> CHR ''='' \<notin> set n"

text \<open>One argument for a flag and its value.\<close>

definition flag_arg :: "string \<times> string \<Rightarrow> string" where
  "flag_arg a = dash # fst a @ CHR ''='' # snd a"

lemma parse_flag_arg:
  assumes "plain_name n" and "map_of fs n = Some k" and "set_flag atoi k v = Some x"
  shows "parse_flags atoi fs (flag_arg (n, v) # ss) vs = parse_flags atoi fs ss (AList.update n x vs)"
proof -
  have n: "n \<noteq> []" "take 1 n \<noteq> [dash]" "CHR ''='' \<notin> set n" using assms(1) by (auto simp: plain_name_def starts_with_def)
  then have nm: "flag_name (flag_arg (n, v)) = n @ CHR ''='' # v"
    by (cases n) (auto simp: flag_name_def flag_arg_def)
  have "\<not> starts_with dash (n @ CHR ''='' # v)" "\<not> starts_with (CHR ''='') (n @ CHR ''='' # v)"
    using n by (cases n; auto simp: starts_with_def)+
  moreover have "2 \<le> length (flag_arg (n, v))" "starts_with dash (flag_arg (n, v))" "flag_arg (n, v) \<noteq> [dash, dash]"
    using n by (cases n; auto simp: flag_arg_def starts_with_def)+
  ultimately show ?thesis
    using assms(2,3) nm by (simp add: parse_flags.simps cut_at_append [OF n(3)])
qed

lemma parse_flag_args:
  assumes "list_all (\<lambda>(n, v). plain_name n \<and> (case map_of fs n of None \<Rightarrow> False | Some k \<Rightarrow> set_flag atoi k v \<noteq> None)) as"
  shows "parse_flags atoi fs (map flag_arg as @ [dash, dash] # rest) vs =
    Inr (fold (\<lambda>(n, v). AList.update n (the (set_flag atoi (the (map_of fs n)) v))) as vs, rest)"
  using assms
proof (induction as arbitrary: vs)
  case Nil
  then show ?case by (simp add: parse_flags.simps starts_with_def)
next
  case (Cons a as)
  then show ?case by (cases a) (auto simp: parse_flag_arg split: option.splits)
qed

end
