(* ===== verification/Setup.thy ===== *)
theory Setup
  imports Config GoText
begin

text \<open>
  Enrolling a host, \<open>internal/setup/setup.go\<close>: finding the assets, the remote architecture, deriving
  a label from the ssh destination, and the sequence of commands. What a command does to the world is
  a field of \<open>commands\<close>; a relative path is looked up from the root of the tree. The progress messages
  are left out.
\<close>

record commands =
  cm_run :: "string \<Rightarrow> string list \<Rightarrow> os \<Rightarrow> error option \<times> os"
  cm_out :: "string \<Rightarrow> string list \<Rightarrow> os \<Rightarrow> (string \<times> error option) \<times> os"

subsection \<open>Assets and architecture\<close>

definition has_assets :: "string \<Rightarrow> os \<Rightarrow> bool \<times> os" where
  "has_assets dir w = (case os_stat (path_join [dir, ''lssh'']) w of (r, w') \<Rightarrow> (succeeds r, w'))"

definition find_in_dist :: "os \<Rightarrow> string result \<times> os" where
  "find_in_dist w =
     (case has_assets ''dist'' w of (b, w') \<Rightarrow> (if b then Inr ''dist'' else Inl NoAssets, w'))"

text \<open>\<open>libexec\<close> is the value of \<open>LOPEN_LIBEXEC\<close>, \<open>exe\<close> the result of \<open>os.Executable\<close>.\<close>

definition find_assets :: "string \<Rightarrow> string result \<Rightarrow> os \<Rightarrow> string result \<times> os" where
  "find_assets libexec exe w =
     (if libexec \<noteq> [] then (Inr libexec, w)
      else
        case exe of
          Inl _ \<Rightarrow> find_in_dist w
        | Inr x \<Rightarrow>
            (let dir = path_dir x; dist = path_join [dir, ''dist''] in
             case has_assets dir w of
               (True, w1) \<Rightarrow> (Inr dir, w1)
             | (False, w1) \<Rightarrow>
                 (case has_assets dist w1 of (True, w2) \<Rightarrow> (Inr dist, w2) | (False, w2) \<Rightarrow> find_in_dist w2)))"

definition remote_arch :: "string \<Rightarrow> string result" where
  "remote_arch m =
     (let a = trim_space m in
      if a = ''x86_64'' \<or> a = ''amd64'' then Inr ''amd64''
      else if a = ''aarch64'' \<or> a = ''arm64'' then Inr ''arm64''
      else Inl (UnsupportedArch m))"

definition first_line :: "string \<Rightarrow> string" where
  "first_line s = upto_byte (CHR 0x0A) s"

definition ssh_batch :: "string list \<Rightarrow> string list" where
  "ssh_batch args = [''-o'', ''BatchMode=yes''] @ args"

subsection \<open>Deriving a label\<close>

definition label_rune :: "nat \<Rightarrow> bool" where
  "label_rune r \<longleftrightarrow> 97 \<le> r \<and> r \<le> 122 \<or> 65 \<le> r \<and> r \<le> 90 \<or> 48 \<le> r \<and> r \<le> 57 \<or> r = 95 \<or> r = 45"

definition derive_label :: "string \<Rightarrow> string" where
  "derive_label dest =
     (let s1 = (case cut_at (CHR 0x40) dest of (_, v, found) \<Rightarrow> if found then v else dest);
          s2 = upto_byte (CHR ''.'') s1;
          s3 = map (\<lambda>r. if label_rune r then char_of r else CHR ''-'') (runes s2);
          s4 = (case s3 of [] \<Rightarrow> ''host'' | c # _ \<Rightarrow> if in_cls label_head c then s3 else ''host'' @ s3)
      in take 64 s4)"

subsection \<open>Enrolment\<close>

record enroll_opts =
  eo_dest :: string
  eo_label :: string
  eo_port :: int
  eo_keep :: bool
  eo_ssh :: string
  eo_scp :: string

definition no_host :: host where
  "no_host = \<lparr>h_label = [], h_dest = [], h_port = 0, h_keep = False\<rparr>"

text \<open>The commands that push the two files and make them executable, in order.\<close>

definition push ::
    "commands \<Rightarrow> string \<Rightarrow> string \<Rightarrow> string \<Rightarrow> string \<Rightarrow> string \<Rightarrow> os \<Rightarrow> error option \<times> os" where
  "push cm ssh scp bin lssh dest w =
     (case cm_run cm scp [''-q'', ''-o'', ''BatchMode=yes'', bin, dest @ '':bin/lopen''] w of
        (Some e, w1) \<Rightarrow> (Some (ScpFailed ''lopen'' e), w1)
      | (None, w1) \<Rightarrow>
          (case cm_run cm scp [''-q'', ''-o'', ''BatchMode=yes'', lssh, dest @ '':bin/lssh''] w1 of
             (Some e, w2) \<Rightarrow> (Some (ScpFailed ''lssh'' e), w2)
           | (None, w2) \<Rightarrow>
               (case cm_run cm ssh (ssh_batch [''--'', dest, ''chmod +x ~/bin/lopen ~/bin/lssh'']) w2 of
                  (Some e, w3) \<Rightarrow> (Some (ChmodFailed e), w3)
                | (None, w3) \<Rightarrow> (None, w3))))"

definition enroll ::
    "commands \<Rightarrow> config \<Rightarrow> string \<Rightarrow> enroll_opts \<Rightarrow> os \<Rightarrow> (host \<times> error option) \<times> config \<times> os" where
  "enroll cm c assets eo w =
     (let ssh = (if eo_ssh eo = [] then ''ssh'' else eo_ssh eo);
          scp = (if eo_scp eo = [] then ''scp'' else eo_scp eo);
          dest = eo_dest eo in
      if \<not> valid_dest dest then ((no_host, Some (InvalidDest dest)), c, w)
      else
        let l = (if eo_label eo = [] then derive_label dest else eo_label eo) in
        case cm_out cm ssh (ssh_batch [''--'', dest, ''uname -m; mkdir -p ~/bin'']) w of
          ((_, Some e), w1) \<Rightarrow> ((no_host, Some (SshFailed e)), c, w1)
        | ((uname, None), w1) \<Rightarrow>
            (case remote_arch (first_line uname) of
               Inl e \<Rightarrow> ((no_host, Some e), c, w1)
             | Inr arch \<Rightarrow>
                 (let bin = path_join [assets, ''lopen-linux-'' @ arch] in
                  case os_stat bin w1 of
                    (Inl e, w2) \<Rightarrow> ((no_host, Some (MissingBinary bin e)), c, w2)
                  | (Inr _, w2) \<Rightarrow>
                      (case push cm ssh scp bin (path_join [assets, ''lssh'']) dest w2 of
                         (Some e, w3) \<Rightarrow> ((no_host, Some e), c, w3)
                       | (None, w3) \<Rightarrow>
                           (let h = \<lparr>h_label = l, h_dest = dest, h_port = eo_port eo, h_keep = eo_keep eo\<rparr> in
                            case add_host c h of
                              Inl e \<Rightarrow> ((h, Some e), c, w3)
                            | Inr c' \<Rightarrow> ((h, None), c', w3))))))"

subsection \<open>Lemmas\<close>

lemma label_rune_char: "label_rune r \<Longrightarrow> in_cls label_tail (char_of r)"
  by (auto simp: label_rune_def in_cls_def label_tail_def)

lemma dash_in_tail: "in_cls label_tail (CHR ''-'')"
  by (simp add: in_cls_def label_tail_def)

lemma host_prefix: "list_all (in_cls label_tail) ''host''" "in_cls label_head (CHR ''h'')"
  by (simp_all add: in_cls_def label_tail_def label_head_def)

lemma add_host_Inr:
  "add_host c h = Inr c' \<longleftrightarrow> valid_label (h_label h) \<and> valid_dest (h_dest h) \<and> h_label h \<notin> set (map h_label (c_hosts c)) \<and>
     c' = c\<lparr>c_hosts := c_hosts c @ [h]\<rparr>"
  by (auto simp: add_host_def valid_label_re list_ex_iff) (metis imageI)

subsection \<open>Properties\<close>

text \<open>
  The label derived from any ssh destination, of any bytes, is a valid label: it can be enrolled
  and used as a directory and socket name.
\<close>

theorem derive_label_valid: "valid_label (derive_label dest)"
proof -
  define s3 where "s3 = map (\<lambda>r. if label_rune r then char_of r else CHR ''-'')
    (runes (upto_byte (CHR ''.'') (case cut_at (CHR 0x40) dest of (_, v, found) \<Rightarrow> if found then v else dest)))"
  define s4 where "s4 = (case s3 of [] \<Rightarrow> ''host'' | c # _ \<Rightarrow> if in_cls label_head c then s3 else ''host'' @ s3)"
  have tail: "list_all (in_cls label_tail) s3"
    by (auto simp: s3_def list_all_iff label_rune_char dash_in_tail)
  then have all: "list_all (in_cls label_tail) s4" using host_prefix(1) by (auto simp: s4_def split: list.split)
  have "\<exists>c cs. s4 = c # cs \<and> in_cls label_head c" using host_prefix(2) by (auto simp: s4_def split: list.split)
  then obtain c cs where c: "s4 = c # cs" "in_cls label_head c" by blast
  have "derive_label dest = take 64 s4" unfolding derive_label_def Let_def s4_def s3_def by (rule HOL.refl)
  then have "derive_label dest = c # take 63 cs" using c(1) by simp
  moreover have "list_all (in_cls label_tail) (take 63 cs)"
    using all c(1) by (auto simp: list_all_iff dest: in_set_takeD)
  ultimately show ?thesis using c(2) by (auto simp: valid_label_iff)
qed

text \<open>
  Enrolment is all or nothing for the configuration: on any error it is unchanged; on success it
  has exactly the new host added, with the given or derived label, and if every host was acceptable
  and the port is left out or in range then all of them are, so the saved configuration loads.
\<close>

theorem enroll_result:
  "case enroll cm c assets eo w of
     ((h, Some e), c', w') \<Rightarrow> c' = c
   | ((h, None), c', w') \<Rightarrow>
       c' = c\<lparr>c_hosts := c_hosts c @ [h]\<rparr> \<and> h_dest h = eo_dest eo \<and> h_port h = eo_port eo \<and> h_keep h = eo_keep eo \<and>
       h_label h = (if eo_label eo = [] then derive_label (eo_dest eo) else eo_label eo) \<and>
       (list_all host_ok (c_hosts c') \<and> distinct (map h_label (c_hosts c')) \<longleftrightarrow>
        list_all host_ok (c_hosts c) \<and> distinct (map h_label (c_hosts c)) \<and> 0 \<le> eo_port eo \<and> eo_port eo \<le> 65535)"
proof -
  obtain h e c' w' where run: "enroll cm c assets eo w = ((h, e), c', w')" by (metis surj_pair)
  show ?thesis
  proof (cases e)
    case (Some x)
    then show ?thesis using run
      by (auto simp: enroll_def Let_def split: if_splits prod.splits sum.splits option.splits)
  next
    case None
    then have h: "h = \<lparr>h_label = (if eo_label eo = [] then derive_label (eo_dest eo) else eo_label eo),
        h_dest = eo_dest eo, h_port = eo_port eo, h_keep = eo_keep eo\<rparr>" and a: "add_host c h = Inr c'"
      using run by (auto simp: enroll_def Let_def split: if_splits prod.splits sum.splits option.splits)
    have "host_ok h \<longleftrightarrow> 0 \<le> eo_port eo \<and> eo_port eo \<le> 65535"
      using a h by (auto simp: add_host_Inr host_ok_def port_of_def default_remote_port_def)
    moreover have "h_label h \<notin> h_label ` set (c_hosts c)" "c' = c\<lparr>c_hosts := c_hosts c @ [h]\<rparr>"
      using a by (simp_all add: add_host_Inr)
    ultimately show ?thesis unfolding run None using h by auto
  qed
qed

end
