(* ===== verification/Launchd.thy ===== *)
theory Launchd
  imports Setup
begin

text \<open>
  The launch agent on macOS, \<open>internal/launchd/launchd.go\<close>: the property list, its escaping, and the
  commands that install and remove the agent. The lemmas read the list back with a reader of the part
  of XML a property list uses, and show that launchd is handed exactly the arguments of the daemon.
\<close>

definition agent_label :: string where
  "agent_label = ''com.jaxonwang.lopend''"

subsection \<open>The property list\<close>

text \<open>\<open>home\<close> is the result of \<open>os.UserHomeDir\<close>.\<close>

definition plist_path :: "string result \<Rightarrow> string result" where
  "plist_path home =
     (case home of
        Inl e \<Rightarrow> Inl e
      | Inr h \<Rightarrow> Inr (path_join [h, ''Library'', ''LaunchAgents'', agent_label @ ''.plist'']))"

fun xml_esc :: "string \<Rightarrow> string" where
  "xml_esc [] = []"
| "xml_esc (c # cs) =
     (if c = CHR ''&'' then ''&amp;'' else if c = CHR ''<'' then ''&lt;''
      else if c = CHR ''>'' then ''&gt;'' else [c]) @ xml_esc cs"

definition line :: "string \<Rightarrow> string" where
  "line s = s @ [newline]"

definition string_elem :: "string \<Rightarrow> string" where
  "string_elem s = ''<string>'' @ xml_esc s @ ''</string>''"

definition plist :: "string list \<Rightarrow> string \<Rightarrow> string" where
  "plist args log =
     line (''<?xml version='' @ CHR 0x22 # ''1.0'' @ CHR 0x22 # '' encoding='' @ CHR 0x22 # ''UTF-8'' @ CHR 0x22 # ''?>'') @
     line (''<!DOCTYPE plist PUBLIC '' @ CHR 0x22 # ''-//Apple//DTD PLIST 1.0//EN'' @ CHR 0x22 # '' '' @ CHR 0x22 #
           ''http://www.apple.com/DTDs/PropertyList-1.0.dtd'' @ CHR 0x22 # ''>'') @
     line (''<plist version='' @ CHR 0x22 # ''1.0'' @ CHR 0x22 # ''>'') @ line ''<dict>'' @
     line ''  <key>Label</key>'' @ line (''  '' @ string_elem agent_label) @
     line ''  <key>ProgramArguments</key>'' @ line ''  <array>'' @
     concat (map (\<lambda>a. line (''    '' @ string_elem a)) args) @
     line ''  </array>'' @
     line ''  <key>RunAtLoad</key>'' @ line ''  <true/>'' @
     line ''  <key>KeepAlive</key>'' @ line ''  <true/>'' @
     (if log \<noteq> [] then
        line ''  <key>StandardOutPath</key>'' @ line (''  '' @ string_elem log) @
        line ''  <key>StandardErrorPath</key>'' @ line (''  '' @ string_elem log)
      else []) @
     line ''</dict>'' @ line ''</plist>''"

subsection \<open>Installing and removing the agent\<close>

text \<open>\<open>uid\<close> is the number of the user; \<open>run\<close> runs a command.\<close>

definition gui_domain :: "int \<Rightarrow> string" where
  "gui_domain uid = ''gui/'' @ itoa uid"

definition launchctl :: "commands \<Rightarrow> string list \<Rightarrow> os \<Rightarrow> error option \<times> os" where
  "launchctl cm args w = cm_run cm ''launchctl'' args w"

definition daemon_args :: "string \<Rightarrow> string \<Rightarrow> string list" where
  "daemon_args bin cfg = bin # (if cfg \<noteq> [] then [''-config'', cfg] else [])"

text \<open>Bootout, whatever comes of it, then bootstrap, and on older systems load.\<close>

definition reload :: "commands \<Rightarrow> int \<Rightarrow> string \<Rightarrow> os \<Rightarrow> error option \<times> os" where
  "reload cm uid pl w =
     (let dom = gui_domain uid in
      case launchctl cm [''bootout'', dom @ ''/'' @ agent_label] w of
        (_, w1) \<Rightarrow>
          (case launchctl cm [''bootstrap'', dom, pl] w1 of
             (None, w2) \<Rightarrow> (None, w2)
           | (Some e, w2) \<Rightarrow>
               (case launchctl cm [''load'', ''-w'', pl] w2 of
                  (None, w3) \<Rightarrow> (None, w3)
                | (Some _, w3) \<Rightarrow> (Some (BootstrapFailed e), w3))))"

definition install ::
    "commands \<Rightarrow> string result \<Rightarrow> int \<Rightarrow> string \<Rightarrow> string \<Rightarrow> string \<Rightarrow> os \<Rightarrow> error option \<times> os" where
  "install cm home uid bin cfg log w =
     (case plist_path home of
        Inl e \<Rightarrow> (Some e, w)
      | Inr pl \<Rightarrow>
          (case os_mkdir_all (path_dir pl) w of
             (Inl e, w1) \<Rightarrow> (Some e, w1)
           | (Inr _, w1) \<Rightarrow>
               (case os_write_file pl (plist (daemon_args bin cfg) log) w1 of
                  (Inl e, w2) \<Rightarrow> (Some e, w2)
                | (Inr _, w2) \<Rightarrow> reload cm uid pl w2)))"

definition uninstall :: "commands \<Rightarrow> string result \<Rightarrow> int \<Rightarrow> os \<Rightarrow> error option \<times> os" where
  "uninstall cm home uid w =
     (case plist_path home of
        Inl e \<Rightarrow> (Some e, w)
      | Inr pl \<Rightarrow>
          (case launchctl cm [''bootout'', gui_domain uid @ ''/'' @ agent_label] w of
             (_, w1) \<Rightarrow>
               (case launchctl cm [''unload'', pl] w1 of
                  (_, w2) \<Rightarrow>
                    (case os_remove pl w2 of (Inl e, w3) \<Rightarrow> (Some e, w3) | (Inr _, w3) \<Rightarrow> (None, w3)))))"

subsection \<open>Reading a property list\<close>

text \<open>
  The reader. A document is a sequence of tags and of the text between them. In text an entity
  stands for a character, a carriage return reads as a line feed, and other control characters are
  refused, as XML has it.
\<close>

datatype token = Tag string | Text string

fun lex :: "bool \<Rightarrow> string \<Rightarrow> string \<Rightarrow> token list option" where
  "lex False acc [] = Some [Text (rev acc)]"
| "lex True acc [] = None"
| "lex False acc (c # cs) =
     (if c = CHR ''<'' then map_option ((#) (Text (rev acc))) (lex True [] cs) else lex False (c # acc) cs)"
| "lex True acc (c # cs) =
     (if c = CHR ''>'' then map_option ((#) (Tag (rev acc))) (lex False [] cs) else lex True (c # acc) cs)"

definition entity :: "string \<Rightarrow> char option" where
  "entity n = map_of [(''amp'', CHR ''&''), (''lt'', CHR ''<''), (''gt'', CHR ''>''), (''quot'', CHR 0x22), (''apos'', CHR 0x27)] n"

definition control :: "char \<Rightarrow> bool" where
  "control c \<longleftrightarrow> (of_char c :: nat) < 32 \<and> c \<noteq> CHR 0x09 \<and> c \<noteq> CHR 0x0A"

text \<open>The first argument is the name of the entity being read, if one has begun.\<close>

fun read_text :: "string option \<Rightarrow> string \<Rightarrow> string option" where
  "read_text None [] = Some []"
| "read_text (Some _) [] = None"
| "read_text None (c # cs) =
     (if c = CHR ''&'' then read_text (Some []) cs
      else if c = CHR 0x0D then map_option ((#) (CHR 0x0A)) (read_text None cs)
      else if control c then None
      else map_option ((#) c) (read_text None cs))"
| "read_text (Some n) (c # cs) =
     (if c = CHR '';'' then
        (case entity n of None \<Rightarrow> None | Some d \<Rightarrow> map_option ((#) d) (read_text None cs))
      else read_text (Some (n @ [c])) cs)"

datatype pl = PString string | PTrue | PArray "pl list" | PDict "(string \<times> pl) list"

text \<open>
  The elements being read, innermost first: a dictionary with the key that waits for its value, an
  array, the text of a key or a string, or the whole document.
\<close>

datatype elem = InDict "(string \<times> pl) list" "string option" | InArray "pl list" | InKey string | InString string | Whole pl

fun give :: "pl \<Rightarrow> elem list \<Rightarrow> elem list option" where
  "give v [] = Some [Whole v]"
| "give v (InDict kvs (Some k) # st) = Some (InDict (kvs @ [(k, v)]) None # st)"
| "give v (InArray vs # st) = Some (InArray (vs @ [v]) # st)"
| "give v (_ # _) = None"

definition white :: "char \<Rightarrow> bool" where
  "white c \<longleftrightarrow> c = CHR '' '' \<or> c = CHR 0x09 \<or> c = CHR 0x0A \<or> c = CHR 0x0D"

fun take_text :: "string \<Rightarrow> elem list \<Rightarrow> elem list option" where
  "take_text t (InKey s # st) = map_option (\<lambda>u. InKey (s @ u) # st) (read_text None t)"
| "take_text t (InString s # st) = map_option (\<lambda>u. InString (s @ u) # st) (read_text None t)"
| "take_text t st = (if list_all white t then Some st else None)"

fun shut :: "string \<Rightarrow> elem list \<Rightarrow> elem list option" where
  "shut n (InDict kvs None # st) = (if n = ''dict'' then give (PDict kvs) st else None)"
| "shut n (InArray vs # st) = (if n = ''array'' then give (PArray vs) st else None)"
| "shut n (InString s # st) = (if n = ''string'' then give (PString s) st else None)"
| "shut n (InKey k # InDict kvs None # st) = (if n = ''key'' then Some (InDict kvs (Some k) # st) else None)"
| "shut n [Whole v] = (if n = ''plist'' then Some [Whole v] else None)"
| "shut n _ = None"

definition take_tag :: "string \<Rightarrow> elem list \<Rightarrow> elem list option" where
  "take_tag n st =
     (case n of
        [] \<Rightarrow> None
      | c # cs \<Rightarrow>
          if c = CHR ''?'' \<or> c = CHR ''!'' then Some st
          else if c = CHR ''/'' then shut cs st
          else if takeWhile (\<lambda>c. \<not> white c) n = ''plist'' then (if st = [] then Some st else None)
          else if n = ''dict'' then Some (InDict [] None # st)
          else if n = ''array'' then Some (InArray [] # st)
          else if n = ''key'' then Some (InKey [] # st)
          else if n = ''string'' then Some (InString [] # st)
          else if n = ''true/'' then give PTrue st
          else None)"

fun read_tokens :: "token list \<Rightarrow> elem list \<Rightarrow> elem list option" where
  "read_tokens [] st = Some st"
| "read_tokens (Text t # ts) st = Option.bind (take_text t st) (read_tokens ts)"
| "read_tokens (Tag n # ts) st = Option.bind (take_tag n st) (read_tokens ts)"

definition read_plist :: "string \<Rightarrow> pl option" where
  "read_plist s =
     (case lex False [] s of
        None \<Rightarrow> None
      | Some ts \<Rightarrow> (case read_tokens ts [] of Some [Whole v] \<Rightarrow> Some v | _ \<Rightarrow> None))"

subsection \<open>Lemmas\<close>

text \<open>Lexing up to the next bracket.\<close>

lemma lex_text: "CHR ''<'' \<notin> set t \<Longrightarrow> lex False acc (t @ s) = lex False (rev t @ acc) s"
  by (induction t arbitrary: acc) auto

lemma xml_esc_no_bracket: "CHR ''<'' \<notin> set (xml_esc s)"
  by (induction s) auto

lemma read_text_esc: "list_all (\<lambda>c. \<not> control c) s \<Longrightarrow> read_text None (xml_esc s) = Some s"
  by (induction s) (auto simp: entity_def control_def)


text \<open>A document as tags, each with the text before it.\<close>

definition render :: "(string \<times> string) list \<Rightarrow> string" where
  "render items = concat (map (\<lambda>(t, n). t @ CHR ''<'' # n @ [CHR ''>'']) items)"

fun read_items :: "(string \<times> string) list \<Rightarrow> elem list \<Rightarrow> elem list option" where
  "read_items [] st = Some st"
| "read_items ((t, n) # is) st = Option.bind (Option.bind (take_text t st) (take_tag n)) (read_items is)"

definition clean_item :: "string \<times> string \<Rightarrow> bool" where
  "clean_item i \<longleftrightarrow> CHR ''<'' \<notin> set (fst i) \<and> CHR ''>'' \<notin> set (snd i)"

lemma lex_tag: "CHR ''>'' \<notin> set n \<Longrightarrow>
  lex True acc (n @ CHR ''>'' # s) = map_option ((#) (Tag (rev acc @ n))) (lex False [] s)"
  by (induction n arbitrary: acc) auto

lemma lex_render: "list_all clean_item items \<Longrightarrow> CHR ''<'' \<notin> set t \<Longrightarrow>
  lex False [] (render items @ t) = Some (concat (map (\<lambda>(t, n). [Text t, Tag n]) items) @ [Text t])"
  by (induction items) (use lex_text [of _ "[]" "[]"] in
    \<open>auto simp: render_def clean_item_def lex_text lex_tag\<close>)

lemma read_tokens_items:
  "read_tokens (concat (map (\<lambda>(t, n). [Text t, Tag n]) items) @ ts) st = Option.bind (read_items items st) (read_tokens ts)"
  by (induction items arbitrary: st) (auto split: Option.bind_splits)

lemma read_plist_render:
  assumes "list_all clean_item items" and "CHR ''<'' \<notin> set t" and "read_items items [] = Some st"
    and "take_text t st = Some [Whole v]"
  shows "read_plist (render items @ t) = Some v"
  by (simp add: read_plist_def lex_render assms read_tokens_items)

lemma read_items_append: "read_items (is @ js) st = Option.bind (read_items is st) (read_items js)"
  by (induction "is" arbitrary: st) (auto split: Option.bind_splits)

lemma render_append: "render (is @ js) = render is @ render js"
  by (simp add: render_def)

text \<open>The tags of one string element.\<close>

definition string_items :: "string \<Rightarrow> string \<Rightarrow> (string \<times> string) list" where
  "string_items ind s = [(newline # ind, ''string''), (xml_esc s, ''/string'')]"

definition key_items :: "string \<Rightarrow> (string \<times> string) list" where
  "key_items k = [(newline # ''  '', ''key''), (k, ''/key'')]"

lemma read_string_items:
  "list_all (\<lambda>c. \<not> control c) s \<Longrightarrow> list_all white ind \<Longrightarrow> st = InDict kvs (Some k) # st' \<or> st = InArray vs # st' \<Longrightarrow>
     read_items (string_items ind s) st = give (PString s) st"
  by (auto simp: string_items_def take_tag_def white_def newline_def read_text_esc xml_esc_no_bracket)

text \<open>The whole list.\<close>

definition plist_items :: "string list \<Rightarrow> string \<Rightarrow> (string \<times> string) list" where
  "plist_items args log =
     [([], ''?xml version='' @ CHR 0x22 # ''1.0'' @ CHR 0x22 # '' encoding='' @ CHR 0x22 # ''UTF-8'' @ CHR 0x22 # ''?''),
      ([newline], ''!DOCTYPE plist PUBLIC '' @ CHR 0x22 # ''-//Apple//DTD PLIST 1.0//EN'' @ CHR 0x22 # '' '' @ CHR 0x22 #
           ''http://www.apple.com/DTDs/PropertyList-1.0.dtd'' @ [CHR 0x22]),
      ([newline], ''plist version='' @ CHR 0x22 # ''1.0'' @ [CHR 0x22]), ([newline], ''dict'')] @
     key_items ''Label'' @ string_items ''  '' agent_label @
     key_items ''ProgramArguments'' @ [(newline # ''  '', ''array'')] @
     concat (map (string_items ''    '') args) @ [(newline # ''  '', ''/array'')] @
     key_items ''RunAtLoad'' @ [(newline # ''  '', ''true/'')] @
     key_items ''KeepAlive'' @ [(newline # ''  '', ''true/'')] @
     (if log \<noteq> [] then
        key_items ''StandardOutPath'' @ string_items ''  '' log @ key_items ''StandardErrorPath'' @ string_items ''  '' log
      else []) @
     [([newline], ''/dict''), ([newline], ''/plist'')]"

lemma args_lines:
  "render (concat (map (string_items ind) args)) @ newline # v =
     newline # concat (map (\<lambda>a. line (ind @ string_elem a)) args) @ v"
  by (induction args) (auto simp: render_def string_items_def line_def string_elem_def)

lemma render_Cons: "render ((t, n) # items) = t @ CHR ''<'' # n @ CHR ''>'' # render items"
  by (simp add: render_def)

lemma render_Nil: "render [] = []"
  by (simp add: render_def)

lemma plist_render: "plist args log = render (plist_items args log) @ [newline]"
proof -
  define as where "as = concat (map (\<lambda>a. line (''    '' @ string_elem a)) args)"
  have shift: "render (concat (map (string_items ''    '') args)) @ newline # v = newline # as @ v" for v
    unfolding as_def by (rule args_lines)
  show ?thesis
    unfolding plist_def as_def [symmetric]
    by (simp add: plist_items_def render_append render_Cons render_Nil key_items_def
        string_items_def [of "''  ''"] line_def shift string_elem_def)
qed

lemma clean_string_items: "CHR ''<'' \<notin> set ind \<Longrightarrow> list_all clean_item (string_items ind s)"
  by (simp add: string_items_def clean_item_def newline_def xml_esc_no_bracket)

lemma plist_clean: "list_all clean_item (plist_items args log)"
proof -
  have "list_all clean_item (concat (map (string_items ''    '') args))"
    by (induction args) (simp_all add: clean_string_items)
  then show ?thesis
    by (simp add: plist_items_def key_items_def clean_string_items) (simp add: clean_item_def newline_def)
qed

lemma read_args:
  "list_all (list_all (\<lambda>c. \<not> control c)) args \<Longrightarrow>
     read_items (concat (map (string_items ''    '') args)) (InArray vs # st) = Some (InArray (vs @ map PString args) # st)"
  by (induction args arbitrary: vs) (auto simp: read_items_append read_string_items white_def)

definition plist_value :: "string list \<Rightarrow> string \<Rightarrow> pl" where
  "plist_value args log =
     PDict ([(''Label'', PString agent_label), (''ProgramArguments'', PArray (map PString args)),
        (''RunAtLoad'', PTrue), (''KeepAlive'', PTrue)] @
       (if log = [] then [] else [(''StandardOutPath'', PString log), (''StandardErrorPath'', PString log)]))"

subsection \<open>Properties\<close>

text \<open>
  C31: whatever the path of the daemon, its configuration and its log are, as long as they hold no
  control character, reading the property list gives exactly these arguments, one string each.
\<close>

theorem plist_roundtrip:
  assumes "list_all (list_all (\<lambda>c. \<not> control c)) args" and "list_all (\<lambda>c. \<not> control c) log"
  shows "read_plist (plist args log) = Some (plist_value args log)"
proof -
  have label: "list_all (\<lambda>c. \<not> control c) agent_label" by (simp add: agent_label_def control_def)
  have key: "read_items (key_items k) (InDict kvs None # st) = Some (InDict kvs (Some k) # st)"
    if "read_text None k = Some k" for k kvs st
    using that by (simp add: key_items_def take_tag_def newline_def white_def)
  have "read_items (plist_items args log) [] = Some [Whole (plist_value args log)]"
    using assms label
    by (simp add: plist_items_def plist_value_def read_items_append key read_string_items read_args white_def
        take_tag_def newline_def control_def)
  moreover have "take_text [newline] [Whole v] = Some [Whole v]" for v
    by (simp add: white_def newline_def)
  ultimately show ?thesis
    unfolding plist_render using read_plist_render [OF plist_clean, of "[newline]"] by (simp add: newline_def)
qed

theorem plist_roundtrip_witness:
  "read_plist (plist [''/a&b/lopend'', ''-config'', ''<c>''] ''/log'') = Some (plist_value [''/a&b/lopend'', ''-config'', ''<c>''] ''/log'')"
  by (rule plist_roundtrip) (simp_all add: control_def)

end
