(* ===== verification/Daemon.thy ===== *)
theory Daemon
  imports Server Transition
begin

text \<open>
  The daemon's life, \<open>Server.Run\<close> of \<open>internal/daemon/server.go\<close> with \<open>lock_unix.go\<close> and
  \<open>listen_unix.go\<close>: the instance lock, binding the request socket of every host, serving and shutting
  down, for any number of daemon processes that share one state directory. The accept loops are in
  \<open>Accept\<close>, the tunnels' retry loops in \<open>Tunnel\<close>.
\<close>

subsection \<open>The lock and the sockets of one state directory\<close>

text \<open>
  \<open>st_lock\<close> is the process that holds the advisory lock; a socket path is absent, or there is a process
  listening on it, or it was left behind. A failing call is decided by the schedule of \<open>st_os\<close>.
\<close>

datatype listener = Listening nat | Stale

record site =
  st_lock :: "nat option"
  st_socks :: "string \<Rightarrow> listener option"
  st_os :: os

definition os_open_create :: "string \<Rightarrow> os \<Rightarrow> unit result \<times> os" where
  "os_open_create f w =
     (let p = path_comps f in
      case env_step w of
        (Some _, w') \<Rightarrow> (Inl IoError, w')
      | (None, w') \<Rightarrow>
          (case get (os_fs w') p of
             Some (File _ _ _) \<Rightarrow> (Inr (), w')
           | Some _ \<Rightarrow> (Inl IoError, w')
           | None \<Rightarrow>
               if \<not> is_dir (get (os_fs w') (butlast p)) then (Inl NotExist, w')
               else (Inr (), w'\<lparr>os_fs := touch p (os_now w') (put p (File [] (os_now w') False) (os_fs w'))\<rparr>)))"

definition acquire_lock :: "nat \<Rightarrow> string \<Rightarrow> site \<Rightarrow> unit result \<times> site" where
  "acquire_lock p path st =
     (case os_open_create path (st_os st) of
        (Inl e, w) \<Rightarrow> (Inl e, st\<lparr>st_os := w\<rparr>)
      | (Inr _, w) \<Rightarrow>
          (case env_step w of
             (Some _, w') \<Rightarrow> (Inl IoError, st\<lparr>st_os := w'\<rparr>)
           | (None, w') \<Rightarrow>
               if st_lock st = None then (Inr (), st\<lparr>st_os := w', st_lock := Some p\<rparr>)
               else (Inl (InstanceRunning path), st\<lparr>st_os := w'\<rparr>)))"

definition release_lock :: "nat \<Rightarrow> site \<Rightarrow> site" where
  "release_lock p st = (if st_lock st = Some p then st\<lparr>st_lock := None\<rparr> else st)"

definition sock_path :: "config \<Rightarrow> string \<Rightarrow> string" where
  "sock_path c l = path_join [socket_dir c, l @ ''.sock'']"

text \<open>
  A dial may fail although somebody listens. Removing a socket may fail, and binding to a path that is
  still there does.
\<close>

definition listen_local :: "nat \<Rightarrow> config \<Rightarrow> string \<Rightarrow> site \<Rightarrow> string result \<times> site" where
  "listen_local p c l st =
     (let sock = sock_path c l; live = (case st_socks st sock of Some (Listening _) \<Rightarrow> True | _ \<Rightarrow> False) in
      case env_step (st_os st) of
        (dialled, w1) \<Rightarrow>
          if dialled = None \<and> live then (Inl (SocketInUse sock), st\<lparr>st_os := w1\<rparr>)
          else
            case env_step w1 of
              (removed, w2) \<Rightarrow>
                (let socks = (if removed = None then (st_socks st)(sock := None) else st_socks st) in
                 case env_step w2 of
                   (bound, w3) \<Rightarrow>
                     if bound \<noteq> None \<or> socks sock \<noteq> None then (Inl IoError, st\<lparr>st_socks := socks, st_os := w3\<rparr>)
                     else (Inr sock, st\<lparr>st_socks := socks(sock := Some (Listening p)), st_os := w3\<rparr>)))"

subsection \<open>Starting up\<close>

text \<open>One turn of the loop over the hosts: listen, make sure of the token, and register the tunnel.\<close>

definition new_tunnel :: "host \<Rightarrow> string \<Rightarrow> string \<Rightarrow> tunnel" where
  "new_tunnel h fwd tok = \<lparr>tn_host = h, tn_local_sock = fwd, tn_token = tok, tn_ssh_command = [], tn_timeout_override = 0\<rparr>"

definition bind_host ::
    "nat \<Rightarrow> (tokens \<Rightarrow> bytes result) \<Rightarrow> bytes result \<Rightarrow> host \<Rightarrow> server \<Rightarrow> site \<Rightarrow> error option \<times> server \<times> site" where
  "bind_host p enc rnd h s st =
     (case listen_local p (sv_cfg s) (h_label h) st of
        (Inl e, st1) \<Rightarrow> (Some (HostFailed (h_label h) e), s, st1)
      | (Inr fwd, st1) \<Rightarrow>
          (case ensure enc rnd (h_label h) (sv_tokens s) (st_os st1) of
             ((tok, e), ts, w) \<Rightarrow>
               (let s1 = s\<lparr>sv_tokens := ts\<rparr>; st2 = st1\<lparr>st_os := w\<rparr> in
                case e of
                  Some x \<Rightarrow> (Some (HostFailed (h_label h) x), s1, st2)
                | None \<Rightarrow>
                    (None, s1\<lparr>sv_tunnels := AList.update (h_label h) (new_tunnel h fwd tok) (sv_tunnels s1)\<rparr>, st2))))"

text \<open>The whole loop, and \<open>Run\<close> up to the point where it serves: the deferred release runs on an error.\<close>

fun bind_hosts ::
    "nat \<Rightarrow> (tokens \<Rightarrow> bytes result) \<Rightarrow> (string \<Rightarrow> bytes result) \<Rightarrow> host list \<Rightarrow> server \<Rightarrow> site \<Rightarrow> error option \<times> server \<times> site" where
  "bind_hosts p enc rnd [] s st = (None, s, st)"
| "bind_hosts p enc rnd (h # hs) s st =
     (case bind_host p enc (rnd (h_label h)) h s st of
        (Some e, s1, st1) \<Rightarrow> (Some e, s1, st1)
      | (None, s1, st1) \<Rightarrow> bind_hosts p enc rnd hs s1 st1)"

definition start_run ::
    "nat \<Rightarrow> (tokens \<Rightarrow> bytes result) \<Rightarrow> (string \<Rightarrow> bytes result) \<Rightarrow> server \<Rightarrow> site \<Rightarrow> error option \<times> server \<times> site" where
  "start_run p enc rnd s st =
     (case acquire_lock p (lock_path (sv_cfg s)) st of
        (Inl e, st1) \<Rightarrow> (Some e, s, st1)
      | (Inr _, st1) \<Rightarrow>
          (case bind_hosts p enc rnd (c_hosts (sv_cfg s)) s st1 of
             (Some e, s1, st2) \<Rightarrow> (Some e, s1, release_lock p st2)
           | (None, s1, st2) \<Rightarrow> (None, s1, st2)))"

text \<open>\<open>Close\<close> of a listener unlinks its path.\<close>

definition close_listeners :: "server \<Rightarrow> site \<Rightarrow> site" where
  "close_listeners s st =
     st\<lparr>st_socks := (\<lambda>f. if f \<in> set (map (tn_local_sock \<circ> snd) (sv_tunnels s)) then None else st_socks st f)\<rparr>"

text \<open>What the kernel does when a process ends, however it ends.\<close>

definition process_exit :: "nat \<Rightarrow> site \<Rightarrow> site" where
  "process_exit p st =
     (release_lock p st)\<lparr>st_socks := (\<lambda>f. if st_socks st f = Some (Listening p) then Some Stale else st_socks st f)\<rparr>"

subsection \<open>The daemon processes as a transition system\<close>

text \<open>
  \<open>Starting s hs\<close>: the lock is held and the hosts \<open>hs\<close> are still to be bound. \<open>Exiting\<close>: \<open>Run\<close> has
  returned, its deferred release is over, and the process is about to end.
\<close>

datatype dpc = Off | Starting server "host list" | Serving server | Exiting

record fleet =
  fl_site :: site
  fl_pc :: "nat \<Rightarrow> dpc"

definition moves :: "nat \<Rightarrow> dpc \<Rightarrow> site \<Rightarrow> fleet \<Rightarrow> fleet" where
  "moves p d st f = f\<lparr>fl_site := st, fl_pc := (fl_pc f)(p := d)\<rparr>"

inductive fl_step :: "config \<Rightarrow> (tokens \<Rightarrow> bytes result) \<Rightarrow> fleet \<Rightarrow> unit list \<Rightarrow> fleet \<Rightarrow> bool" for c enc where
  fl_start: "fl_pc f p = Off \<Longrightarrow> acquire_lock p (lock_path c) (fl_site f) = (Inr (), st) \<Longrightarrow>
     sv_cfg s = c \<Longrightarrow> sv_tunnels s = [] \<Longrightarrow> fl_step c enc f [] (moves p (Starting s (c_hosts c)) st f)"
| fl_refused: "fl_pc f p = Off \<Longrightarrow> acquire_lock p (lock_path c) (fl_site f) = (Inl e, st) \<Longrightarrow>
     fl_step c enc f [] (moves p Off st f)"
| fl_bind: "fl_pc f p = Starting s (h # hs) \<Longrightarrow> bind_host p enc rnd h s (fl_site f) = (None, s', st) \<Longrightarrow>
     fl_step c enc f [] (moves p (Starting s' hs) st f)"
| fl_failed: "fl_pc f p = Starting s (h # hs) \<Longrightarrow> bind_host p enc rnd h s (fl_site f) = (Some e, s', st) \<Longrightarrow>
     fl_step c enc f [] (moves p Exiting (release_lock p st) f)"
| fl_ready: "fl_pc f p = Starting s [] \<Longrightarrow> fl_step c enc f [] (moves p (Serving s) (fl_site f) f)"
| fl_stop: "fl_pc f p = Serving s \<Longrightarrow>
     fl_step c enc f [] (moves p Exiting (release_lock p (close_listeners s (fl_site f))) f)"
| fl_exit: "fl_step c enc f [] (moves p Off (process_exit p (fl_site f)) f)"

definition fl_init :: "site \<Rightarrow> fleet" where
  "fl_init st = \<lparr>fl_site = st\<lparr>st_lock := None\<rparr>, fl_pc = (\<lambda>_. Off)\<rparr>"

text \<open>A process that is starting or serving holds the lock, and every tunnel it has is its listener's.\<close>

definition owns :: "config \<Rightarrow> nat \<Rightarrow> server \<Rightarrow> site \<Rightarrow> bool" where
  "owns c p s st \<longleftrightarrow> sv_cfg s = c \<and>
     (\<forall>(l, t) \<in> set (sv_tunnels s). tn_local_sock t = sock_path c l \<and> st_socks st (sock_path c l) = Some (Listening p))"

fun dpc_ok :: "config \<Rightarrow> nat \<Rightarrow> dpc \<Rightarrow> site \<Rightarrow> bool" where
  "dpc_ok c p (Starting s hs) st \<longleftrightarrow> st_lock st = Some p \<and> owns c p s st \<and>
     (\<exists>old. c_hosts c = old @ hs \<and> map fst (sv_tunnels s) = map h_label old)"
| "dpc_ok c p (Serving s) st \<longleftrightarrow> st_lock st = Some p \<and> owns c p s st \<and>
     map fst (sv_tunnels s) = map h_label (c_hosts c)"
| "dpc_ok c p Off st = (st_lock st \<noteq> Some p)"
| "dpc_ok c p Exiting st = (st_lock st \<noteq> Some p)"

definition separate_hosts :: "config \<Rightarrow> bool" where
  "separate_hosts c \<longleftrightarrow> good_root (socket_dir c) \<and> distinct (map h_label (c_hosts c)) \<and>
     list_all (\<lambda>h. valid_label (h_label h)) (c_hosts c)"

definition fl_inv :: "config \<Rightarrow> fleet \<Rightarrow> bool" where
  "fl_inv c f \<longleftrightarrow> separate_hosts c \<longrightarrow> (\<forall>p. dpc_ok c p (fl_pc f p) (fl_site f))"

subsection \<open>The invariant\<close>

lemma sock_path_inject:
  assumes "separate_hosts c" and "valid_label l" "valid_label l'"
  shows "sock_path c l = sock_path c l' \<longleftrightarrow> l = l'"
proof
  have plain: "plain (x @ ''.sock'')" if "valid_label x" for x
    using valid_label_plain [OF that] by (auto simp: plain_def slash_def append_eq_Cons_conv)
  assume "sock_path c l = sock_path c l'"
  then have "path_comps (sock_path c l) = path_comps (sock_path c l')" by simp
  then show "l = l'"
    using assms plain by (simp add: sock_path_def separate_hosts_def join1_comps)
qed simp

lemma update_fresh: "k \<notin> set (map fst al) \<Longrightarrow> AList.update k v al = al @ [(k, v)]"
  by (induction al) auto

text \<open>Only the process that holds the lock has a state that says anything of the sockets.\<close>

lemma dpc_ok_elsewhere:
  "dpc_ok c q d st \<Longrightarrow> st_lock st \<noteq> Some q \<Longrightarrow> st_lock st' \<noteq> Some q \<Longrightarrow> dpc_ok c q d st'"
  by (cases d) auto

lemma dpc_ok_same:
  assumes "dpc_ok c q d st" and "st_lock st' = st_lock st"
    and "\<And>f. st_socks st f = Some (Listening q) \<Longrightarrow> st_socks st' f = Some (Listening q)"
  shows "dpc_ok c q d st'"
proof -
  have "owns c q s st \<Longrightarrow> owns c q s st'" for s using assms(3) by (fastforce simp: owns_def)
  then show ?thesis using assms(1,2) by (cases d) auto
qed

lemma acquire_lock_effect:
  "acquire_lock p path st = (Inr u, st') \<Longrightarrow> st_lock st = None \<and> st_lock st' = Some p \<and> st_socks st' = st_socks st"
  "acquire_lock p path st = (Inl e, st') \<Longrightarrow> st_lock st' = st_lock st \<and> st_socks st' = st_socks st"
  by (auto simp: acquire_lock_def split: prod.splits sum.splits option.splits if_splits)

lemma listen_local_effect:
  assumes "listen_local p c l st = (r, st')"
  shows "st_lock st' = st_lock st \<and>
    (\<forall>f. f \<noteq> sock_path c l \<longrightarrow> st_socks st' f = st_socks st f) \<and>
    (case r of Inl e \<Rightarrow> True | Inr s \<Rightarrow> s = sock_path c l \<and> st_socks st' s = Some (Listening p))"
  using assms by (auto simp: listen_local_def Let_def split: prod.splits if_splits)

lemma bind_host_effect:
  assumes "bind_host p enc rnd h s st = (e, s', st')"
  shows "st_lock st' = st_lock st \<and> sv_cfg s' = sv_cfg s \<and>
    (\<forall>f. f \<noteq> sock_path (sv_cfg s) (h_label h) \<longrightarrow> st_socks st' f = st_socks st f) \<and>
    (e = None \<longrightarrow> st_socks st' (sock_path (sv_cfg s) (h_label h)) = Some (Listening p) \<and>
      (\<exists>tok. sv_tunnels s' =
        AList.update (h_label h) (new_tunnel h (sock_path (sv_cfg s) (h_label h)) tok) (sv_tunnels s)))"
proof -
  obtain r st1 where l: "listen_local p (sv_cfg s) (h_label h) st = (r, st1)" by (metis surj_pair)
  from listen_local_effect [OF l] assms l show ?thesis
    by (auto simp: bind_host_def Let_def split: sum.splits prod.splits option.splits)
qed

lemma release_lock_effect: "st_socks (release_lock p st) = st_socks st" "st_lock (release_lock p st) \<noteq> Some p"
  by (auto simp: release_lock_def)

lemma bind_host_owns:
  assumes sep: "separate_hosts c" and hosts: "c_hosts c = old @ h # hs" and own: "owns c p s st"
    and fst: "map fst (sv_tunnels s) = map h_label old" and run: "bind_host p enc rnd h s st = (None, s', st')"
  shows "owns c p s' st' \<and> map fst (sv_tunnels s') = map h_label (old @ [h])"
proof -
  have c: "sv_cfg s = c" using own by (simp add: owns_def)
  have fresh: "h_label h \<notin> set (map fst (sv_tunnels s))"
    using sep hosts fst by (auto simp: separate_hosts_def)
  note eff = bind_host_effect [OF run, unfolded c]
  then obtain tok where t: "sv_tunnels s' = sv_tunnels s @ [(h_label h, new_tunnel h (sock_path c (h_label h)) tok)]"
    using update_fresh [OF fresh] by auto
  have "sock_path c l \<noteq> sock_path c (h_label h)" if "(l, t) \<in> set (sv_tunnels s)" for l t
  proof -
    have l: "l \<in> set (map h_label old)" using that unfolding fst [symmetric] by force
    then have "l \<noteq> h_label h" using fresh fst by metis
    moreover have "valid_label l" "valid_label (h_label h)"
      using l sep hosts by (auto simp: separate_hosts_def list_all_iff)
    ultimately show ?thesis using sock_path_inject [OF sep] by simp
  qed
  then show ?thesis using own eff t fst by (fastforce simp: owns_def new_tunnel_def)
qed

lemma fl_inv_moves:
  assumes "dpc_ok c p d st" and "\<And>q. q \<noteq> p \<Longrightarrow> dpc_ok c q (fl_pc f q) st"
  shows "dpc_ok c q (fl_pc (moves p d st f) q) (fl_site (moves p d st f))"
  using assms by (simp add: moves_def)

lemma fl_inv_step: "fl_inv c f \<Longrightarrow> fl_step c enc f es f' \<Longrightarrow> fl_inv c f'"
  unfolding fl_inv_def
proof (intro impI allI)
  fix q
  assume inv: "separate_hosts c \<longrightarrow> (\<forall>p. dpc_ok c p (fl_pc f p) (fl_site f))" and sep: "separate_hosts c"
  then have ok: "dpc_ok c p (fl_pc f p) (fl_site f)" for p by blast
  assume "fl_step c enc f es f'"
  then show "dpc_ok c q (fl_pc f' q) (fl_site f')"
  proof cases
    case (fl_start p st s)
    note eff = acquire_lock_effect(1) [OF fl_start(4)]
    show ?thesis unfolding fl_start(2)
      by (intro fl_inv_moves dpc_ok_elsewhere [OF ok]) (use eff fl_start in \<open>auto simp: owns_def\<close>)
  next
    case (fl_refused p e st)
    note eff = acquire_lock_effect(2) [OF fl_refused(4)]
    show ?thesis unfolding fl_refused(2)
      by (rule fl_inv_moves) (use eff fl_refused(3) ok [of p] dpc_ok_same [OF ok] in auto)
  next
    case (fl_bind p s h hs rnd s' st)
    obtain old where d: "st_lock (fl_site f) = Some p" "owns c p s (fl_site f)" "c_hosts c = old @ h # hs"
      "map fst (sv_tunnels s) = map h_label old" using ok [of p] fl_bind(3) by auto
    have "st_lock st = Some p" using bind_host_effect [OF fl_bind(4)] d(1) by simp
    moreover from bind_host_owns [OF sep d(3,2,4) fl_bind(4)] have "owns c p s' st"
      "map fst (sv_tunnels s') = map h_label (old @ [h])" by simp_all
    ultimately show ?thesis unfolding fl_bind(2) using d
      by (intro fl_inv_moves dpc_ok_elsewhere [OF ok]) auto
  next
    case (fl_failed p s h hs rnd e s' st)
    have "st_lock (fl_site f) = Some p" using ok [of p] fl_failed(3) by simp
    moreover from this have "st_lock (release_lock p st) = None"
      using bind_host_effect [OF fl_failed(4)] by (simp add: release_lock_def)
    ultimately show ?thesis unfolding fl_failed(2)
      by (intro fl_inv_moves dpc_ok_elsewhere [OF ok]) auto
  next
    case (fl_ready p s)
    then show ?thesis using ok [of p] ok unfolding fl_ready(2) by (intro fl_inv_moves) auto
  next
    case (fl_stop p s)
    have "st_lock (fl_site f) = Some p" using ok [of p] fl_stop(3) by simp
    moreover from this have "st_lock (release_lock p (close_listeners s (fl_site f))) = None"
      by (simp add: release_lock_def close_listeners_def)
    ultimately show ?thesis unfolding fl_stop(2)
      by (intro fl_inv_moves dpc_ok_elsewhere [OF ok]) auto
  next
    case (fl_exit p)
    let ?st = "process_exit p (fl_site f)"
    have lock: "st_lock ?st = (if st_lock (fl_site f) = Some p then None else st_lock (fl_site f))"
      by (simp add: process_exit_def release_lock_def)
    have socks: "st_socks (fl_site f) x = Some (Listening r) \<Longrightarrow> r \<noteq> p \<Longrightarrow> st_socks ?st x = Some (Listening r)" for x r
      by (simp add: process_exit_def)
    show ?thesis unfolding fl_exit(2)
    proof (rule fl_inv_moves)
      fix r assume "r \<noteq> p"
      show "dpc_ok c r (fl_pc f r) ?st"
      proof (cases "st_lock (fl_site f) = Some p")
        case True
        then show ?thesis using \<open>r \<noteq> p\<close> lock by (intro dpc_ok_elsewhere [OF ok]) auto
      next
        case False
        then show ?thesis using \<open>r \<noteq> p\<close> lock socks by (intro dpc_ok_same [OF ok]) auto
      qed
    qed (simp add: lock)
  qed
qed

interpretation fl: system "fl_step c enc" "fl_init st" "fl_inv c" for c enc st
proof
  show "fl_inv c (fl_init st)" by (simp add: fl_inv_def fl_init_def)
qed (rule fl_inv_step)

lemma silent_trans: "runs step s [] s' \<Longrightarrow> runs step s' [] s'' \<Longrightarrow> runs step s [] s''"
  using runs_trans [of step s' "[]" s'' s "[]"] by simp

lemma bind_hosts_steps:
  "bind_hosts p enc rnd hs s st = (None, s', st') \<Longrightarrow>
     runs (fl_step c enc) (moves p (Starting s hs) st f) [] (moves p (Starting s' []) st' f)"
proof (induction p enc rnd hs s st rule: bind_hosts.induct)
  case (2 p enc rnd h hs s st)
  obtain e s1 st1 where b: "bind_host p enc (rnd (h_label h)) h s st = (e, s1, st1)" by (metis prod_cases3)
  with "2.prems" have rest: "e = None" "bind_hosts p enc rnd hs s1 st1 = (None, s', st')"
    by (auto split: option.splits)
  let ?f = "moves p (Starting s (h # hs)) st f"
  have "fl_step c enc ?f [] (moves p (Starting s1 hs) st1 ?f)"
    using b rest(1) by (intro fl_bind) (simp_all add: moves_def)
  moreover have "moves p (Starting s1 hs) st1 ?f = moves p (Starting s1 hs) st1 f" by (simp add: moves_def)
  ultimately have "fl_step c enc ?f [] (moves p (Starting s1 hs) st1 f)" by simp
  from silent_trans [OF runs_one "2.IH" [OF b [symmetric] rest(1) HOL.refl rest(2)]] this show ?case by blast
qed (simp add: runs_nil)

text \<open>The sequential start-up is a run of the system.\<close>

lemma start_run_steps:
  assumes "fl_pc f p = Off" and "sv_cfg s = c" and "sv_tunnels s = []"
    and "start_run p enc rnd s (fl_site f) = (None, s', st')"
  shows "runs (fl_step c enc) f [] (moves p (Serving s') st' f)"
proof -
  obtain st1 where a: "acquire_lock p (lock_path c) (fl_site f) = (Inr (), st1)"
    and b: "bind_hosts p enc rnd (c_hosts c) s st1 = (None, s', st')"
    using assms(2,4) by (auto simp: start_run_def split: prod.splits sum.splits option.splits)
  have "fl_step c enc (moves p (Starting s' []) st' f) [] (moves p (Serving s') st' (moves p (Starting s' []) st' f))"
    using fl_ready [of "moves p (Starting s' []) st' f" p s' c enc] by (simp add: moves_def)
  then have ready: "fl_step c enc (moves p (Starting s' []) st' f) [] (moves p (Serving s') st' f)" by (simp add: moves_def)
  have start: "fl_step c enc f [] (moves p (Starting s (c_hosts c)) st1 f)"
    by (rule fl_start [OF assms(1) a assms(2,3)])
  show ?thesis
    by (rule silent_trans, rule runs_one, rule start, rule silent_trans, rule bind_hosts_steps, rule b, rule runs_one, rule ready)
qed

subsection \<open>Properties of the daemon processes\<close>

text \<open>
  C9: however many daemons are started, stopped and killed over one state directory, in whatever order
  and with whichever calls failing, at most one serves at a time; and while one serves, it holds the
  lock, has a tunnel for every host, and is itself the listener at every request socket its tunnels
  forward to: no other process has taken a socket from it.
\<close>

theorem daemon_sockets_kept:
  assumes "separate_hosts c" and "runs (fl_step c enc) (fl_init st) tr f" and "fl_pc f p = Serving s"
  shows "st_lock (fl_site f) = Some p \<and> (\<forall>q s'. fl_pc f q = Serving s' \<longrightarrow> q = p) \<and>
    list_all (\<lambda>h. st_socks (fl_site f) (sock_path c (h_label h)) = Some (Listening p) \<and>
      map_option tn_local_sock (map_of (sv_tunnels s) (h_label h)) = Some (sock_path c (h_label h))) (c_hosts c)"
proof -
  have ok: "dpc_ok c q (fl_pc f q) (fl_site f)" for q
    using fl.invariant [OF assms(2)] assms(1) by (simp add: fl_inv_def)
  then have p: "st_lock (fl_site f) = Some p" "owns c p s (fl_site f)" "map fst (sv_tunnels s) = map h_label (c_hosts c)"
    using ok [of p] assms(3) by simp_all
  have "q = p" if "fl_pc f q = Serving s'" for q s'
    using ok [of q] that p(1) by simp
  moreover have "st_socks (fl_site f) (sock_path c (h_label h)) = Some (Listening p) \<and>
      map_option tn_local_sock (map_of (sv_tunnels s) (h_label h)) = Some (sock_path c (h_label h))"
    if "h \<in> set (c_hosts c)" for h
  proof -
    have "h_label h \<in> set (map fst (sv_tunnels s))" using that p(3) by simp
    then obtain t where t: "map_of (sv_tunnels s) (h_label h) = Some t" by (auto simp: dest: weak_map_of_SomeI)
    from map_of_SomeD [OF this] p(2) show ?thesis by (auto simp: owns_def t)
  qed
  ultimately show ?thesis using p(1) by (auto simp: list_all_iff)
qed

definition two_hosts :: config where
  "two_hosts = no_config\<lparr>c_state_dir := ''/s'', c_hosts :=
     [\<lparr>h_label = ''a'', h_dest = ''a'', h_port = 1, h_keep = False\<rparr>, \<lparr>h_label = ''b'', h_dest = ''b'', h_port = 2, h_keep = False\<rparr>]\<rparr>"

definition two_server :: server where
  "two_server = \<lparr>sv_cfg = two_hosts, sv_mir = \<lparr>mir_root = ''/m'', mir_idx = \<lparr>ix_path = ''/s/i'', ix_entries = []\<rparr>\<rparr>,
     sv_tokens = \<lparr>ts_path = ''/s/t'', ts_tokens = []\<rparr>, sv_tunnels = [], sv_open_command = []\<rparr>"

definition two_site :: site where
  "two_site = \<lparr>st_lock = None, st_socks = (\<lambda>f. if f = ''/s/hosts/a.sock'' then Some Stale else None),
     st_os = \<lparr>os_fs = [([], Dir zero_time), ([''s''], Dir zero_time)], os_now = zero_time, os_sched = []\<rparr>\<rparr>"

lemma two_hosts_start:
  "fst (start_run 0 (\<lambda>_. Inr ''{}'') (\<lambda>_. Inr ''r'') two_server two_site) = None"
  by code_simp

lemma two_hosts_separate: "separate_hosts two_hosts"
  by code_simp

theorem daemon_sockets_kept_witness:
  "st_socks (snd (snd (start_run 0 (\<lambda>_. Inr ''{}'') (\<lambda>_. Inr ''r'') two_server two_site))) (sock_path two_hosts ''a'') =
     Some (Listening 0)"
proof -
  obtain s' st' where run: "start_run 0 (\<lambda>_. Inr ''{}'') (\<lambda>_. Inr ''r'') two_server two_site = (None, s', st')"
    using two_hosts_start by (metis prod.collapse)
  let ?f = "moves 0 (Serving s') st' (fl_init two_site)"
  have "runs (fl_step two_hosts (\<lambda>_. Inr ''{}'')) (fl_init two_site) [] ?f"
    using start_run_steps [of "fl_init two_site" 0 two_server two_hosts "\<lambda>_. Inr ''{}''" "\<lambda>_. Inr ''r''" s' st'] run
    by (simp add: fl_init_def two_server_def two_site_def)
  from daemon_sockets_kept [OF two_hosts_separate this, of 0 s'] show ?thesis
    unfolding run by (simp add: moves_def two_hosts_def list_all_iff)
qed

end
