(* ===== verification/Commands.thy ===== *)
theory Commands
  imports Flags Launchd Daemon Client
begin

text \<open>
  The two programs, \<open>src/cmd/lopend/main.go\<close> and \<open>src/cmd/lopen/main.go\<close>: choosing the subcommand,
  reading its flags, and the sequence of calls with the exit status each ends in. Messages are left
  out. What the machine provides is a field of \<open>cli\<close>, as are the JSON codecs.
\<close>

record cli =
  cl_environ :: environ
  cl_exe :: "string result"
  cl_uid :: int
  cl_commands :: commands
  cl_atoi :: "string \<Rightarrow> int option"
  cl_dec_config :: "bytes \<Rightarrow> config option"
  cl_enc_config :: "config \<Rightarrow> bytes result"
  cl_dec_index :: "bytes \<Rightarrow> entries option"
  cl_dec_tokens :: "bytes \<Rightarrow> tokens option"
  cl_enc_tokens :: "tokens \<Rightarrow> bytes result"
  cl_random :: "string \<Rightarrow> bytes result"

subsection \<open>Choosing the subcommand of \<open>lopend\<close>\<close>

text \<open>\<open>IndexPanic\<close>: the first byte of an empty argument is taken, which panics.\<close>

datatype subcommand =
    RunDaemon "string list" | SetupHost "string list" | InstallAgent "string list"
  | UninstallAgent "string list" | Doctor "string list" | Usage | UnknownSubcommand string | IndexPanic

definition lopend_main :: "string list \<Rightarrow> subcommand" where
  "lopend_main argv =
     (case argv of
        a0 # a # rest \<Rightarrow>
          (if a = ''run'' then RunDaemon rest
           else if a = ''setup'' then SetupHost rest
           else if a = ''install'' then InstallAgent rest
           else if a = ''uninstall'' then UninstallAgent rest
           else if a = ''doctor'' then Doctor rest
           else if a = ''-h'' \<or> a = ''--help'' \<or> a = ''help'' then Usage
           else
             (case a of
                [] \<Rightarrow> IndexPanic
              | c # _ \<Rightarrow> if c = CHR ''-'' then RunDaemon (a # rest) else UnknownSubcommand a))
      | _ \<Rightarrow> RunDaemon [])"

subsection \<open>The subcommands\<close>

text \<open>How a process ends, or that it goes on serving.\<close>

datatype outcome = Exit nat | ServingHosts server

fun flags_status :: "flag_stop \<Rightarrow> outcome" where
  "flags_status HelpAsked = Exit 0"
| "flags_status BadFlags = Exit 2"

definition config_flag :: formals where
  "config_flag = [(''config'', StringFlag)]"

definition in_site :: "'a \<times> os \<Rightarrow> site \<Rightarrow> 'a \<times> site" where
  "in_site r st = (case r of (x, w) \<Rightarrow> (x, st\<lparr>st_os := w\<rparr>))"

definition run_daemon :: "cli \<Rightarrow> nat \<Rightarrow> string list \<Rightarrow> site \<Rightarrow> outcome \<times> site" where
  "run_daemon cl p args st =
     (case parse_flags (cl_atoi cl) config_flag args [] of
        Inl stop \<Rightarrow> (flags_status stop, st)
      | Inr (vs, _) \<Rightarrow>
          (case in_site (config_load (cl_environ cl) (cl_dec_config cl) (string_flag vs ''config'') (st_os st)) st of
             (Inl e, st1) \<Rightarrow> (Exit 1, st1)
           | (Inr c, st1) \<Rightarrow>
               if c_hosts c = [] then (Exit 1, st1)
               else
                 case in_site (new_server (cl_dec_index cl) (cl_dec_tokens cl) c (st_os st1)) st1 of
                   (Inl e, st2) \<Rightarrow> (Exit 1, st2)
                 | (Inr s, st2) \<Rightarrow>
                     (case start_run p (cl_enc_tokens cl) (cl_random cl) s st2 of
                        (Some e, _, st3) \<Rightarrow> (Exit 1, st3)
                      | (None, s', st3) \<Rightarrow> (ServingHosts s', st3))))"

definition setup_flags :: formals where
  "setup_flags = config_flag @ [(''label'', StringFlag), (''port'', IntFlag), (''keep'', BoolFlag)]"

definition setup_opts :: "settings \<Rightarrow> string \<Rightarrow> enroll_opts" where
  "setup_opts vs dest =
     \<lparr>eo_dest = dest, eo_label = string_flag vs ''label'', eo_port = int_flag vs ''port'',
      eo_keep = bool_flag vs ''keep'', eo_ssh = [], eo_scp = []\<rparr>"

definition cmd_setup :: "cli \<Rightarrow> string list \<Rightarrow> os \<Rightarrow> outcome \<times> os" where
  "cmd_setup cl args w =
     (case parse_flags (cl_atoi cl) setup_flags args [] of
        Inl stop \<Rightarrow> (flags_status stop, w)
      | Inr (vs, [dest]) \<Rightarrow>
          (case find_assets (en_var (cl_environ cl) ''LOPEN_LIBEXEC'') (cl_exe cl) w of
             (Inl e, w1) \<Rightarrow> (Exit 1, w1)
           | (Inr assets, w1) \<Rightarrow>
               (case config_load_raw (cl_environ cl) (cl_dec_config cl) (string_flag vs ''config'') w1 of
                  (Inl e, w2) \<Rightarrow> (Exit 1, w2)
                | (Inr c, w2) \<Rightarrow>
                    (case enroll (cl_commands cl) c assets (setup_opts vs dest) w2 of
                       ((_, Some e), _, w3) \<Rightarrow> (Exit 1, w3)
                     | ((_, None), c', w3) \<Rightarrow>
                         (case config_save (cl_environ cl) (cl_enc_config cl) c' w3 of
                            (Inl e, w4) \<Rightarrow> (Exit 1, w4)
                          | (Inr _, w4) \<Rightarrow> (Exit 0, w4)))))
      | Inr (vs, _) \<Rightarrow> (Exit 2, w))"

definition default_log_path :: "environ \<Rightarrow> string result" where
  "default_log_path en =
     (case en_home en of
        Inl e \<Rightarrow> Inl e
      | Inr h \<Rightarrow> Inr (path_join [h, ''Library'', ''Logs'', ''lopen'', ''lopend.log'']))"

definition status_of :: "error option \<times> os \<Rightarrow> outcome \<times> os" where
  "status_of r = (case r of (e, w) \<Rightarrow> (Exit (if e = None then 0 else 1), w))"

definition cmd_install :: "cli \<Rightarrow> string list \<Rightarrow> os \<Rightarrow> outcome \<times> os" where
  "cmd_install cl args w =
     (case parse_flags (cl_atoi cl) config_flag args [] of
        Inl stop \<Rightarrow> (flags_status stop, w)
      | Inr (vs, _) \<Rightarrow>
          (case (cl_exe cl, default_log_path (cl_environ cl)) of
             (Inr exe, Inr log) \<Rightarrow>
               (case os_mkdir_all (path_dir log) w of
                  (Inl e, w1) \<Rightarrow> (Exit 1, w1)
                | (Inr _, w1) \<Rightarrow>
                    (let cp = (if string_flag vs ''config'' = [] then default_path (cl_environ cl) else string_flag vs ''config'') in
                     status_of (install (cl_commands cl) (en_home (cl_environ cl)) (cl_uid cl) exe cp log w1)))
           | _ \<Rightarrow> (Exit 1, w)))"

definition cmd_uninstall :: "cli \<Rightarrow> string list \<Rightarrow> os \<Rightarrow> outcome \<times> os" where
  "cmd_uninstall cl args w =
     (case parse_flags (cl_atoi cl) [] args [] of
        Inl stop \<Rightarrow> (flags_status stop, w)
      | Inr _ \<Rightarrow> status_of (uninstall (cl_commands cl) (en_home (cl_environ cl)) (cl_uid cl) w))"

definition cmd_doctor :: "cli \<Rightarrow> string list \<Rightarrow> os \<Rightarrow> outcome \<times> os" where
  "cmd_doctor cl args w =
     (case parse_flags (cl_atoi cl) config_flag args [] of
        Inl stop \<Rightarrow> (flags_status stop, w)
      | Inr (vs, _) \<Rightarrow>
          (let path = (if string_flag vs ''config'' = [] then default_path (cl_environ cl) else string_flag vs ''config'') in
           case config_load (cl_environ cl) (cl_dec_config cl) path w of
             (Inl e, w1) \<Rightarrow> (Exit 1, w1)
           | (Inr c, w1) \<Rightarrow> (Exit 0, w1)))"

subsection \<open>\<open>lopen\<close>\<close>

definition lopen_flags :: formals where
  "lopen_flags = [(''n'', BoolFlag), (''force'', BoolFlag), (''reveal'', BoolFlag), (''a'', StringFlag),
     (''label'', StringFlag), (''agent'', StringFlag), (''addr'', StringFlag)]"

definition lopen_options :: "settings \<Rightarrow> options" where
  "lopen_options vs =
     \<lparr>lo_agent = string_flag vs ''agent'', lo_addr = string_flag vs ''addr'', lo_label = string_flag vs ''label'',
      lo_token = [], lo_wait = (\<not> bool_flag vs ''n''), lo_force = bool_flag vs ''force'',
      lo_reveal = bool_flag vs ''reveal'', lo_app = string_flag vs ''a'', lo_retry = 0, lo_max_size = 0\<rparr>"

text \<open>\<open>args\<close> are the arguments after the program's name; \<open>None\<close> if the command never ends.\<close>

definition lopen_main :: "(string \<Rightarrow> int option) \<Rightarrow> machine \<Rightarrow> string list \<Rightarrow> os \<Rightarrow> (outcome \<times> os) option" where
  "lopen_main atoi mc args w =
     (case parse_flags atoi lopen_flags args [] of
        Inl stop \<Rightarrow> Some (flags_status stop, w)
      | Inr (vs, [path]) \<Rightarrow>
          (case client_open mc path (lopen_options vs) w of
             None \<Rightarrow> None
           | Some ((None, _), w') \<Rightarrow> Some (Exit 0, w')
           | Some ((Some e, _), w') \<Rightarrow> Some (Exit 1, w'))
      | Inr (vs, _) \<Rightarrow> Some (Exit 2, w))"

subsection \<open>Lemmas\<close>

text \<open>An empty first argument, and nothing else, makes \<open>lopend\<close> panic.\<close>

lemma lopend_empty_argument: "lopend_main argv = IndexPanic \<longleftrightarrow> (\<exists>a0 rest. argv = a0 # [] # rest)"
  by (auto simp: lopend_main_def split: list.splits if_splits)

text \<open>After two dashes the path reaches \<open>Open\<close> as it is, whatever it begins with, and flags before it are kept.\<close>

lemma lopen_literal_path:
  assumes "list_all (\<lambda>(n, v). plain_name n \<and>
      (case map_of lopen_flags n of None \<Rightarrow> False | Some k \<Rightarrow> set_flag atoi k v \<noteq> None)) as"
  shows "lopen_main atoi mc (map flag_arg as @ [[dash, dash], path]) w =
    (case client_open mc path (lopen_options
        (fold (\<lambda>(n, v). AList.update n (the (set_flag atoi (the (map_of lopen_flags n)) v))) as [])) w of
       None \<Rightarrow> None
     | Some ((None, _), w') \<Rightarrow> Some (Exit 0, w')
     | Some ((Some e, _), w') \<Rightarrow> Some (Exit 1, w'))"
  using parse_flag_args [OF assms, of "[path]" "[]"] by (simp add: lopen_main_def)

lemma has_assets_fs: "has_assets d w = (b, w') \<Longrightarrow> os_fs w' = os_fs w"
  by (auto simp: has_assets_def split: prod.splits dest: read_fs(1))

lemma find_assets_fs: "find_assets libexec exe w = (r, w') \<Longrightarrow> os_fs w' = os_fs w"
  by (auto simp: find_assets_def find_in_dist_def Let_def split: if_splits sum.splits prod.splits bool.splits
      dest!: has_assets_fs)

lemma config_load_raw_read:
  assumes "config_load_raw en dec path w = (Inr c, w')" and "p = (if path = [] then default_path en else path)"
  shows "os_fs w' = os_fs w \<and>
    (case file_data (os_fs w) p of
       None \<Rightarrow> c = no_config\<lparr>c_path := p\<rparr>
     | Some b \<Rightarrow> \<exists>c0. dec b = Some c0 \<and> c = c0\<lparr>c_path := p\<rparr>)"
  using assms
  by (auto simp: config_load_raw_def Let_def os_read_file_def file_data_def env_step_fs
      split: prod.splits sum.splits option.splits if_splits node.splits)

lemma config_save_result:
  assumes "config_save en enc c w = (Inr (), w')" and "good_file (config_file en c)"
  shows "\<exists>b. enc (c\<lparr>c_path := config_file en c\<rparr>) = Inr b \<and> file_data (os_fs w') (config_file en c) = Some b"
proof -
  let ?f = "config_file en c"
  obtain w1 b where b: "enc (c\<lparr>c_path := ?f\<rparr>) = Inr b" "write_via_tmp ?f b w1 = (Inr (), w')"
    using assms(1) by (auto simp: config_save_def Let_def bind_os_def write_via_tmp_def split: prod.splits sum.splits)
  with write_via_tmp_result [OF assms(2) b(2)] show ?thesis by auto
qed

lemma file_data_read:
  assumes "file_data (os_fs w) p = Some b" and "os_sched w = []"
  shows "os_read_file p w = (Inr b, w)"
  using assms by (auto simp: os_read_file_def env_step_def file_data_def split: option.splits node.splits)

lemma fill_accepts:
  "succeeds (fst (fill en c w)) \<longleftrightarrow>
     succeeds (en_home en) \<and> list_all host_ok (c_hosts c) \<and> distinct (map h_label (c_hosts c))"
proof -
  have "(\<exists>hs. fill_hosts [] (c_hosts c) = Inr hs) \<longleftrightarrow> list_all host_ok (c_hosts c) \<and> distinct (map h_label (c_hosts c))"
    by (simp add: fill_hosts_iff)
  moreover have "succeeds (fst (fill en c w)) \<longleftrightarrow> succeeds (en_home en) \<and> (\<exists>hs. fill_hosts [] (c_hosts c) = Inr hs)"
    by (auto simp: fill_def Let_def split: sum.splits prod.splits)
  ultimately show ?thesis by simp
qed

lemma enroll_adds:
  assumes "enroll cm c assets opt w = ((h, None), c', w')"
  shows "h = \<lparr>h_label = (if eo_label opt = [] then derive_label (eo_dest opt) else eo_label opt),
      h_dest = eo_dest opt, h_port = eo_port opt, h_keep = eo_keep opt\<rparr> \<and> add_host c h = Inr c'"
  using assms by (auto simp: enroll_def Let_def split: if_splits prod.splits sum.splits option.splits)

lemma cmd_setup_success:
  assumes "cmd_setup cl args w = (Exit 0, w')" and "parse_flags (cl_atoi cl) setup_flags args [] = Inr (vs, [dest])"
  obtains assets c h c' w1 w2 w3 where "os_fs w1 = os_fs w"
    "config_load_raw (cl_environ cl) (cl_dec_config cl) (string_flag vs ''config'') w1 = (Inr c, w2)"
    "enroll (cl_commands cl) c assets (setup_opts vs dest) w2 = ((h, None), c', w3)"
    "config_save (cl_environ cl) (cl_enc_config cl) c' w3 = (Inr (), w')"
  using assms
  by (auto simp: cmd_setup_def split: prod.splits sum.splits option.splits dest!: find_assets_fs)

subsection \<open>Properties\<close>

text \<open>
  C27: when \<open>lopend setup\<close> exits with success, the saved configuration is the one the file held before
  with the new host at its end, under the given or derived label; and the daemon accepts it exactly
  when the home directory is known, all earlier hosts were acceptable and distinct, and the port that
  was given is zero or at most 65535: a setup with a larger port succeeds and leaves a configuration
  with which the daemon no longer starts.
\<close>

theorem setup_then_load:
  assumes "cmd_setup cl args w = (Exit 0, w')" and "parse_flags (cl_atoi cl) setup_flags args [] = Inr (vs, [dest])"
    and "p = (if string_flag vs ''config'' = [] then default_path (cl_environ cl) else string_flag vs ''config'')"
    and "good_file p" and "os_sched w' = []"
    and "\<forall>c b. cl_enc_config cl c = Inr b \<longrightarrow>
      (\<exists>c0. cl_dec_config cl b = Some c0 \<and> c0\<lparr>c_path := []\<rparr> = c\<lparr>c_path := []\<rparr>)"
  shows "\<exists>c h. (case file_data (os_fs w) p of
       None \<Rightarrow> c = no_config\<lparr>c_path := p\<rparr>
     | Some b \<Rightarrow> \<exists>c0. cl_dec_config cl b = Some c0 \<and> c = c0\<lparr>c_path := p\<rparr>) \<and>
    h_label h = (if string_flag vs ''label'' = [] then derive_label dest else string_flag vs ''label'') \<and>
    h_dest h = dest \<and> h_port h = int_flag vs ''port'' \<and> h_keep h = bool_flag vs ''keep'' \<and>
    fst (config_load_raw (cl_environ cl) (cl_dec_config cl) (string_flag vs ''config'') w') =
      Inr (c\<lparr>c_hosts := c_hosts c @ [h]\<rparr>) \<and>
    (succeeds (fst (config_load (cl_environ cl) (cl_dec_config cl) (string_flag vs ''config'') w')) \<longleftrightarrow>
      succeeds (en_home (cl_environ cl)) \<and> list_all host_ok (c_hosts c) \<and> distinct (map h_label (c_hosts c)) \<and>
      0 \<le> int_flag vs ''port'' \<and> int_flag vs ''port'' \<le> 65535)"
proof -
  let ?en = "cl_environ cl" and ?dec = "cl_dec_config cl" and ?path = "string_flag vs ''config''"
  obtain assets c h c' w1 w2 w3 where fs: "os_fs w1 = os_fs w"
    and raw: "config_load_raw ?en ?dec ?path w1 = (Inr c, w2)"
    and en: "enroll (cl_commands cl) c assets (setup_opts vs dest) w2 = ((h, None), c', w3)"
    and sv: "config_save ?en (cl_enc_config cl) c' w3 = (Inr (), w')"
    by (rule cmd_setup_success [OF assms(1,2)])
  have old: "case file_data (os_fs w) p of None \<Rightarrow> c = no_config\<lparr>c_path := p\<rparr>
      | Some b \<Rightarrow> \<exists>c0. ?dec b = Some c0 \<and> c = c0\<lparr>c_path := p\<rparr>"
    using config_load_raw_read [OF raw assms(3)] fs by simp
  then have path: "c_path c = p" by (auto split: option.splits)
  note ea = enroll_adds [OF en, THEN conjunct1] enroll_adds [OF en, THEN conjunct2]
  have h: "h_label h = (if string_flag vs ''label'' = [] then derive_label dest else string_flag vs ''label'')"
      "h_dest h = dest" "h_port h = int_flag vs ''port''" "h_keep h = bool_flag vs ''keep''"
    by (simp_all add: ea(1) setup_opts_def)
  have c': "c' = c\<lparr>c_hosts := c_hosts c @ [h]\<rparr>" "valid_label (h_label h)" "valid_dest (h_dest h)"
      "h_label h \<notin> set (map h_label (c_hosts c))" using ea(2) by (simp_all add: add_host_Inr)
  have "p \<noteq> []" using assms(4) by (auto simp: good_file_def)
  then have saved_in: "config_file ?en c' = p" using path c'(1) by (simp add: config_file_def)
  from config_save_result [OF sv] assms(4) obtain b where b: "cl_enc_config cl (c'\<lparr>c_path := p\<rparr>) = Inr b"
    "file_data (os_fs w') p = Some b" unfolding saved_in by blast
  then obtain c0 where c0: "?dec b = Some c0" "c0\<lparr>c_path := []\<rparr> = c'\<lparr>c_path := []\<rparr>" using assms(6) by fastforce
  have "c0\<lparr>c_path := p\<rparr> = (c0\<lparr>c_path := []\<rparr>)\<lparr>c_path := p\<rparr>" by simp
  also have "\<dots> = c'" unfolding c0(2) using path c'(1) by simp
  finally have load: "c0\<lparr>c_path := p\<rparr> = c'" .
  note rd = file_data_read [OF b(2) assms(5)]
  have "fst (config_load_raw ?en ?dec ?path w') = Inr c'"
    using rd c0(1) load by (simp add: config_load_raw_def assms(3) [symmetric] Let_def)
  moreover have "fst (config_load ?en ?dec ?path w') = fst (fill ?en c' w')"
    using rd c0(1) load by (simp add: config_load_def assms(3) [symmetric] Let_def)
  moreover have "succeeds (fst (fill ?en c' w')) \<longleftrightarrow> succeeds (en_home ?en) \<and> list_all host_ok (c_hosts c) \<and>
      distinct (map h_label (c_hosts c)) \<and> 0 \<le> int_flag vs ''port'' \<and> int_flag vs ''port'' \<le> 65535"
  proof -
    have "host_ok h \<longleftrightarrow> 0 \<le> int_flag vs ''port'' \<and> int_flag vs ''port'' \<le> 65535"
      using c'(2,3) h(3) by (auto simp: host_ok_def port_of_def default_remote_port_def)
    then show ?thesis
      using fill_accepts [of ?en c' w'] c'(1,4) by auto
  qed
  ultimately show ?thesis using old h c'(1) by (intro exI [of _ c] exI [of _ h]) simp
qed

definition port_config :: config where
  "port_config = no_config\<lparr>c_hosts := [\<lparr>h_label = ''h'', h_dest = ''h.net'', h_port = 70000, h_keep = False\<rparr>]\<rparr>"

definition demo_cli :: cli where
  "demo_cli = \<lparr>cl_environ = \<lparr>en_home = Inr ''/u'', en_windows = False, en_var = (\<lambda>_. ''/a'')\<rparr>, cl_exe = Inl NotExist, cl_uid = 1,
     cl_commands = \<lparr>cm_run = (\<lambda>_ _ w. (None, w)), cm_out = (\<lambda>_ _ w. ((''x86_64'', None), w))\<rparr>,
     cl_atoi = (\<lambda>_. Some 70000), cl_dec_config = (\<lambda>b. if b = ''t'' then Some port_config else None),
     cl_enc_config = (\<lambda>c. if c\<lparr>c_path := []\<rparr> = port_config then Inr ''t'' else Inl ConfigError),
     cl_dec_index = (\<lambda>_. None), cl_dec_tokens = (\<lambda>_. None), cl_enc_tokens = (\<lambda>_. Inr []), cl_random = (\<lambda>_. Inr [])\<rparr>"

definition setup_os :: os where
  "setup_os = \<lparr>os_fs = [([], Dir zero_time), ([''a''], Dir zero_time),
     ([''a'', ''lopen-linux-amd64''], File [] zero_time True)], os_now = zero_time, os_sched = []\<rparr>"

definition setup_args :: "string list" where
  "setup_args = [''-config=/c'', ''-label=h'', ''-port=70000'', ''h.net'']"

lemma demo_setup_runs: "fst (cmd_setup demo_cli setup_args setup_os) = Exit 0"
  by code_simp

lemma demo_setup_ends: "os_sched (snd (cmd_setup demo_cli setup_args setup_os)) = []"
  by code_simp

lemma demo_setup_flags:
  "parse_flags (cl_atoi demo_cli) setup_flags setup_args [] =
     Inr ([(''config'', VString ''/c''), (''label'', VString ''h''), (''port'', VInt 70000)], [''h.net''])"
  by code_simp

theorem setup_then_load_witness:
  "fst (cmd_setup demo_cli setup_args setup_os) = Exit 0 \<and>
   \<not> succeeds (fst (config_load (cl_environ demo_cli) (cl_dec_config demo_cli) ''/c'' (snd (cmd_setup demo_cli setup_args setup_os))))"
proof -
  let ?vs = "[(''config'', VString ''/c''), (''label'', VString ''h''), (''port'', VInt 70000)]"
  have run: "cmd_setup demo_cli setup_args setup_os = (Exit 0, snd (cmd_setup demo_cli setup_args setup_os))"
    using demo_setup_runs by (metis prod.collapse)
  have p: "''/c'' = (if string_flag ?vs ''config'' = [] then default_path (cl_environ demo_cli) else string_flag ?vs ''config'')"
    by (simp add: string_flag_def)
  have enc: "cl_enc_config demo_cli c = (if c\<lparr>c_path := []\<rparr> = port_config then Inr ''t'' else Inl ConfigError)" for c
    by (simp add: demo_cli_def)
  have dec: "cl_dec_config demo_cli ''t'' = Some port_config" by (simp add: demo_cli_def)
  have blank: "port_config\<lparr>c_path := []\<rparr> = port_config" by (simp add: port_config_def no_config_def)
  have codec: "\<forall>c b. cl_enc_config demo_cli c = Inr b \<longrightarrow>
      (\<exists>c0. cl_dec_config demo_cli b = Some c0 \<and> c0\<lparr>c_path := []\<rparr> = c\<lparr>c_path := []\<rparr>)"
  proof (intro allI impI)
    fix c b assume "cl_enc_config demo_cli c = Inr b"
    then have "c\<lparr>c_path := []\<rparr> = port_config \<and> b = ''t''" by (simp add: enc split: if_splits)
    then show "\<exists>c0. cl_dec_config demo_cli b = Some c0 \<and> c0\<lparr>c_path := []\<rparr> = c\<lparr>c_path := []\<rparr>"
      using dec blank by metis
  qed
  have good: "good_file ''/c''" by code_simp
  have "\<not> int_flag ?vs ''port'' \<le> 65535" by (simp add: int_flag_def)
  with setup_then_load [OF run demo_setup_flags p good demo_setup_ends codec]
  have "\<not> succeeds (fst (config_load (cl_environ demo_cli) (cl_dec_config demo_cli)
      (string_flag ?vs ''config'') (snd (cmd_setup demo_cli setup_args setup_os))))"
    by blast
  then show ?thesis using demo_setup_runs by (simp add: string_flag_def)
qed

end
