(* ===== verification/Spec2Isabelle.thy ===== *)
theory Spec2Isabelle
  imports Collect Progress End_To_End Keyed_Mutex Accept Commands
begin

text \<open>
  lopen opens a file of a remote machine in the local desktop. The command \<open>lopen\<close> on the remote
  machine connects to a loopback port that an ssh tunnel of the local daemon \<open>lopend\<close> forwards to a
  request socket; it sends a header with a token and the content in chunks; the daemon checks the
  request, stages the content, swaps it into a mirror of the remote tree, opens the copy and answers.
  An index of what was synced protects copies the user has edited, and a garbage collection bounds the
  mirror. This development models the programs of \<open>src/cmd\<close> and the packages of \<open>src/internal\<close>, and
  proves what they are relied upon for.

  \<^bold>\<open>The Go side.\<close>
  \<open>Prelude\<close> has the error values (one constructor per error the source creates), the time type, 64-bit
  arithmetic written out (\<open>i64\<close>) and Go's string functions; \<open>Regex\<close>, \<open>Utf8\<close>, \<open>GoPath\<close>, \<open>GoText\<close> and
  \<open>Flags\<close> model what the source uses of \<open>regexp\<close>, \<open>unicode/utf8\<close>, \<open>path\<close>, \<open>filepath\<close>, \<open>strings\<close>,
  \<open>strconv\<close> and \<open>flag\<close>. A Go string is a list of bytes. \<open>FileSys\<close> is the operating system: a tree of
  nodes, a clock, and a schedule that decides which call fails and how far it gets, so that a statement
  about all schedules covers every failure of every call, partial removals and short writes included.
  \<open>Trees\<close> says what each call does to whole subtrees. An error is \<open>Inl\<close>, a result \<open>Inr\<close>; the state is
  passed explicitly.

  \<^bold>\<open>The transfer.\<close>
  \<open>Wire\<close> and \<open>Chunks\<close> are the framing of \<open>protocol.go\<close> (\<open>ChunkWriter\<close>, \<open>ChunkReader\<close>) over readers with
  arbitrary short reads; their lemmas show that the reader accepts exactly the complete frames within
  its cap. \<open>Protocol\<close> has the header, its validation and the line reads of the same file. \<open>Confine\<close> is
  \<open>SafeJoin\<close> of \<open>tarstream.go\<close> with \<open>Rel\<close> and \<open>Abs\<close> of \<open>mirror.go\<close>; \<open>Tarstream\<close> is \<open>Pack\<close> and
  \<open>Unpack\<close>, and \<open>Archive_Copy\<close> shows that the second undoes the first. \<open>Fetch\<close> has the inline and the
  pulled transfer of \<open>server.go\<close>.

  \<^bold>\<open>The mirror.\<close>
  \<open>Persist\<close> is the way a file is saved (write a temporary, rename); \<open>Index\<close> is \<open>index.go\<close> with every
  write-back, \<open>Tokens\<close> is \<open>tokens.go\<close>, \<open>Config\<close> is \<open>config.go\<close>. \<open>Mirror\<close> has the guard, staging,
  \<open>Promote\<close> and \<open>GC\<close> of \<open>mirror.go\<close>; the theory \<open>Promote\<close> has the facts about the guard and the swap,
  \<open>Gc_Steps\<close> what the steps of a collection can do (when no call fails they only remove, and the pass
  over the empty directories ends with none left), \<open>Collect\<close> what a whole collection spares and evicts.

  \<^bold>\<open>The daemon.\<close>
  \<open>Tunnel\<close> is \<open>tunnel.go\<close>, \<open>mux_unix.go\<close>, \<open>mux_windows.go\<close> and \<open>quote.go\<close>; \<open>Opener\<close> the four opener
  files; \<open>Server\<close> the request handler of \<open>server.go\<close>, from the header to the closing event.
  \<open>Slot_Region\<close>, \<open>Server_Safety\<close> and \<open>Delivery\<close> prove what one request may touch, which conversations it
  can have, and how it leaves its slot; \<open>Progress\<close> that a request which can be served is served when no
  call fails. \<open>Transition\<close> has transition systems with observable events and
  their refinement; three are built on it, each for any number of threads or processes: \<open>Keyed_Mutex\<close>
  (the lock of a slot), \<open>Accept\<close> (the accept loops and their semaphore) and \<open>Daemon\<close> (\<open>Run\<close> with
  \<open>lock_unix.go\<close> and \<open>listen_unix.go\<close>).

  \<^bold>\<open>The programs.\<close>
  \<open>Client\<close> is \<open>client.go\<close>; \<open>End_To_End\<close> runs it against the handler: what one writes the other reads, and
  a reported success means that the mirror holds the remote file or tree. \<open>Setup\<close> is \<open>setup.go\<close>,
  \<open>Launchd\<close> is \<open>launchd.go\<close>, and \<open>Commands\<close> the two \<open>main.go\<close> files with their flags and exit statuses.

  \<^bold>\<open>Interfaces.\<close>
  Where a component relies on another, the laws are a locale and the code's model interprets it:
  \<open>durable\<close> (a save leaves the old or the new content) by the index and the token store;
  \<open>confining_join\<close> (a join stays below its root) by \<open>SafeJoin\<close>; \<open>sync_index\<close> (lookup after an insertion
  or a removal) by the index; \<open>region\<close> (what calls inside a region leave alone) by sets of directories
  and by the part of a host; \<open>extraction\<close> (a relation every call of \<open>Unpack\<close> respects) four times:
  confinement, the byte budget, no links, nothing removed; \<open>system\<close> and \<open>refinement\<close> (an invariant, and
  an abstract system that simulates the steps) by the three systems above. The abstract specification
  of the keyed mutex is one ordinary mutex per key.

  \<^bold>\<open>Termination.\<close>
  No definition has fuel, apart from that number of rounds. Loops over input recurse on what is left of it, with a measure; sweeps of the
  mirror repeat at most as often as there are nodes. Dialling has no bound of its own in the code: it is
  a \<open>partial_function\<close> whose value is \<open>None\<close> if it never returns, and it is proved to return. The
  retry loop of a tunnel runs until it is cancelled: \<open>tunnel_run\<close> is the loop over the list of its
  attempts, of which it uses only how long each took and whether it was cancelled (the error is only
  logged), and \<open>tunnel_loop\<close> carries out any number of its rounds.

  \<^bold>\<open>Parameters.\<close>
  What is not under \<open>src/\<close> is an argument: the JSON codec, \<open>archive/tar\<close> (an archive is the sequence of
  members its reader delivers; where both ends meet, that it reads back what it wrote is a hypothesis),
  the commands that are started (\<open>ssh\<close>, \<open>scp\<close>, \<open>lsof\<close>, \<open>launchctl\<close>, the desktop's openers), the random
  source, symbolic links (resolving one is a parameter, in the mirror they are opaque nodes), the
  network and its dials, \<open>ParseInt\<close>, the environment and the identity of the machine.

  \<^bold>\<open>Not modelled.\<close>
  Logging and messages to the terminal; deadlines of connections and contexts (a read that times out is
  a connection that ends); permission bits other than the execute bit, owners and socket modes; timing
  (the constant-time comparison of tokens is equality); the Windows variants of the lock, the listener
  and the in-use test, which are single calls of its API; and the interleaving of the daily collection
  with requests, which the code does not serialize either. The order in which Go visits a map is the
  order of an association list, for any such list. A request and a collection are each run to their
  end: the code orders two requests only when they are for the same slot (\<open>Keyed_Mutex\<close>), and what
  others do to the file system in between is not interleaved here. In \<open>Daemon\<close> binding a host and
  shutting down are one step each, which the lock, held throughout, allows, and all processes read one
  configuration. The size the system reports of a directory depends on the platform and is taken as 0;
  the code looks at it only where it synced a file and finds a directory. A JSON \<open>null\<close> in place of the
  entries of the index, or of one entry, is not represented.
\<close>

end
